(* ===== verification/Prelude.thy ===== *)
theory Prelude
  imports Main "HOL-Library.AList" "HOL-Library.Word" "HOL-Library.Char_ord"
    "HOL-Library.List_Lexorder"
begin

text \<open>
  Shared vocabulary of the development: Go byte slices and strings as lists of bytes, the sentinel
  errors of \<^verbatim>\<open>errs/\<close>, result types, ASCII and hexadecimal helpers of the Go standard library,
  big-endian integers, and the generic lemmas on lists, maps and association lists that the
  component theories use.

  A Go \<^verbatim>\<open>string\<close> and a Go \<^verbatim>\<open>[]byte\<close> are both a \<^typ>\<open>char list\<close>; a \<^typ>\<open>char\<close> of Isabelle is one
  byte.  Instants are natural numbers of nanoseconds, 0 being the zero \<^verbatim>\<open>time.Time\<close>.  An error is
  represented by the sentinel it wraps (\<^verbatim>\<open>errors.Is\<close>); an error without a sentinel is \<open>ErrMsg\<close>.
\<close>

type_synonym bytes = "char list"
type_synonym path = "char list"
type_synonym time = nat

datatype err =
    ErrMsg string
  | ErrNotExist                 \<comment> \<open>fs.ErrNotExist / os.ErrNotExist\<close>
  | ErrAlreadyExists
  | ErrArtifactNotFound
  | ErrUnsupportedEncoding
  | ErrUnsupportedCrypto
  | ErrInvalidConfig
  | ErrTooManyRefs
  | ErrInvalidHandleRef
  | ErrInvalidManifestSlot
  | ErrManifestTooLarge
  | ErrCorruptedManifest
  | ErrCorruptedBlob
  | ErrCorruptedContent
  | ErrUnsupportedSchemaVersion
  | ErrUnsupportedAlgorithm
  | ErrInvalidPipeline
  | ErrDecryptionFailed
  | ErrKeyNotFound
  | ErrTruncated
  | ErrBadMagic
  | ErrUnsupportedVersion
  | ErrBadMode
  | ErrSegmentTooLarge
  | ErrSegmentAuth
  | ErrRandomAccessNotSupported
  | ErrKeyIDTooLong
  | ErrEOF                      \<comment> \<open>io.EOF\<close>
  | ErrUnexpectedEOF            \<comment> \<open>io.ErrUnexpectedEOF\<close>
  | ErrSystemArtifactForeign
  | ErrSystemArtifactMalformed
  | ErrLeaseHeld
  | ErrLeaseLost
  | ErrInvalidSystemName
  | ErrStoreNotReady
  | ErrStoreCorrupted
  | ErrLocked
  | ErrStoreReadOnly
  | ErrStoreOffline
  | ErrClosed                   \<comment> \<open>os.ErrClosed\<close>
  | ErrArtifactTooLarge
  | ErrExtTooLarge
  | ErrUsrTooLarge
  | ErrSessionIDTooLong
  | ErrEmptySessionID
  | ErrRetentionNotExpired
  | ErrDeletionForbidden
  | ErrIndexCorrupted
  | ErrIndexIncomplete
  | ErrIndexDamaged
  | ErrIndexSchemaMismatch
  | ErrConfigMismatch
  | ErrGovernanceMismatch
  | ErrConfigMissing
  | ErrDescriptorSplitBrain
  | ErrStoreNotFound
  | ErrStoreAlreadyExists
  | ErrInvalidTombstoneGracePeriod
  | ErrContext                  \<comment> \<open>context.Canceled / DeadlineExceeded\<close>

type_synonym 'a res = "err + 'a"

named_theorems codec_simps \<open>equations of byte codecs\<close>
named_theorems path_simps \<open>equations about driver paths\<close>

subsection \<open>Results\<close>

definition is_ok :: "'e + 'a \<Rightarrow> bool" where
  "is_ok r = (case r of Inl _ \<Rightarrow> False | Inr _ \<Rightarrow> True)"

lemma is_ok_simps [simp]: "\<not> is_ok (Inl e)" "is_ok (Inr x)"
  by (simp_all add: is_ok_def)

lemma is_ok_conv: "is_ok r \<longleftrightarrow> (\<exists>x. r = Inr x)"
  by (cases r) simp_all

subsection \<open>Strings\<close>

definition has_prefix :: "string \<Rightarrow> string \<Rightarrow> bool" where
  "has_prefix s p = (take (length p) s = p)"

definition has_suffix :: "string \<Rightarrow> string \<Rightarrow> bool" where
  "has_suffix s p = (length p \<le> length s \<and> drop (length s - length p) s = p)"

fun contains :: "string \<Rightarrow> string \<Rightarrow> bool" where
  "contains [] p = (p = [])"
| "contains (c # s) p = (has_prefix (c # s) p \<or> contains s p)"

lemma has_prefix_append [simp]: "has_prefix (p @ s) p"
  by (simp add: has_prefix_def)

lemma has_prefix_conv: "has_prefix s p \<longleftrightarrow> (\<exists>t. s = p @ t)"
  by (metis has_prefix_append has_prefix_def append_take_drop_id)

lemma has_suffix_append [simp]: "has_suffix (s @ p) p"
  by (simp add: has_suffix_def)

lemma has_suffix_conv: "has_suffix s p \<longleftrightarrow> (\<exists>t. s = t @ p)"
  by (metis has_suffix_append has_suffix_def append_take_drop_id)

lemma contains_conv: "contains s p \<longleftrightarrow> (\<exists>a b. s = a @ p @ b)"
proof
  show "contains s p \<Longrightarrow> \<exists>a b. s = a @ p @ b"
  proof (induction s)
    case (Cons c s)
    then show ?case
      by (auto simp: has_prefix_conv) (metis append_Nil, metis append_Cons)
  qed simp
next
  assume "\<exists>a b. s = a @ p @ b"
  then obtain a b where s: "s = a @ p @ b" by blast
  have "contains (a @ p @ b) p"
  proof (induction a)
    case Nil
    have "has_prefix (p @ b) p" by simp
    then show ?case by (cases "p @ b") auto
  qed auto
  then show "contains s p" by (simp add: s)
qed

lemma contains_append: "contains s p \<Longrightarrow> contains (s @ t) p"
  by (auto simp: contains_conv) (metis append.assoc)

definition lower_char :: "char \<Rightarrow> char" where
  "lower_char c = (let k = of_char c :: nat in if 65 \<le> k \<and> k \<le> 90 then char_of (k + 32) else c)"

definition to_lower :: "string \<Rightarrow> string" where
  "to_lower s = map lower_char s"

lemma length_to_lower [simp]: "length (to_lower s) = length s"
  by (simp add: to_lower_def)

text \<open>\<open>cut_last c s\<close> is the split around the last byte \<open>c\<close> (\<^verbatim>\<open>strings.LastIndexByte\<close>).\<close>

definition cut_last :: "char \<Rightarrow> string \<Rightarrow> (string \<times> string) option" where
  "cut_last c s = (if c \<in> set s
     then Some (rev (tl (dropWhile (\<lambda>x. x \<noteq> c) (rev s))), rev (takeWhile (\<lambda>x. x \<noteq> c) (rev s)))
     else None)"

lemma cut_last_append [simp]:
  assumes "c \<notin> set t"
  shows "cut_last c (s @ c # t) = Some (s, t)"
proof -
  have t: "takeWhile (\<lambda>x. x \<noteq> c) (rev t @ c # rev s) = rev t"
    using assms by (subst takeWhile_append2) auto
  have d: "dropWhile (\<lambda>x. x \<noteq> c) (rev t @ c # rev s) = c # rev s"
    using assms by (subst dropWhile_append2) auto
  show ?thesis
    by (simp add: cut_last_def t d)
qed

lemma cut_last_None [simp]: "c \<notin> set s \<Longrightarrow> cut_last c s = None"
  by (simp add: cut_last_def)

lemma cut_last_SomeD:
  assumes "cut_last c s = Some (a, b)"
  shows "s = a @ c # b \<and> c \<notin> set b"
proof -
  have c: "c \<in> set s" using assms by (auto simp: cut_last_def split: if_splits)
  then obtain u v where s: "s = u @ c # v" "c \<notin> set v"
    by (meson split_list_last)
  then show ?thesis using assms by simp
qed

text \<open>\<^verbatim>\<open>strings.Split\<close> on a byte and \<^verbatim>\<open>strings.Join\<close>.\<close>

fun split_on :: "char \<Rightarrow> string \<Rightarrow> string list" where
  "split_on c [] = [[]]"
| "split_on c (x # xs) =
     (if x = c then [] # split_on c xs
      else case split_on c xs of [] \<Rightarrow> [[x]] | y # ys \<Rightarrow> (x # y) # ys)"

fun join :: "char \<Rightarrow> string list \<Rightarrow> string" where
  "join c [] = []"
| "join c [s] = s"
| "join c (s # t # r) = s @ c # join c (t # r)"

lemma split_on_neq_Nil [simp]: "split_on c s \<noteq> []"
  by (induction s) (auto split: list.splits)

lemma join_split [simp]: "join c (split_on c s) = s"
proof (induction s)
  case (Cons x xs)
  obtain y ys where y: "split_on c xs = y # ys" by (meson neq_Nil_conv split_on_neq_Nil)
  then show ?case using Cons by (cases ys) auto
qed simp

lemma split_on_no_sep: "c \<notin> set s \<Longrightarrow> split_on c s = [s]"
  by (induction s) auto

lemma split_on_append: "c \<notin> set s \<Longrightarrow> split_on c (s @ c # t) = s # split_on c t"
  by (induction s) auto

lemma split_on_app: "split_on c (u @ c # v) = split_on c u @ split_on c v"
  by (induction u) (auto split: list.splits)

lemma split_join:
  "ss \<noteq> [] \<Longrightarrow> list_all (\<lambda>s. c \<notin> set s) ss \<Longrightarrow> split_on c (join c ss) = ss"
  by (induction c ss rule: join.induct) (auto simp: split_on_no_sep split_on_append)

lemma split_on_elem: "s \<in> set (split_on c t) \<Longrightarrow> c \<notin> set s"
  by (induction t arbitrary: s) (auto split: if_splits list.splits)

subsection \<open>Hexadecimal\<close>

definition is_lower_hex :: "char \<Rightarrow> bool" where
  "is_lower_hex c = (let k = of_char c :: nat in (48 \<le> k \<and> k \<le> 57) \<or> (97 \<le> k \<and> k \<le> 102))"

definition hex_digit :: "nat \<Rightarrow> char" where
  "hex_digit n = (if n < 10 then char_of (48 + n) else char_of (87 + n))"

definition from_hex :: "char \<Rightarrow> nat option" where
  "from_hex c = (let k = of_char c :: nat in
     if 48 \<le> k \<and> k \<le> 57 then Some (k - 48)
     else if 97 \<le> k \<and> k \<le> 102 then Some (k - 87)
     else if 65 \<le> k \<and> k \<le> 70 then Some (k - 55)
     else None)"

definition hex_byte :: "char \<Rightarrow> string" where
  "hex_byte c = (let k = of_char c :: nat in [hex_digit (k div 16), hex_digit (k mod 16)])"

definition hex_encode :: "bytes \<Rightarrow> string" where
  "hex_encode b = concat (map hex_byte b)"

fun hex_decode :: "string \<Rightarrow> bytes option" where
  "hex_decode [] = Some []"
| "hex_decode [_] = None"
| "hex_decode (a # b # s) =
     (case (from_hex a, from_hex b, hex_decode s) of
        (Some x, Some y, Some r) \<Rightarrow> Some (char_of (16 * x + y) # r)
      | _ \<Rightarrow> None)"

lemma of_char_lt [simp]: "of_char c < (256::nat)"
  using of_char_mod_256 [of c, where 'a = nat] by (metis mod_less_divisor zero_less_numeral)

lemma of_char_div16 [simp]: "of_char c div 16 < (16::nat)"
  using of_char_lt [of c] by linarith

lemma from_hex_digit [simp]: "n < 16 \<Longrightarrow> from_hex (hex_digit n) = Some n"
  by (auto simp: from_hex_def hex_digit_def Let_def)

lemma is_lower_hex_digit [simp]: "n < 16 \<Longrightarrow> is_lower_hex (hex_digit n)"
  by (auto simp: is_lower_hex_def hex_digit_def Let_def)

lemma hex_encode_simps [simp]:
  "hex_encode [] = []" "hex_encode (c # b) = hex_byte c @ hex_encode b"
  by (simp_all add: hex_encode_def)

lemma hex_decode_encode [codec_simps, simp]: "hex_decode (hex_encode b) = Some b"
  by (induction b) (simp_all add: hex_byte_def Let_def)

lemma hex_encode_inj [simp]: "hex_encode a = hex_encode b \<longleftrightarrow> a = b"
  by (metis hex_decode_encode option.inject)

lemma length_hex_encode [simp]: "length (hex_encode b) = 2 * length b"
  by (induction b) (simp_all add: hex_byte_def Let_def)

lemma hex_encode_lower: "c \<in> set (hex_encode b) \<Longrightarrow> is_lower_hex c"
  by (induction b) (auto simp: hex_byte_def Let_def)

lemma lower_hex_not_sep [simp]:
  "is_lower_hex c \<Longrightarrow> c \<noteq> CHR ''/''" "is_lower_hex c \<Longrightarrow> c \<noteq> CHR ''.''"
  by (auto simp: is_lower_hex_def Let_def)

lemma sep_not_lower_hex [simp]:
  "\<not> is_lower_hex CHR ''/''" "\<not> is_lower_hex CHR ''.''"
  by (simp_all add: is_lower_hex_def)

lemma lower_char_hex [simp]: "is_lower_hex c \<Longrightarrow> lower_char c = c"
  by (auto simp: is_lower_hex_def lower_char_def Let_def)

lemma to_lower_hex [simp]: "list_all is_lower_hex s \<Longrightarrow> to_lower s = s"
  by (induction s) (simp_all add: to_lower_def)

subsection \<open>Big-endian unsigned integers\<close>

definition byte_of :: "nat \<Rightarrow> char" where
  "byte_of n = char_of n"

definition be16 :: "nat \<Rightarrow> bytes" where
  "be16 n = [byte_of (n div 256), byte_of n]"

definition be32 :: "nat \<Rightarrow> bytes" where
  "be32 n = [byte_of (n div 16777216), byte_of (n div 65536), byte_of (n div 256), byte_of n]"

definition un_be :: "bytes \<Rightarrow> nat" where
  "un_be b = foldl (\<lambda>acc c. 256 * acc + of_char c) 0 b"

lemma length_be [simp]: "length (be16 n) = 2" "length (be32 n) = 4"
  by (simp_all add: be16_def be32_def)

lemma un_be16 [codec_simps, simp]: "n < 65536 \<Longrightarrow> un_be (be16 n) = n"
  by (simp add: be16_def un_be_def byte_of_def)

lemma un_be32 [codec_simps, simp]:
  assumes "n < 4294967296"
  shows "un_be (be32 n) = n"
proof -
  have d: "n div 65536 = n div 256 div 256" "n div 16777216 = n div 256 div 256 div 256"
    by (simp_all add: div_mult2_eq [symmetric])
  have "n div 256 div 256 div 256 mod 256 = n div 256 div 256 div 256"
    using assms by (simp add: div_mult2_eq [symmetric] div_less_iff_less_mult)
  then show ?thesis
    unfolding be32_def un_be_def byte_of_def d
    by (simp del: div_mult2_eq [symmetric] add: mult_div_mod_eq)
qed

subsection \<open>Association lists\<close>

text \<open>Tables and directories are association lists; \<^const>\<open>AList.update\<close> keeps the position of an
  existing key and appends a new one, \<^const>\<open>AList.delete\<close> removes every entry of a key.\<close>

lemma map_of_update [simp]: "map_of (AList.update k v al) = (map_of al)(k \<mapsto> v)"
  by (simp add: update_conv')

lemma map_of_delete [simp]: "map_of (AList.delete k al) = (map_of al)(k := None)"
  by (simp add: delete_conv')

lemma map_of_filter_key: "map_of (filter (\<lambda>e. P (fst e)) al) k = (if P k then map_of al k else None)"
  by (induction al) auto

lemma in_set_map_of_iff:
  "distinct (map fst al) \<Longrightarrow> (k, v) \<in> set al \<longleftrightarrow> map_of al k = Some v"
  by (simp add: eq_commute)

lemma map_of_None_iff: "map_of al k = None \<longleftrightarrow> k \<notin> set (map fst al)"
  by (simp add: map_of_eq_None_iff)

end
