(* ===== verification/Driver_Spec.thy ===== *)
theory Driver_Spec
  imports Prelude
begin

text \<open>
  The storage driver interface (\<^verbatim>\<open>engine/driver/driver.go\<close>) as its clients see it: a record of
  operations over an abstract driver state, and two locales with the laws the clients rely on.

  \<open>driver_laws\<close> is what the documentation promises of every driver, failures included: an operation
  either takes effect or leaves the visible files alone, except that a plain write may report an
  error after it has been committed (the parent-directory fsync).  \<open>reliable_driver\<close> adds progress:
  as long as the medium does not fail, operations succeed.

  A reader argument is the bytes it yields and the error it ends with, if any.  A walk
  (\<^verbatim>\<open>ListObjectsWithModTime\<close>) is the objects it hands to its callback and the error it ends with, if any: a
  client that acts on each object, or stops at the first, has seen a prefix when the walk fails.
\<close>

type_synonym reader = "bytes \<times> err option"

record object_meta =
  om_path :: path
  om_size :: nat
  om_mtime :: time

record 'd driver =
  d_put :: "'d \<Rightarrow> path \<Rightarrow> reader \<Rightarrow> bool \<Rightarrow> unit res \<times> 'd"
  d_get :: "'d \<Rightarrow> path \<Rightarrow> bytes res"
  d_remove :: "'d \<Rightarrow> path \<Rightarrow> unit res \<times> 'd"
  d_rename :: "'d \<Rightarrow> path \<Rightarrow> path \<Rightarrow> unit res \<times> 'd"
  d_walk :: "'d \<Rightarrow> path \<Rightarrow> time \<Rightarrow> object_meta list \<times> err option"
  d_mark_tombstone :: "'d \<Rightarrow> path \<Rightarrow> unit res \<times> 'd"
  d_is_tombstone :: "'d \<Rightarrow> path \<Rightarrow> bool res"
  d_tombstone_info :: "'d \<Rightarrow> path \<Rightarrow> (bool \<times> time) res"
  d_remove_tombstone :: "'d \<Rightarrow> path \<Rightarrow> unit res \<times> 'd"
  d_now :: "'d \<Rightarrow> time"

text \<open>A walk whose callback only collects the objects.\<close>

definition d_list :: "'d driver \<Rightarrow> 'd \<Rightarrow> path \<Rightarrow> time \<Rightarrow> object_meta list res" where
  "d_list D d dir t = (case d_walk D d dir t of (ms, None) \<Rightarrow> Inr ms | (ms, Some e) \<Rightarrow> Inl e)"

text \<open>\<^verbatim>\<open>tombstoneSuffix\<close>.\<close>

definition tombstone_suffix :: string where
  "tombstone_suffix = ''.tombstone''"

definition tombstone_of :: "path \<Rightarrow> path" where
  "tombstone_of p = p @ tombstone_suffix"

lemma tombstone_of_neq [simp]: "tombstone_of p \<noteq> p" "p \<noteq> tombstone_of p"
  by (auto simp: tombstone_of_def tombstone_suffix_def)

lemma tombstone_of_inj [simp]: "tombstone_of p = tombstone_of q \<longleftrightarrow> p = q"
  by (simp add: tombstone_of_def)

text \<open>The effect of marking a path on the visible files: the content moves to the marker, an existing
  marker wins over a stray original, and a path that was never written gets an empty marker.\<close>

definition mark_view :: "path \<Rightarrow> (path \<rightharpoonup> bytes) \<Rightarrow> (path \<rightharpoonup> bytes)" where
  "mark_view p v = (case (v (tombstone_of p), v p) of
      (Some _, Some _) \<Rightarrow> v(p := None)
    | (Some _, None) \<Rightarrow> v
    | (None, Some b) \<Rightarrow> v(p := None, tombstone_of p \<mapsto> b)
    | (None, None) \<Rightarrow> v(tombstone_of p \<mapsto> []))"

lemma mark_view_frame: "q \<noteq> p \<Longrightarrow> q \<noteq> tombstone_of p \<Longrightarrow> mark_view p v q = v q"
  by (auto simp: mark_view_def split: option.splits)

text \<open>Names hidden from listings: tombstone markers and in-flight temporary files (\<^verbatim>\<open>isHidden\<close>).\<close>

definition is_temp :: "string \<Rightarrow> bool" where
  "is_temp n = (has_prefix n ''.'' \<and> contains n ''.tmp.'')"

definition is_hidden :: "string \<Rightarrow> bool" where
  "is_hidden n = (has_suffix n tombstone_suffix \<or> is_temp n)"

text \<open>A file below a directory none of whose path elements under that directory is hidden.\<close>

definition listed_under :: "path \<Rightarrow> path \<Rightarrow> bool" where
  "listed_under dir p = (has_prefix p (dir @ ''/'') \<and>
     (\<forall>n \<in> set (split_on CHR ''/'' (drop (length dir + 1) p)). \<not> is_hidden n))"

locale driver_laws =
  fixes D :: "'d driver"
    and view :: "'d \<Rightarrow> path \<Rightarrow> bytes option"
    and ok :: "path \<Rightarrow> bool"
    and inv :: "'d \<Rightarrow> bool"
  assumes put_ok: "inv d \<Longrightarrow> ok p \<Longrightarrow> d_put D d p r x = (Inr u, d') \<Longrightarrow>
      snd r = None \<and> view d' = (view d)(p \<mapsto> fst r) \<and> (x \<longrightarrow> view d p = None)"
    and put_err: "inv d \<Longrightarrow> ok p \<Longrightarrow> d_put D d p r x = (Inl e, d') \<Longrightarrow>
      view d' = view d \<or> (snd r = None \<and> view d' = (view d)(p \<mapsto> fst r) \<and> (x \<longrightarrow> view d p = None))"
    and put_exists: "inv d \<Longrightarrow> ok p \<Longrightarrow> snd r = None \<Longrightarrow> d_put D d p r x = (Inl ErrAlreadyExists, d') \<Longrightarrow>
      x \<and> view d p \<noteq> None \<and> view d' = view d"
    and get_ok: "inv d \<Longrightarrow> ok p \<Longrightarrow> d_get D d p = Inr b \<Longrightarrow> view d p = Some b"
    and get_absent: "inv d \<Longrightarrow> ok p \<Longrightarrow> d_get D d p = Inl ErrNotExist \<Longrightarrow> view d p = None"
    and remove_ok: "inv d \<Longrightarrow> ok p \<Longrightarrow> d_remove D d p = (Inr u, d') \<Longrightarrow> view d' = (view d)(p := None)"
    and remove_err: "inv d \<Longrightarrow> ok p \<Longrightarrow> d_remove D d p = (Inl e, d') \<Longrightarrow> view d' = view d"
    and rename_ok: "inv d \<Longrightarrow> ok p \<Longrightarrow> ok q \<Longrightarrow> p \<noteq> q \<Longrightarrow> d_rename D d p q = (Inr u, d') \<Longrightarrow>
      \<exists>b. view d p = Some b \<and> view d' = (view d)(p := None, q \<mapsto> b)"
    and rename_err: "inv d \<Longrightarrow> ok p \<Longrightarrow> ok q \<Longrightarrow> d_rename D d p q = (Inl e, d') \<Longrightarrow> view d' = view d"
    and mark_ok: "inv d \<Longrightarrow> ok p \<Longrightarrow> d_mark_tombstone D d p = (Inr u, d') \<Longrightarrow> view d' = mark_view p (view d)"
    and mark_err: "inv d \<Longrightarrow> ok p \<Longrightarrow> d_mark_tombstone D d p = (Inl e, d') \<Longrightarrow> view d' = view d"
    and info_ok: "inv d \<Longrightarrow> ok p \<Longrightarrow> d_tombstone_info D d p = Inr (m, t) \<Longrightarrow>
      m = (view d (tombstone_of p) \<noteq> None)"
    and unmark_ok: "inv d \<Longrightarrow> ok p \<Longrightarrow> d_remove_tombstone D d p = (Inr u, d') \<Longrightarrow>
      view d' = (view d)(tombstone_of p := None)"
    and unmark_err: "inv d \<Longrightarrow> ok p \<Longrightarrow> d_remove_tombstone D d p = (Inl e, d') \<Longrightarrow> view d' = view d"
    and walk_ok: "inv d \<Longrightarrow> ok dir \<Longrightarrow> view d dir = None \<Longrightarrow> d_walk D d dir 0 = (ms, w) \<Longrightarrow>
      distinct (map om_path ms) \<and> om_path ` set ms \<subseteq> {p. listed_under dir p \<and> view d p \<noteq> None} \<and>
      (w = None \<longrightarrow> om_path ` set ms = {p. listed_under dir p \<and> view d p \<noteq> None})"
    and inv_keep: "inv d \<Longrightarrow> inv (snd (d_put D d p r x))" "inv d \<Longrightarrow> inv (snd (d_remove D d p))"
      "inv d \<Longrightarrow> inv (snd (d_rename D d p q))" "inv d \<Longrightarrow> inv (snd (d_mark_tombstone D d p))"
      "inv d \<Longrightarrow> inv (snd (d_remove_tombstone D d p))"
begin

lemma list_ok: "inv d \<Longrightarrow> ok dir \<Longrightarrow> view d dir = None \<Longrightarrow> d_list D d dir 0 = Inr ms \<Longrightarrow>
    distinct (map om_path ms) \<and> om_path ` set ms = {p. listed_under dir p \<and> view d p \<noteq> None}"
  using walk_ok [of d dir ms None] by (auto simp: d_list_def split: prod.splits option.splits)

text \<open>Whatever the outcome, an operation on one path leaves every other path alone.\<close>

lemma put_frame: "inv d \<Longrightarrow> ok p \<Longrightarrow> q \<noteq> p \<Longrightarrow> view (snd (d_put D d p r x)) q = view d q"
  by (cases "d_put D d p r x"; cases "fst (d_put D d p r x)") (auto dest: put_ok put_err)

lemma put_exclusive_frame:
  "inv d \<Longrightarrow> ok p \<Longrightarrow> view d q = Some b \<Longrightarrow> view (snd (d_put D d p r True)) q = Some b"
  by (cases "d_put D d p r True"; cases "fst (d_put D d p r True)")
     (fastforce dest: put_ok put_err)+

lemma remove_frame: "inv d \<Longrightarrow> ok p \<Longrightarrow> q \<noteq> p \<Longrightarrow> view (snd (d_remove D d p)) q = view d q"
  by (cases "d_remove D d p"; cases "fst (d_remove D d p)") (auto dest: remove_ok remove_err)

lemma rename_frame:
  "inv d \<Longrightarrow> ok p \<Longrightarrow> ok q \<Longrightarrow> p \<noteq> q \<Longrightarrow> s \<noteq> p \<Longrightarrow> s \<noteq> q \<Longrightarrow> view (snd (d_rename D d p q)) s = view d s"
  by (cases "d_rename D d p q"; cases "fst (d_rename D d p q)") (auto dest: rename_ok rename_err)

lemma mark_frame:
  "inv d \<Longrightarrow> ok p \<Longrightarrow> q \<noteq> p \<Longrightarrow> q \<noteq> tombstone_of p \<Longrightarrow> view (snd (d_mark_tombstone D d p)) q = view d q"
  by (cases "d_mark_tombstone D d p"; cases "fst (d_mark_tombstone D d p)")
     (auto dest: mark_ok mark_err simp: mark_view_frame)

lemma unmark_frame:
  "inv d \<Longrightarrow> ok p \<Longrightarrow> q \<noteq> tombstone_of p \<Longrightarrow> view (snd (d_remove_tombstone D d p)) q = view d q"
  by (cases "d_remove_tombstone D d p"; cases "fst (d_remove_tombstone D d p)")
     (auto dest: unmark_ok unmark_err)

end

locale reliable_driver = driver_laws +
  fixes rel :: "'a \<Rightarrow> bool"
  assumes rel_inv: "rel d \<Longrightarrow> inv d"
    and rel_put: "rel d \<Longrightarrow> ok p \<Longrightarrow> snd r = None \<Longrightarrow> (\<not> x \<or> view d p = None) \<Longrightarrow>
      fst (d_put D d p r x) = Inr ()"
    and rel_put_exists: "rel d \<Longrightarrow> ok p \<Longrightarrow> snd r = None \<Longrightarrow> view d p \<noteq> None \<Longrightarrow>
      fst (d_put D d p r True) = Inl ErrAlreadyExists"
    and rel_get: "rel d \<Longrightarrow> ok p \<Longrightarrow>
      d_get D d p = (case view d p of Some b \<Rightarrow> Inr b | None \<Rightarrow> Inl ErrNotExist)"
    and rel_remove: "rel d \<Longrightarrow> ok p \<Longrightarrow> fst (d_remove D d p) = Inr ()"
    and rel_rename: "rel d \<Longrightarrow> ok p \<Longrightarrow> ok q \<Longrightarrow> view d p = Some b \<Longrightarrow>
      fst (d_rename D d p q) = Inr ()"
    and rel_walk: "rel d \<Longrightarrow> ok dir \<Longrightarrow> snd (d_walk D d dir t) = None"
    and rel_keep: "rel d \<Longrightarrow> ok p \<Longrightarrow> rel (snd (d_put D d p r x))"
      "rel d \<Longrightarrow> ok p \<Longrightarrow> rel (snd (d_remove D d p))"
      "rel d \<Longrightarrow> ok p \<Longrightarrow> ok q \<Longrightarrow> rel (snd (d_rename D d p q))"
      "rel d \<Longrightarrow> ok p \<Longrightarrow> rel (snd (d_mark_tombstone D d p))"
      "rel d \<Longrightarrow> ok p \<Longrightarrow> rel (snd (d_remove_tombstone D d p))"
begin

lemma rel_list: "rel d \<Longrightarrow> ok dir \<Longrightarrow> \<exists>ms. d_list D d dir t = Inr ms"
  using rel_walk [of d dir t] by (auto simp: d_list_def split: prod.splits)

lemma get_after_put:
  assumes "rel d" "ok p" "snd r = None" "\<not> x \<or> view d p = None"
  shows "d_get D (snd (d_put D d p r x)) p = Inr (fst r)"
proof -
  have "d_put D d p r x = (Inr (), snd (d_put D d p r x))"
    using rel_put [OF assms] by (metis prod.collapse)
  then have "view (snd (d_put D d p r x)) p = Some (fst r)"
    using put_ok [OF rel_inv [OF assms(1)] assms(2)] by (metis fun_upd_same)
  then show ?thesis
    using rel_get [OF rel_keep(1) [OF assms(1,2)] assms(2)] by simp
qed

lemma get_after_remove:
  assumes "rel d" "ok p"
  shows "d_get D (snd (d_remove D d p)) p = Inl ErrNotExist"
proof -
  have "d_remove D d p = (Inr (), snd (d_remove D d p))"
    using rel_remove [OF assms] by (metis prod.collapse)
  then have "view (snd (d_remove D d p)) p = None"
    using remove_ok [OF rel_inv [OF assms(1)] assms(2)] by (metis fun_upd_same)
  then show ?thesis
    using rel_get [OF rel_keep(2) [OF assms(1,2)] assms(2)] by simp
qed

end

end
