(* ===== verification/Localfs.thy ===== *)
theory Localfs
  imports Driver_Spec
begin

text \<open>
  The local filesystem driver (\<^verbatim>\<open>engine/driver/localfs\<close>).

  The state holds the driver's root and options and the regular files of the filesystem keyed by
  absolute path.  Directories are implicit: a directory exists when a file lies below it, and
  creating parents is a step that can only fail.  Every system call of an operation can fail; the
  schedule \<open>lf_fault\<close> says which do, per operation count \<open>lf_tick\<close>, which every mutating operation
  advances.  \<open>lf_clock\<close> and \<open>lf_nonce\<close> give the time and the random temp-file suffix of an operation.
  The theorems hold for every schedule.
\<close>

record file_node =
  f_content :: bytes
  f_mtime :: time

datatype io_fault = FCtx | FIO string

datatype syscall = SCtx | SMkdir path | SCreate path | SWrite path | SFsync path | SClose path
  | SLink path path | SRename path path | SFsyncDir path | SOpen path | SRemove path | SStat path
  | SWalk path

record localfs =
  lf_root :: path
  lf_fsync :: bool
  lf_files :: "(path \<times> file_node) list"
  lf_tick :: nat
  lf_fault :: "nat \<Rightarrow> syscall \<Rightarrow> io_fault option"
  lf_clock :: "nat \<Rightarrow> time"
  lf_nonce :: "nat \<Rightarrow> bytes"

definition fault_err :: "io_fault \<Rightarrow> err" where
  "fault_err f = (case f of FCtx \<Rightarrow> ErrContext | FIO s \<Rightarrow> ErrMsg s)"

definition sys :: "localfs \<Rightarrow> syscall \<Rightarrow> io_fault option" where
  "sys d c = lf_fault d (lf_tick d) c"

definition lf_now :: "localfs \<Rightarrow> time" where
  "lf_now d = lf_clock d (lf_tick d)"

definition tick :: "localfs \<Rightarrow> localfs" where
  "tick d = d \<lparr> lf_tick := Suc (lf_tick d) \<rparr>"

definition set_files :: "localfs \<Rightarrow> (path \<times> file_node) list \<Rightarrow> localfs" where
  "set_files d fs = d \<lparr> lf_files := fs \<rparr>"

subsection \<open>Paths\<close>

text \<open>\<^verbatim>\<open>filepath.Clean\<close> of a relative path: empty and \<^verbatim>\<open>.\<close> elements are dropped, a \<^verbatim>\<open>..\<close> removes the
  element before it, leading \<^verbatim>\<open>..\<close> elements stay.\<close>

fun clean_elems :: "string list \<Rightarrow> string list \<Rightarrow> string list" where
  "clean_elems acc [] = rev acc"
| "clean_elems acc (e # es) =
     (if e = [] \<or> e = ''.'' then clean_elems acc es
      else if e = ''..'' then
        (case acc of
           [] \<Rightarrow> clean_elems [''..''] es
         | a # rest \<Rightarrow> if a = ''..'' then clean_elems (''..'' # acc) es else clean_elems rest es)
      else clean_elems (e # acc) es)"

definition clean :: "path \<Rightarrow> path" where
  "clean p = (case clean_elems [] (split_on CHR ''/'' p) of [] \<Rightarrow> ''.'' | es \<Rightarrow> join CHR ''/'' es)"

definition join_root :: "path \<Rightarrow> path \<Rightarrow> path" where
  "join_root root p = (if root = ''/'' then ''/'' @ p else root @ ''/'' @ p)"

definition resolve :: "localfs \<Rightarrow> path \<Rightarrow> path res" where
  "resolve d p =
     (if p = [] then Inl (ErrMsg ''empty path'')
      else if has_prefix p ''/'' then Inl (ErrMsg ''absolute paths are not allowed'')
      else let cleaned = clean p in
        if cleaned = ''.'' \<or> cleaned = ''..'' \<or> has_prefix cleaned ''../''
        then Inl (ErrMsg ''path traversal not allowed'')
        else let full = join_root (lf_root d) cleaned in
          if \<not> has_prefix full (lf_root d @ ''/'') \<and> full \<noteq> lf_root d
          then Inl (ErrMsg ''path escapes root'')
          else Inr full)"

definition resolve_dir :: "localfs \<Rightarrow> path \<Rightarrow> path res" where
  "resolve_dir d p = (if p = [] \<or> p = ''.'' \<or> p = ''/'' then Inr (lf_root d) else resolve d p)"

definition to_logical :: "localfs \<Rightarrow> path \<Rightarrow> path" where
  "to_logical d full = drop (length (lf_root d) + 1) full"

definition base_name :: "path \<Rightarrow> string" where
  "base_name p = (case cut_last CHR ''/'' p of Some (_, b) \<Rightarrow> b | None \<Rightarrow> p)"

definition dir_name :: "path \<Rightarrow> path" where
  "dir_name p = (case cut_last CHR ''/'' p of Some (a, _) \<Rightarrow> a | None \<Rightarrow> ''.'')"

definition file_exists :: "localfs \<Rightarrow> path \<Rightarrow> bool res" where
  "file_exists d p = (case sys d (SStat p) of
      Some f \<Rightarrow> Inl (fault_err f)
    | None \<Rightarrow> Inr (map_of (lf_files d) p \<noteq> None))"

subsection \<open>Writing\<close>

definition temp_path :: "localfs \<Rightarrow> path \<Rightarrow> path" where
  "temp_path d full = dir_name full @ ''/.'' @ base_name full @ ''.tmp.'' @
     hex_encode (lf_nonce d (lf_tick d))"

definition create_temp_file :: "localfs \<Rightarrow> path \<Rightarrow> (path \<times> localfs) res" where
  "create_temp_file d full = (let tmp = temp_path d full in
     case sys d (SCreate tmp) of
       Some f \<Rightarrow> Inl (fault_err f)
     | None \<Rightarrow>
         if map_of (lf_files d) tmp \<noteq> None then Inl (ErrMsg ''file exists'')
         else Inr (tmp, set_files d (AList.update tmp \<lparr> f_content = [], f_mtime = lf_now d \<rparr> (lf_files d))))"

text \<open>The deferred best-effort removal of the temporary file.\<close>

definition drop_temp :: "localfs \<Rightarrow> path \<Rightarrow> localfs" where
  "drop_temp d tmp = (case sys d (SRemove tmp) of
      Some _ \<Rightarrow> d
    | None \<Rightarrow> set_files d (AList.delete tmp (lf_files d)))"

definition fsync_soft :: "io_fault \<Rightarrow> bool" where
  "fsync_soft f = (f = FIO ''invalid argument'' \<or> f = FIO ''operation not supported'')"

definition fsync_parent :: "localfs \<Rightarrow> path \<Rightarrow> unit res" where
  "fsync_parent d full =
     (if lf_fsync d then
        (case sys d (SFsyncDir (dir_name full)) of
           Some f \<Rightarrow> if fsync_soft f then Inr () else Inl (fault_err f)
         | None \<Rightarrow> Inr ())
      else Inr ())"

text \<open>Committing the temporary file onto the final path: \<^verbatim>\<open>link\<close> refuses an existing target,
  \<^verbatim>\<open>rename\<close> replaces it.\<close>

definition commit_temp :: "localfs \<Rightarrow> path \<Rightarrow> path \<Rightarrow> file_node \<Rightarrow> bool \<Rightarrow> unit res \<times> localfs" where
  "commit_temp d tmp full node exclusive =
     (if exclusive then
        (case sys d (SLink tmp full) of
           Some f \<Rightarrow> (Inl (fault_err f), drop_temp d tmp)
         | None \<Rightarrow>
             if map_of (lf_files d) full \<noteq> None then (Inl ErrAlreadyExists, drop_temp d tmp)
             else let d' = drop_temp (set_files d (AList.update full node (lf_files d))) tmp in
               (fsync_parent d' full, d'))
      else
        (case sys d (SRename tmp full) of
           Some f \<Rightarrow> (Inl (fault_err f), drop_temp d tmp)
         | None \<Rightarrow>
             let d' = set_files d (AList.update full node (AList.delete tmp (lf_files d))) in
               (fsync_parent d' full, d')))"

definition put_body :: "localfs \<Rightarrow> path \<Rightarrow> reader \<Rightarrow> bool \<Rightarrow> unit res \<times> localfs" where
  "put_body d full r exclusive =
     (case sys d (SMkdir (dir_name full)) of
        Some f \<Rightarrow> (Inl (fault_err f), d)
      | None \<Rightarrow>
     (case create_temp_file d full of
        Inl e \<Rightarrow> (Inl e, d)
      | Inr (tmp, d1) \<Rightarrow>
          let node = \<lparr> f_content = fst r, f_mtime = lf_now d \<rparr>;
              d2 = set_files d1 (AList.update tmp node (lf_files d1)) in
          case snd r of
            Some e \<Rightarrow> (Inl e, drop_temp d2 tmp)
          | None \<Rightarrow>
         (case sys d (SWrite tmp) of
            Some f \<Rightarrow> (Inl (fault_err f), drop_temp d2 tmp)
          | None \<Rightarrow>
         (case (if lf_fsync d then sys d (SFsync tmp) else None) of
            Some f \<Rightarrow> (Inl (fault_err f), drop_temp d2 tmp)
          | None \<Rightarrow>
         (case sys d (SClose tmp) of
            Some f \<Rightarrow> (Inl (fault_err f), drop_temp d2 tmp)
          | None \<Rightarrow> commit_temp d2 tmp full node exclusive)))))"

definition lfs_put :: "localfs \<Rightarrow> path \<Rightarrow> reader \<Rightarrow> bool \<Rightarrow> unit res \<times> localfs" where
  "lfs_put d p r exclusive =
     (case sys d SCtx of
        Some f \<Rightarrow> (Inl (fault_err f), tick d)
      | None \<Rightarrow>
     (case resolve d p of
        Inl e \<Rightarrow> (Inl e, tick d)
      | Inr full \<Rightarrow> (case put_body d full r exclusive of (res, d') \<Rightarrow> (res, tick d'))))"

subsection \<open>Reading, removing, renaming\<close>

definition lfs_get :: "localfs \<Rightarrow> path \<Rightarrow> bytes res" where
  "lfs_get d p =
     (case sys d SCtx of
        Some f \<Rightarrow> Inl (fault_err f)
      | None \<Rightarrow>
     (case resolve d p of
        Inl e \<Rightarrow> Inl e
      | Inr full \<Rightarrow>
     (case sys d (SOpen full) of
        Some f \<Rightarrow> Inl (fault_err f)
      | None \<Rightarrow>
     (case map_of (lf_files d) full of
        None \<Rightarrow> Inl ErrNotExist
      | Some n \<Rightarrow> Inr (f_content n)))))"

definition lfs_read_at :: "localfs \<Rightarrow> path \<Rightarrow> int \<Rightarrow> int \<Rightarrow> bytes res" where
  "lfs_read_at d p offset sz =
     (case sys d SCtx of
        Some f \<Rightarrow> Inl (fault_err f)
      | None \<Rightarrow>
          if offset < 0 \<or> sz < 0 then Inl (ErrMsg ''negative offset or size'')
          else case resolve d p of
            Inl e \<Rightarrow> Inl e
          | Inr full \<Rightarrow>
         (case sys d (SOpen full) of
            Some f \<Rightarrow> Inl (fault_err f)
          | None \<Rightarrow>
         (case map_of (lf_files d) full of
            None \<Rightarrow> Inl ErrNotExist
          | Some n \<Rightarrow> Inr (take (nat sz) (drop (nat offset) (f_content n))))))"

definition lfs_remove :: "localfs \<Rightarrow> path \<Rightarrow> unit res \<times> localfs" where
  "lfs_remove d p =
     (case sys d SCtx of
        Some f \<Rightarrow> (Inl (fault_err f), tick d)
      | None \<Rightarrow>
     (case resolve d p of
        Inl e \<Rightarrow> (Inl e, tick d)
      | Inr full \<Rightarrow>
     (case sys d (SRemove full) of
        Some f \<Rightarrow> (Inl (fault_err f), tick d)
      | None \<Rightarrow> (Inr (), tick (set_files d (AList.delete full (lf_files d)))))))"

text \<open>\<^verbatim>\<open>rename(2)\<close>: the destination receives the node of the source, modification time included.\<close>

definition rename_node :: "path \<Rightarrow> path \<Rightarrow> (path \<times> file_node) list \<Rightarrow> (path \<times> file_node) list option" where
  "rename_node src dst fs = (case map_of fs src of
      None \<Rightarrow> None
    | Some n \<Rightarrow> Some (if src = dst then fs else AList.update dst n (AList.delete src fs)))"

definition lfs_rename :: "localfs \<Rightarrow> path \<Rightarrow> path \<Rightarrow> unit res \<times> localfs" where
  "lfs_rename d src dst =
     (case sys d SCtx of
        Some f \<Rightarrow> (Inl (fault_err f), tick d)
      | None \<Rightarrow>
     (case resolve d src of
        Inl e \<Rightarrow> (Inl e, tick d)
      | Inr s \<Rightarrow>
     (case resolve d dst of
        Inl e \<Rightarrow> (Inl e, tick d)
      | Inr t \<Rightarrow>
     (case sys d (SMkdir (dir_name t)) of
        Some f \<Rightarrow> (Inl (fault_err f), tick d)
      | None \<Rightarrow>
     (case sys d (SRename s t) of
        Some f \<Rightarrow> (Inl (fault_err f), tick d)
      | None \<Rightarrow>
     (case rename_node s t (lf_files d) of
        None \<Rightarrow> (Inl ErrNotExist, tick d)
      | Some fs \<Rightarrow> (Inr (), tick (set_files d fs))))))))"

definition lfs_clone :: "localfs \<Rightarrow> path \<Rightarrow> path \<Rightarrow> unit res \<times> localfs" where
  "lfs_clone d src dst =
     (case sys d SCtx of
        Some f \<Rightarrow> (Inl (fault_err f), tick d)
      | None \<Rightarrow>
     (case resolve d src of
        Inl e \<Rightarrow> (Inl e, tick d)
      | Inr s \<Rightarrow>
     (case sys d (SOpen s) of
        Some f \<Rightarrow> (Inl (fault_err f), tick d)
      | None \<Rightarrow>
     (case map_of (lf_files d) s of
        None \<Rightarrow> (Inl ErrNotExist, tick d)
      | Some n \<Rightarrow> lfs_put d dst (f_content n, None) False))))"

record file_info =
  fi_size :: nat
  fi_mtime :: time

definition lfs_stat :: "localfs \<Rightarrow> path \<Rightarrow> file_info res" where
  "lfs_stat d p =
     (case sys d SCtx of
        Some f \<Rightarrow> Inl (fault_err f)
      | None \<Rightarrow>
     (case resolve d p of
        Inl e \<Rightarrow> Inl e
      | Inr full \<Rightarrow>
     (case sys d (SStat full) of
        Some f \<Rightarrow> Inl (fault_err f)
      | None \<Rightarrow>
     (case map_of (lf_files d) full of
        None \<Rightarrow> Inl ErrNotExist
      | Some n \<Rightarrow> Inr \<lparr> fi_size = length (f_content n), fi_mtime = f_mtime n \<rparr>))))"

subsection \<open>Tombstones\<close>

definition lfs_mark_tombstone :: "localfs \<Rightarrow> path \<Rightarrow> unit res \<times> localfs" where
  "lfs_mark_tombstone d p =
     (case sys d SCtx of
        Some f \<Rightarrow> (Inl (fault_err f), tick d)
      | None \<Rightarrow>
     (case resolve d p of
        Inl e \<Rightarrow> (Inl e, tick d)
      | Inr full \<Rightarrow> let tomb = full @ tombstone_suffix in
     (case file_exists d full of
        Inl e \<Rightarrow> (Inl e, tick d)
      | Inr src_exists \<Rightarrow>
     (case file_exists d tomb of
        Inl e \<Rightarrow> (Inl e, tick d)
      | Inr dst_exists \<Rightarrow>
          if dst_exists \<and> src_exists then
            (case sys d (SRemove full) of
               Some f \<Rightarrow> (Inl (fault_err f), tick d)
             | None \<Rightarrow> (Inr (), tick (set_files d (AList.delete full (lf_files d)))))
          else if dst_exists then (Inr (), tick d)
          else if src_exists then
            (case sys d (SRename full tomb) of
               Some f \<Rightarrow> (Inl (fault_err f), tick d)
             | None \<Rightarrow>
            (case rename_node full tomb (lf_files d) of
               None \<Rightarrow> (Inl ErrNotExist, tick d)
             | Some fs \<Rightarrow> (Inr (), tick (set_files d fs))))
          else
            (case sys d (SCreate tomb) of
               Some f \<Rightarrow> (Inl (fault_err f), tick d)
             | None \<Rightarrow> (Inr (), tick (set_files d
                 (AList.update tomb \<lparr> f_content = [], f_mtime = lf_now d \<rparr> (lf_files d)))))))))"

definition lfs_is_tombstone :: "localfs \<Rightarrow> path \<Rightarrow> bool res" where
  "lfs_is_tombstone d p =
     (case sys d SCtx of
        Some f \<Rightarrow> Inl (fault_err f)
      | None \<Rightarrow>
     (case resolve d p of
        Inl e \<Rightarrow> Inl e
      | Inr full \<Rightarrow> file_exists d (full @ tombstone_suffix)))"

definition lfs_tombstone_info :: "localfs \<Rightarrow> path \<Rightarrow> (bool \<times> time) res" where
  "lfs_tombstone_info d p =
     (case sys d SCtx of
        Some f \<Rightarrow> Inl (fault_err f)
      | None \<Rightarrow>
     (case resolve d p of
        Inl e \<Rightarrow> Inl e
      | Inr full \<Rightarrow>
     (case sys d (SStat (full @ tombstone_suffix)) of
        Some f \<Rightarrow> Inl (fault_err f)
      | None \<Rightarrow>
     (case map_of (lf_files d) (full @ tombstone_suffix) of
        None \<Rightarrow> Inr (False, 0)
      | Some n \<Rightarrow> Inr (True, f_mtime n)))))"

definition lfs_remove_tombstone :: "localfs \<Rightarrow> path \<Rightarrow> unit res \<times> localfs" where
  "lfs_remove_tombstone d p =
     (case sys d SCtx of
        Some f \<Rightarrow> (Inl (fault_err f), tick d)
      | None \<Rightarrow>
     (case resolve d p of
        Inl e \<Rightarrow> (Inl e, tick d)
      | Inr full \<Rightarrow>
     (case sys d (SRemove (full @ tombstone_suffix)) of
        Some f \<Rightarrow> (Inl (fault_err f), tick d)
      | None \<Rightarrow> (Inr (), tick (set_files d (AList.delete (full @ tombstone_suffix) (lf_files d)))))))"

subsection \<open>Listing\<close>

definition meta_of :: "localfs \<Rightarrow> path \<times> file_node \<Rightarrow> object_meta" where
  "meta_of d e = \<lparr> om_path = to_logical d (fst e), om_size = length (f_content (snd e)),
     om_mtime = f_mtime (snd e) \<rparr>"

text \<open>\<^verbatim>\<open>ListObjectsWithModTime\<close>: the objects it hands to its callback, in the order of the model's file table, and the
  error that ended the walk.  Reaching an entry (reading its directory, its \<^verbatim>\<open>Info\<close>) may fail after earlier entries have
  been handed over.\<close>

fun walk_entries :: "localfs \<Rightarrow> time \<Rightarrow> (path \<times> file_node) list \<Rightarrow> object_meta list \<times> err option" where
  "walk_entries d since [] = ([], None)"
| "walk_entries d since (e # es) =
     (case sys d (SWalk (fst e)) of
        Some f \<Rightarrow> ([], Some (fault_err f))
      | None \<Rightarrow>
          let (ms, r) = walk_entries d since es
          in (if f_mtime (snd e) < since then ms else meta_of d e # ms, r))"

definition lfs_list_objects :: "localfs \<Rightarrow> path \<Rightarrow> time \<Rightarrow> object_meta list \<times> err option" where
  "lfs_list_objects d prefix since =
     (case resolve_dir d prefix of
        Inl e \<Rightarrow> ([], if e = ErrNotExist then None else Some e)
      | Inr full \<Rightarrow>
     (case sys d (SStat full) of
        Some f \<Rightarrow> ([], Some (fault_err f))
      | None \<Rightarrow>
     (case map_of (lf_files d) full of
        Some n \<Rightarrow>
          (if \<not> is_hidden (base_name full) \<and> \<not> f_mtime n < since
           then [meta_of d (full, n)] else [], None)
      | None \<Rightarrow>
     (case (sys d (SWalk full), sys d SCtx) of
        (Some f, _) \<Rightarrow> ([], Some (fault_err f))
      | (None, Some f) \<Rightarrow> ([], Some (fault_err f))
      | (None, None) \<Rightarrow>
          walk_entries d since (filter (\<lambda>e. listed_under full (fst e)) (lf_files d))))))"

definition lfs_count_objects :: "localfs \<Rightarrow> path \<Rightarrow> nat res" where
  "lfs_count_objects d prefix =
     (case resolve_dir d prefix of
        Inl e \<Rightarrow> if e = ErrNotExist then Inr 0 else Inl e
      | Inr full \<Rightarrow>
     (case sys d (SStat full) of
        Some f \<Rightarrow> Inl (fault_err f)
      | None \<Rightarrow>
     (case (sys d (SWalk full), sys d SCtx) of
        (Some f, _) \<Rightarrow> Inl (fault_err f)
      | (None, Some f) \<Rightarrow> Inl (fault_err f)
      | (None, None) \<Rightarrow>
          (case map_of (lf_files d) full of
             Some _ \<Rightarrow> Inr (if is_hidden (base_name full) then 0 else 1)
           | None \<Rightarrow> Inr (length (filter (\<lambda>e. listed_under full (fst e)) (lf_files d)))))))"

definition localfs_driver :: "localfs driver" where
  "localfs_driver = \<lparr>
     d_put = lfs_put, d_get = lfs_get, d_remove = lfs_remove, d_rename = lfs_rename,
     d_walk = lfs_list_objects, d_mark_tombstone = lfs_mark_tombstone,
     d_is_tombstone = lfs_is_tombstone, d_tombstone_info = lfs_tombstone_info,
     d_remove_tombstone = lfs_remove_tombstone, d_now = lf_now \<rparr>"

lemma localfs_driver_simps [simp]:
  "d_put localfs_driver = lfs_put" "d_get localfs_driver = lfs_get"
  "d_remove localfs_driver = lfs_remove" "d_rename localfs_driver = lfs_rename"
  "d_walk localfs_driver = lfs_list_objects" "d_mark_tombstone localfs_driver = lfs_mark_tombstone"
  "d_is_tombstone localfs_driver = lfs_is_tombstone"
  "d_tombstone_info localfs_driver = lfs_tombstone_info"
  "d_remove_tombstone localfs_driver = lfs_remove_tombstone" "d_now localfs_driver = lf_now"
  by (simp_all add: localfs_driver_def)

subsection \<open>The visible files\<close>

text \<open>Clean paths of the driver API: slash-separated, without empty, \<^verbatim>\<open>.\<close> or \<^verbatim>\<open>..\<close> elements, and such that
  neither the file nor its tombstone has the name of a temporary file.\<close>

definition clean_path :: "path \<Rightarrow> bool" where
  "clean_path p = (list_all (\<lambda>e. e \<noteq> [] \<and> e \<noteq> ''.'' \<and> e \<noteq> ''..'') (split_on CHR ''/'' p)
     \<and> \<not> is_temp (base_name (tombstone_of p)))"

definition abs_path :: "localfs \<Rightarrow> path \<Rightarrow> path" where
  "abs_path d p = lf_root d @ ''/'' @ p"

definition lfs_view :: "localfs \<Rightarrow> path \<Rightarrow> bytes option" where
  "lfs_view d p = (if is_temp (base_name p) then None
     else map_option f_content (map_of (lf_files d) (abs_path d p)))"

text \<open>The state invariant: an absolute root other than \<^verbatim>\<open>/\<close>, one node per path, every path below the
  root.\<close>

definition lfs_inv :: "localfs \<Rightarrow> bool" where
  "lfs_inv d = (lf_root d \<noteq> ''/'' \<and> distinct (map fst (lf_files d))
     \<and> (\<forall>e \<in> set (lf_files d). has_prefix (fst e) (lf_root d @ ''/'')))"

subsection \<open>Lemmas on paths\<close>

lemma clean_elems_good:
  "list_all (\<lambda>e. e \<noteq> [] \<and> e \<noteq> ''.'' \<and> e \<noteq> ''..'') es \<Longrightarrow> clean_elems acc es = rev acc @ es"
  by (induction es arbitrary: acc) auto

lemma clean_clean_path: "clean_path p \<Longrightarrow> clean p = p"
  using clean_elems_good [of "split_on CHR ''/'' p" "[]"]
  by (cases "split_on CHR ''/'' p") (auto simp: clean_def clean_path_def, metis join_split)

lemma clean_path_head:
  assumes "clean_path p"
  shows "p \<noteq> []" "p \<noteq> ''.''" "p \<noteq> ''..''" "\<not> has_prefix p ''/''" "\<not> has_prefix p ''../''"
proof -
  have g: "e \<noteq> [] \<and> e \<noteq> ''.'' \<and> e \<noteq> ''..''" if "e \<in> set (split_on CHR ''/'' p)" for e
    using assms that by (auto simp: clean_path_def list_all_iff)
  show "p \<noteq> []" "p \<noteq> ''.''" "p \<noteq> ''..''"
    using g by (auto simp: split_on_no_sep)
  show "\<not> has_prefix p ''/''" "\<not> has_prefix p ''../''"
    using g [of "[]"] g [of "''..''"] by (auto simp: has_prefix_conv)
qed

lemma resolve_clean: "clean_path p \<Longrightarrow> lf_root d \<noteq> ''/'' \<Longrightarrow> resolve d p = Inr (abs_path d p)"
  using has_prefix_append [of "lf_root d @ ''/''" p]
  by (simp add: resolve_def clean_path_head clean_clean_path join_root_def abs_path_def)

lemma base_name_append [simp]: "base_name (a @ CHR ''/'' # p) = base_name p"
proof (cases "CHR ''/'' \<in> set p")
  case True
  then obtain u v where p: "p = u @ CHR ''/'' # v" "CHR ''/'' \<notin> set v" by (meson split_list_last)
  have "base_name ((a @ CHR ''/'' # u) @ CHR ''/'' # v) = v" "base_name p = v"
    using p by (simp_all only: base_name_def cut_last_append p) simp_all
  then show ?thesis using p by simp
qed (simp add: base_name_def)

lemma base_name_leaf: "CHR ''/'' \<notin> set p \<Longrightarrow> base_name p = p"
  by (simp add: base_name_def)

lemma base_name_no_sep: "CHR ''/'' \<notin> set (base_name p)"
  by (auto simp: base_name_def cut_last_def dest: set_takeWhileD split: option.splits if_splits)

lemma base_name_suffix: "CHR ''/'' \<notin> set s \<Longrightarrow> base_name (p @ s) = base_name p @ s"
proof (cases "CHR ''/'' \<in> set p")
  case True
  assume s: "CHR ''/'' \<notin> set s"
  from True obtain u v where p: "p = u @ CHR ''/'' # v" "CHR ''/'' \<notin> set v" by (meson split_list_last)
  then show ?thesis using s by (simp add: base_name_def)
qed (simp add: base_name_def)

lemma base_name_abs [simp]: "base_name (abs_path d p) = base_name p"
  by (simp add: abs_path_def)

lemma abs_path_inj [simp]: "abs_path d p = abs_path d q \<longleftrightarrow> p = q"
  by (simp add: abs_path_def)

lemma tombstone_no_sep: "CHR ''/'' \<notin> set tombstone_suffix"
  by (simp add: tombstone_suffix_def)

lemma clean_path_not_temp:
  assumes "clean_path p"
  shows "\<not> is_temp (base_name p)" "\<not> is_temp (base_name (tombstone_of p))"
proof -
  show t: "\<not> is_temp (base_name (tombstone_of p))"
    using assms by (simp add: clean_path_def)
  have "base_name (tombstone_of p) = base_name p @ tombstone_suffix"
    by (simp add: tombstone_of_def base_name_suffix tombstone_no_sep)
  then show "\<not> is_temp (base_name p)"
    using t by (auto simp: is_temp_def contains_append has_prefix_conv)
qed

lemma base_temp_path: "base_name (temp_path d full) = ''.'' @ base_name full @ ''.tmp.'' @
    hex_encode (lf_nonce d (lf_tick d))"
proof -
  have "CHR ''/'' \<notin> set (''.'' @ base_name full @ ''.tmp.'' @ hex_encode (lf_nonce d (lf_tick d)))"
    using base_name_no_sep [of full] hex_encode_lower [of "CHR ''/''"] by auto
  then show ?thesis
    by (simp add: temp_path_def base_name_def)
qed

lemma is_temp_temp_path [simp]: "is_temp (base_name (temp_path d full))"
proof -
  let ?h = "hex_encode (lf_nonce d (lf_tick d))"
  have "base_name (temp_path d full) = (''.'' @ base_name full) @ ''.tmp.'' @ ?h"
    unfolding base_temp_path by simp
  then have "contains (base_name (temp_path d full)) ''.tmp.''"
    unfolding contains_conv by blast
  then show ?thesis
    by (simp add: is_temp_def base_temp_path has_prefix_def)
qed

lemma temp_path_under:
  assumes "has_prefix full (root @ ''/'')"
  shows "has_prefix (temp_path d full) (root @ ''/'')"
proof -
  obtain c where f: "full = root @ CHR ''/'' # c" using assms by (auto simp: has_prefix_conv)
  have "\<exists>x. dir_name full @ ''/'' = root @ CHR ''/'' # x"
  proof (cases "CHR ''/'' \<in> set c")
    case True
    then obtain u v where c: "c = u @ CHR ''/'' # v" "CHR ''/'' \<notin> set v" by (meson split_list_last)
    then have "dir_name full = root @ CHR ''/'' # u"
      using cut_last_append [OF c(2), of "root @ CHR ''/'' # u"] by (simp add: dir_name_def f)
    then show ?thesis by simp
  next
    case False
    then show ?thesis by (simp add: dir_name_def f)
  qed
  then obtain x where "dir_name full @ ''/'' = root @ CHR ''/'' # x" by blast
  then have "temp_path d full = root @ CHR ''/'' # x @ ''.'' @ base_name full @ ''.tmp.'' @
      hex_encode (lf_nonce d (lf_tick d))"
    unfolding temp_path_def by (metis append.assoc append_Cons append_Nil)
  then show ?thesis by (simp add: has_prefix_conv)
qed

subsection \<open>The effect of the operations on the visible files\<close>

definition vis :: "localfs \<Rightarrow> path \<Rightarrow> file_node option" where
  "vis d k = (if is_temp (base_name k) then None else map_of (lf_files d) k)"

lemma lfs_view_vis: "lfs_view d p = map_option f_content (vis d (abs_path d p))"
  by (simp add: lfs_view_def vis_def)

lemma sys_set_files [simp]: "sys (set_files d fs) c = sys d c" "lf_root (set_files d fs) = lf_root d"
  "lf_fsync (set_files d fs) = lf_fsync d" "lf_files (set_files d fs) = fs"
  "lf_now (set_files d fs) = lf_now d" "lf_fault (set_files d fs) = lf_fault d"
  "lf_tick (set_files d fs) = lf_tick d" "set_files (set_files d fs) fs' = set_files d fs'"
  by (simp_all add: sys_def set_files_def lf_now_def)

lemma tick_simps [simp]: "lf_root (tick d) = lf_root d" "lf_files (tick d) = lf_files d"
  "lf_fault (tick d) = lf_fault d" "vis (tick d) = vis d"
  by (simp_all add: tick_def vis_def fun_eq_iff)

lemma vis_update [simp]:
  "vis (set_files d (AList.update k n fs)) =
     (if is_temp (base_name k) then vis (set_files d fs) else (vis (set_files d fs))(k \<mapsto> n))"
  by (auto simp: vis_def fun_eq_iff)

lemma vis_delete [simp]:
  "vis (set_files d (AList.delete k fs)) =
     (if is_temp (base_name k) then vis (set_files d fs) else (vis (set_files d fs))(k := None))"
  by (auto simp: vis_def fun_eq_iff)

lemma vis_set_same [simp]: "vis (set_files d (lf_files d')) = vis d'"
  by (simp add: vis_def fun_eq_iff)

lemma drop_temp_simps [simp]:
  "is_temp (base_name tmp) \<Longrightarrow> vis (drop_temp d tmp) = vis d" "lf_root (drop_temp d tmp) = lf_root d"
  "lf_fault (drop_temp d tmp) = lf_fault d" "lf_tick (drop_temp d tmp) = lf_tick d"
  by (auto simp: drop_temp_def split: option.splits)

lemma fault_err_neq [simp]:
  "fault_err f \<noteq> ErrNotExist" "fault_err f \<noteq> ErrAlreadyExists" "ErrNotExist \<noteq> fault_err f"
  "ErrAlreadyExists \<noteq> fault_err f"
  by (auto simp: fault_err_def split: io_fault.splits)

lemma commit_temp_vis:
  assumes "commit_temp d tmp full node x = (res, d')" "is_temp (base_name tmp)"
    "\<not> is_temp (base_name full)"
  shows "(vis d' = (vis d)(full \<mapsto> node) \<and> (x \<longrightarrow> vis d full = None) \<and> res \<noteq> Inl ErrAlreadyExists)
    \<or> (vis d' = vis d \<and> (\<exists>e. res = Inl e) \<and> (res = Inl ErrAlreadyExists \<longrightarrow> x \<and> vis d full \<noteq> None))"
  using assms
  by (auto simp: commit_temp_def Let_def fsync_parent_def vis_def split: if_splits option.splits)

lemma put_body_vis:
  assumes "put_body d full r x = (res, d')" "\<not> is_temp (base_name full)"
  shows "(vis d' = (vis d)(full \<mapsto> \<lparr> f_content = fst r, f_mtime = lf_now d \<rparr>) \<and> snd r = None
        \<and> (x \<longrightarrow> vis d full = None) \<and> res \<noteq> Inl ErrAlreadyExists)
    \<or> (vis d' = vis d \<and> (\<exists>e. res = Inl e)
        \<and> (res = Inl ErrAlreadyExists \<and> snd r = None \<longrightarrow> x \<and> vis d full \<noteq> None))"
proof -
  let ?n = "\<lparr> f_content = fst r, f_mtime = lf_now d \<rparr>" and ?t = "temp_path d full"
  let ?d2 = "set_files d (AList.update ?t ?n (lf_files d))"
  consider (early) e where "res = Inl e" "vis d' = vis d" "e = ErrAlreadyExists \<longrightarrow> snd r \<noteq> None"
    | (commit) "snd r = None" "commit_temp ?d2 ?t full ?n x = (res, d')"
    using assms
    by (auto simp: put_body_def create_temp_file_def Let_def split: option.splits if_splits sum.splits)
  then show ?thesis
  proof cases
    case early
    then show ?thesis by auto
  next
    case commit
    then show ?thesis using commit_temp_vis [OF commit(2) _ assms(2)] by auto
  qed
qed

lemma view_of_vis:
  assumes "vis d' = (vis d)(abs_path d p \<mapsto> n)" "lf_root d' = lf_root d"
  shows "lfs_view d' = (lfs_view d)(p \<mapsto> f_content n)"
proof -
  have "abs_path d' = abs_path d" using assms(2) by (simp add: abs_path_def fun_eq_iff)
  then show ?thesis using assms(1) by (auto simp: lfs_view_vis fun_eq_iff)
qed

lemma view_of_vis_same:
  assumes "vis d' = vis d" "lf_root d' = lf_root d"
  shows "lfs_view d' = lfs_view d"
  using assms by (simp add: lfs_view_vis fun_eq_iff abs_path_def)

lemma commit_temp_root [simp]: "lf_root (snd (commit_temp d tmp full n x)) = lf_root d"
  by (auto simp: commit_temp_def Let_def split: option.splits)

lemma put_body_root [simp]: "lf_root (snd (put_body d full r x)) = lf_root d"
  by (auto simp: put_body_def create_temp_file_def Let_def split: option.splits sum.splits)

lemma lfs_put_view:
  assumes "lf_root d \<noteq> ''/''" "clean_path p" "lfs_put d p r x = (res, d')"
  shows "(lfs_view d' = (lfs_view d)(p \<mapsto> fst r) \<and> snd r = None \<and> (x \<longrightarrow> lfs_view d p = None)
          \<and> res \<noteq> Inl ErrAlreadyExists)
    \<or> (lfs_view d' = lfs_view d \<and> (\<exists>e. res = Inl e)
        \<and> (res = Inl ErrAlreadyExists \<and> snd r = None \<longrightarrow> x \<and> lfs_view d p \<noteq> None))"
proof (cases "sys d SCtx")
  case (Some f)
  then show ?thesis
    using assms view_of_vis_same [of "tick d" d] by (auto simp: lfs_put_def)
next
  case None
  obtain d1 where b: "put_body d (abs_path d p) r x = (res, d1)" "d' = tick d1"
    using assms None by (auto simp: lfs_put_def resolve_clean split: prod.splits)
  have r: "lf_root d1 = lf_root d" using put_body_root [of d "abs_path d p" r x] b by simp
  have t: "\<not> is_temp (base_name (abs_path d p))" using clean_path_not_temp [OF assms(2)] by simp
  show ?thesis
    using put_body_vis [OF b(1) t] view_of_vis [of d' d p] view_of_vis_same [of d' d] b(2) r
    by (auto simp: lfs_view_vis)
qed

lemma tomb_abs: "abs_path d p @ tombstone_suffix = abs_path d (tombstone_of p)"
  by (simp add: abs_path_def tombstone_of_def)

lemma view_unset:
  assumes "vis d' = (vis d)(abs_path d p := None)" "lf_root d' = lf_root d"
  shows "lfs_view d' = (lfs_view d)(p := None)"
proof -
  have "abs_path d' = abs_path d" using assms(2) by (simp add: abs_path_def fun_eq_iff)
  then show ?thesis using assms(1) by (auto simp: lfs_view_vis fun_eq_iff)
qed

lemma view_tick [simp]: "lfs_view (tick d) = lfs_view d"
  by (rule view_of_vis_same) simp_all

lemma view_delete [simp]:
  "clean_path p \<Longrightarrow> lfs_view (set_files d (AList.delete (abs_path d p) (lf_files d))) = (lfs_view d)(p := None)"
  "clean_path p \<Longrightarrow> lfs_view (set_files d (AList.delete (abs_path d (tombstone_of p)) (lf_files d)))
     = (lfs_view d)(tombstone_of p := None)"
  using clean_path_not_temp [of p] by (auto intro!: view_unset)

lemma lookup_view:
  "\<not> is_temp (base_name p) \<Longrightarrow> lfs_view d p = map_option f_content (map_of (lf_files d) (abs_path d p))"
  by (simp add: lfs_view_def)

lemma rename_node_view:
  assumes "rename_node (abs_path d p) (abs_path d q) (lf_files d) = Some fs" "p \<noteq> q"
    "\<not> is_temp (base_name p)" "\<not> is_temp (base_name q)"
  shows "\<exists>b. lfs_view d p = Some b \<and> lfs_view (set_files d fs) = (lfs_view d)(p := None, q \<mapsto> b)"
proof -
  obtain n where n: "map_of (lf_files d) (abs_path d p) = Some n"
      "fs = AList.update (abs_path d q) n (AList.delete (abs_path d p) (lf_files d))"
    using assms(1,2) by (auto simp: rename_node_def split: option.splits)
  have "lfs_view (set_files d fs) = (lfs_view d)(p := None, q \<mapsto> f_content n)"
    using n assms(3,4) by (auto simp: lfs_view_vis abs_path_def fun_eq_iff)
  then show ?thesis using n assms(3) by (auto simp: lookup_view)
qed

lemma lfs_get_cases:
  assumes "lf_root d \<noteq> ''/''" "clean_path p"
  shows "lfs_get d p = (case lfs_view d p of Some b \<Rightarrow> Inr b | None \<Rightarrow> Inl ErrNotExist)
    \<or> (\<exists>f. lfs_get d p = Inl (fault_err f) \<and> (sys d SCtx = Some f \<or> sys d (SOpen (abs_path d p)) = Some f))"
  using assms clean_path_not_temp [OF assms(2)]
  by (auto simp: lfs_get_def resolve_clean lookup_view split: option.splits)

lemma lfs_remove_cases:
  assumes "lf_root d \<noteq> ''/''" "clean_path p"
  shows "fst (lfs_remove d p) = Inr () \<and> lfs_view (snd (lfs_remove d p)) = (lfs_view d)(p := None)
    \<or> (\<exists>f. fst (lfs_remove d p) = Inl (fault_err f) \<and> lfs_view (snd (lfs_remove d p)) = lfs_view d
         \<and> (sys d SCtx = Some f \<or> sys d (SRemove (abs_path d p)) = Some f))"
  using assms by (auto simp: lfs_remove_def resolve_clean split: option.splits)

lemma lfs_rename_cases:
  assumes "lf_root d \<noteq> ''/''" "clean_path p" "clean_path q" "p \<noteq> q"
  shows "(\<exists>b. fst (lfs_rename d p q) = Inr () \<and> lfs_view d p = Some b
            \<and> lfs_view (snd (lfs_rename d p q)) = (lfs_view d)(p := None, q \<mapsto> b))
    \<or> (\<exists>e. fst (lfs_rename d p q) = Inl e \<and> lfs_view (snd (lfs_rename d p q)) = lfs_view d)"
  using assms rename_node_view [of d p q] clean_path_not_temp [of p] clean_path_not_temp [of q]
  by (auto simp: lfs_rename_def resolve_clean split: option.splits)

lemma lfs_mark_cases:
  assumes "lf_root d \<noteq> ''/''" "clean_path p"
  shows "fst (lfs_mark_tombstone d p) = Inr ()
          \<and> lfs_view (snd (lfs_mark_tombstone d p)) = mark_view p (lfs_view d)
    \<or> (\<exists>e. fst (lfs_mark_tombstone d p) = Inl e \<and> lfs_view (snd (lfs_mark_tombstone d p)) = lfs_view d)"
proof -
  note t = clean_path_not_temp [OF assms(2)]
  let ?s = "map_of (lf_files d) (abs_path d p)" and ?t = "map_of (lf_files d) (abs_path d (tombstone_of p))"
  have v: "lfs_view d p = map_option f_content ?s" "lfs_view d (tombstone_of p) = map_option f_content ?t"
    using t by (simp_all add: lookup_view)
  have rn: "lfs_view (set_files d fs) = mark_view p (lfs_view d)"
    if "rename_node (abs_path d p) (abs_path d (tombstone_of p)) (lf_files d) = Some fs" "?t = None" for fs
    using rename_node_view [OF that(1)] t v that(2) by (auto simp: mark_view_def)
  have cr: "lfs_view (set_files d (AList.update (abs_path d (tombstone_of p)) \<lparr>f_content = [], f_mtime = m\<rparr>
      (lf_files d))) = mark_view p (lfs_view d)" if "?s = None" "?t = None" for m
    using t v that by (subst view_of_vis [of _ d "tombstone_of p"]) (auto simp: mark_view_def)
  show ?thesis
    using assms v rn cr
    by (auto simp: lfs_mark_tombstone_def resolve_clean tomb_abs file_exists_def Let_def mark_view_def
        split: option.splits)
qed

lemma lfs_info_cases:
  assumes "lf_root d \<noteq> ''/''" "clean_path p"
  shows "lfs_tombstone_info d p = (case map_of (lf_files d) (abs_path d (tombstone_of p)) of
           None \<Rightarrow> Inr (False, 0) | Some n \<Rightarrow> Inr (True, f_mtime n))
    \<or> (\<exists>f. lfs_tombstone_info d p = Inl (fault_err f))"
  using assms by (auto simp: lfs_tombstone_info_def resolve_clean tomb_abs split: option.splits)

lemma lfs_unmark_cases:
  assumes "lf_root d \<noteq> ''/''" "clean_path p"
  shows "fst (lfs_remove_tombstone d p) = Inr ()
          \<and> lfs_view (snd (lfs_remove_tombstone d p)) = (lfs_view d)(tombstone_of p := None)
    \<or> (\<exists>e. fst (lfs_remove_tombstone d p) = Inl e \<and> lfs_view (snd (lfs_remove_tombstone d p)) = lfs_view d)"
  using assms by (auto simp: lfs_remove_tombstone_def resolve_clean tomb_abs split: option.splits)

subsection \<open>Listing\<close>

lemma listed_under_abs: "listed_under (abs_path d dir) (abs_path d p) \<longleftrightarrow> listed_under dir p"
  by (simp add: listed_under_def abs_path_def has_prefix_conv)

lemma listed_not_temp:
  assumes "listed_under dir p"
  shows "\<not> is_temp (base_name p)"
proof -
  obtain q where p: "p = dir @ CHR ''/'' # q" using assms by (auto simp: listed_under_def has_prefix_conv)
  have "base_name p \<in> set (split_on CHR ''/'' q)"
  proof (cases "CHR ''/'' \<in> set q")
    case True
    then obtain u v where q: "q = u @ CHR ''/'' # v" "CHR ''/'' \<notin> set v" by (meson split_list_last)
    have "v \<in> set (split_on CHR ''/'' (u @ CHR ''/'' # v))"
      using q(2) by (simp add: split_on_app split_on_no_sep)
    then show ?thesis using q by (simp add: p base_name_leaf)
  next
    case False
    then show ?thesis by (simp add: p base_name_leaf split_on_no_sep)
  qed
  then show ?thesis
    using assms by (auto simp: listed_under_def p is_hidden_def)
qed

lemma inv_keys:
  assumes "lfs_inv d" "(k, n) \<in> set (lf_files d)"
  shows "k = abs_path d (to_logical d k)"
  using assms by (fastforce simp: lfs_inv_def has_prefix_conv abs_path_def to_logical_def)

lemma walk_entries_prefix:
  "walk_entries d 0 es = (ms, e) \<Longrightarrow>
    \<exists>k. ms = map (meta_of d) (take k es) \<and> (e = None \<longrightarrow> ms = map (meta_of d) es)"
proof (induction es arbitrary: ms)
  case Nil
  then show ?case by simp
next
  case (Cons x es)
  show ?case
  proof (cases "sys d (SWalk (fst x))")
    case None
    then obtain ms' where m: "walk_entries d 0 es = (ms', e)" "ms = meta_of d x # ms'"
      using Cons.prems by (auto split: prod.splits)
    then obtain k where "ms' = map (meta_of d) (take k es)" "e = None \<longrightarrow> ms' = map (meta_of d) es"
      using Cons.IH by blast
    then show ?thesis using m(2) by (intro exI [of _ "Suc k"]) simp
  qed (use Cons.prems in \<open>auto intro: exI [of _ 0]\<close>)
qed

lemma lfs_walk_entries:
  assumes "lfs_inv d" "clean_path dir" "lfs_view d dir = None" "lfs_list_objects d dir 0 = (ms, e)"
  shows "\<exists>k. ms = map (meta_of d) (take k (filter (\<lambda>x. listed_under (abs_path d dir) (fst x)) (lf_files d))) \<and>
    (e = None \<longrightarrow> ms = map (meta_of d) (filter (\<lambda>x. listed_under (abs_path d dir) (fst x)) (lf_files d)))"
proof -
  have "map_of (lf_files d) (abs_path d dir) = None"
    using assms(3) clean_path_not_temp [OF assms(2)] by (simp add: lookup_view)
  moreover have "resolve_dir d dir = Inr (abs_path d dir)"
    using clean_path_head [OF assms(2)] resolve_clean [OF assms(2)] assms(1)
    by (auto simp: resolve_dir_def has_prefix_def lfs_inv_def)
  ultimately show ?thesis
    using assms(4) walk_entries_prefix [of d "filter (\<lambda>x. listed_under (abs_path d dir) (fst x)) (lf_files d)" ms e]
    by (auto simp: lfs_list_objects_def intro: exI [of _ 0] split: option.splits)
qed

lemma lfs_list_ok:
  assumes "lfs_inv d" "clean_path dir" "lfs_view d dir = None" "lfs_list_objects d dir 0 = (ms, e)"
  shows "distinct (map om_path ms) \<and> om_path ` set ms \<subseteq> {p. listed_under dir p \<and> lfs_view d p \<noteq> None} \<and>
    (e = None \<longrightarrow> om_path ` set ms = {p. listed_under dir p \<and> lfs_view d p \<noteq> None})"
proof -
  let ?L = "filter (\<lambda>x. listed_under (abs_path d dir) (fst x)) (lf_files d)"
  let ?S = "{p. listed_under dir p \<and> lfs_view d p \<noteq> None}"
  obtain k where ms: "ms = map (meta_of d) (take k ?L)" "e = None \<longrightarrow> ms = map (meta_of d) ?L"
    using lfs_walk_entries [OF assms] by blast
  have d: "distinct (map fst (lf_files d))" using assms(1) by (simp add: lfs_inv_def)
  have "map om_path (map (meta_of d) ?L) = map (to_logical d) (map fst ?L)"
    by (simp add: meta_of_def)
  moreover have "distinct (map fst ?L)" using d by (simp add: distinct_map_filter)
  moreover have "inj_on (to_logical d) (set (map fst ?L))"
    using inv_keys [OF assms(1)] by (intro inj_onI) (auto, metis)
  ultimately have "distinct (map om_path (map (meta_of d) ?L))" by (simp only: distinct_map)
  then have "distinct (map om_path ms)" by (simp add: ms(1) take_map [symmetric] del: map_map)
  moreover have sub: "om_path (meta_of d x) \<in> ?S" if "x \<in> set ?L" for x
  proof -
    obtain k n where x: "x = (k, n)" by (cases x)
    then have k: "x = (k, n)" "(k, n) \<in> set (lf_files d)" "listed_under (abs_path d dir) k" using that by simp_all
    then have e: "k = abs_path d (to_logical d k)" using inv_keys [OF assms(1)] by simp
    then have l: "listed_under dir (to_logical d k)" using k(3) listed_under_abs by metis
    have "map_of (lf_files d) (abs_path d (to_logical d k)) = Some n" using k(2) d e by simp
    then show ?thesis using l k(1) listed_not_temp [OF l] by (simp add: lookup_view meta_of_def)
  qed
  then have "om_path ` set ms \<subseteq> ?S" using ms(1) by (auto dest!: in_set_takeD)
  moreover have "?S \<subseteq> om_path ` set ms" if "e = None"
  proof
    fix p assume p: "p \<in> ?S"
    then obtain n where "map_of (lf_files d) (abs_path d p) = Some n"
      using listed_not_temp [of dir p] by (auto simp: lookup_view)
    then have "(abs_path d p, n) \<in> set ?L"
      using p by (auto simp: listed_under_abs dest: map_of_SomeD)
    then have "meta_of d (abs_path d p, n) \<in> set ms" using ms(2) that by simp
    moreover have "p = om_path (meta_of d (abs_path d p, n))"
      by (simp add: meta_of_def to_logical_def abs_path_def)
    ultimately show "p \<in> om_path ` set ms" by (rule rev_image_eqI)
  qed
  ultimately show ?thesis by blast
qed

subsection \<open>The invariant\<close>

definition keys_ok :: "path \<Rightarrow> (path \<times> file_node) list \<Rightarrow> bool" where
  "keys_ok root fs = (distinct (map fst fs) \<and> (\<forall>k \<in> fst ` set fs. has_prefix k (root @ ''/'')))"

lemma lfs_inv_keys: "lfs_inv d \<longleftrightarrow> lf_root d \<noteq> ''/'' \<and> keys_ok (lf_root d) (lf_files d)"
  by (auto simp: lfs_inv_def keys_ok_def)

lemma keys_ok_update [simp]:
  "keys_ok root fs \<Longrightarrow> has_prefix k (root @ ''/'') \<Longrightarrow> keys_ok root (AList.update k n fs)"
  by (simp add: keys_ok_def distinct_update dom_update)

lemma keys_ok_delete [simp]: "keys_ok root fs \<Longrightarrow> keys_ok root (AList.delete k fs)"
  using dom_delete_subset [of k fs] distinct_delete [of fs k] unfolding keys_ok_def by blast

lemma keys_ok_rename:
  "keys_ok root fs \<Longrightarrow> has_prefix t (root @ ''/'') \<Longrightarrow> rename_node s t fs = Some fs' \<Longrightarrow> keys_ok root fs'"
  by (auto simp: rename_node_def split: option.splits if_splits)

lemma resolve_under:
  "lf_root d \<noteq> ''/'' \<Longrightarrow> resolve d p = Inr full \<Longrightarrow> has_prefix full (lf_root d @ ''/'')"
  by (auto simp: resolve_def join_root_def Let_def split: if_splits)

lemma has_prefix_trans: "has_prefix s p \<Longrightarrow> has_prefix (s @ t) p"
  by (auto simp: has_prefix_conv)

lemma drop_temp_keys [simp]: "keys_ok root (lf_files d) \<Longrightarrow> keys_ok root (lf_files (drop_temp d tmp))"
  by (auto simp: drop_temp_def split: option.splits)

lemma commit_temp_keys:
  "keys_ok root (lf_files d) \<Longrightarrow> has_prefix full (root @ ''/'') \<Longrightarrow>
     keys_ok root (lf_files (snd (commit_temp d tmp full n x)))"
  by (auto simp: commit_temp_def Let_def split: option.splits)

lemma put_body_keys:
  "keys_ok root (lf_files d) \<Longrightarrow> has_prefix full (root @ ''/'') \<Longrightarrow>
     keys_ok root (lf_files (snd (put_body d full r x)))"
  using temp_path_under [of full root d]
  by (auto simp: put_body_def create_temp_file_def Let_def commit_temp_keys split: option.splits sum.splits)

lemma lfs_inv_tick [simp]: "lfs_inv (tick d) = lfs_inv d"
  by (simp add: lfs_inv_keys)

lemma lfs_inv_put:
  assumes "lfs_inv d"
  shows "lfs_inv (snd (lfs_put d p r x))"
proof -
  have "lfs_inv (snd (put_body d full r x))" if "resolve d p = Inr full" for full
    using assms resolve_under [of d p full] put_body_keys [of "lf_root d" d full r x] that
    by (simp add: lfs_inv_keys)
  then show ?thesis
    using assms by (auto simp: lfs_put_def split: option.splits sum.splits prod.splits)
qed

lemma lfs_inv_remove: "lfs_inv d \<Longrightarrow> lfs_inv (snd (lfs_remove d p))"
  by (auto simp: lfs_inv_keys lfs_remove_def split: option.splits sum.splits)

lemma lfs_inv_set: "lfs_inv d \<Longrightarrow> keys_ok (lf_root d) fs \<Longrightarrow> lfs_inv (set_files d fs)"
  by (simp add: lfs_inv_keys)

lemma lfs_inv_rename_node:
  "lfs_inv d \<Longrightarrow> has_prefix t (lf_root d @ ''/'') \<Longrightarrow> rename_node s t (lf_files d) = Some fs \<Longrightarrow>
     lfs_inv (set_files d fs)"
  by (rule lfs_inv_set) (auto simp: lfs_inv_keys elim: keys_ok_rename)

lemma lfs_inv_rename: "lfs_inv d \<Longrightarrow> lfs_inv (snd (lfs_rename d p q))"
  using resolve_under [of d q] lfs_inv_rename_node [of d]
  by (auto simp: lfs_inv_def [of d] lfs_rename_def split: option.splits sum.splits)

lemma lfs_inv_mark:
  assumes "lfs_inv d"
  shows "lfs_inv (snd (lfs_mark_tombstone d p))"
proof -
  have r: "lf_root d \<noteq> ''/''" "keys_ok (lf_root d) (lf_files d)" using assms by (simp_all add: lfs_inv_keys)
  have u: "has_prefix (full @ tombstone_suffix) (lf_root d @ ''/'')" if "resolve d p = Inr full" for full
    using resolve_under [OF r(1) that] by (rule has_prefix_trans)
  show ?thesis
    using assms u lfs_inv_rename_node [OF assms u] r
    by (auto simp: lfs_mark_tombstone_def Let_def lfs_inv_set split: option.splits sum.splits)
qed

lemma lfs_inv_unmark: "lfs_inv d \<Longrightarrow> lfs_inv (snd (lfs_remove_tombstone d p))"
  by (auto simp: lfs_inv_keys lfs_remove_tombstone_def split: option.splits sum.splits)

interpretation lfs: driver_laws localfs_driver lfs_view clean_path lfs_inv
proof
  fix d p r x u d'
  assume a: "lfs_inv d" "clean_path p" "d_put localfs_driver d p r x = (Inr u, d')"
  then show "snd r = None \<and> lfs_view d' = (lfs_view d)(p \<mapsto> fst r) \<and> (x \<longrightarrow> lfs_view d p = None)"
    using lfs_put_view [of d p r x "Inr u" d'] by (auto simp: lfs_inv_def)
next
  fix d p r x e d'
  assume a: "lfs_inv d" "clean_path p" "d_put localfs_driver d p r x = (Inl e, d')"
  then show "lfs_view d' = lfs_view d \<or>
      snd r = None \<and> lfs_view d' = (lfs_view d)(p \<mapsto> fst r) \<and> (x \<longrightarrow> lfs_view d p = None)"
    using lfs_put_view [of d p r x "Inl e" d'] by (auto simp: lfs_inv_def)
next
  fix d p r x d'
  assume a: "lfs_inv d" "clean_path p" "snd r = None" "d_put localfs_driver d p r x = (Inl ErrAlreadyExists, d')"
  then show "x \<and> lfs_view d p \<noteq> None \<and> lfs_view d' = lfs_view d"
    using lfs_put_view [of d p r x "Inl ErrAlreadyExists" d'] by (auto simp: lfs_inv_def)
next
  fix d p b
  assume "lfs_inv d" "clean_path p" "d_get localfs_driver d p = Inr b"
  then show "lfs_view d p = Some b"
    using lfs_get_cases [of d p] by (auto simp: lfs_inv_def split: option.splits)
next
  fix d p
  assume "lfs_inv d" "clean_path p" "d_get localfs_driver d p = Inl ErrNotExist"
  then show "lfs_view d p = None"
    using lfs_get_cases [of d p] by (auto simp: lfs_inv_def split: option.splits)
next
  fix d p u d'
  assume "lfs_inv d" "clean_path p" "d_remove localfs_driver d p = (Inr u, d')"
  then show "lfs_view d' = (lfs_view d)(p := None)"
    using lfs_remove_cases [of d p] by (auto simp: lfs_inv_def)
next
  fix d p e d'
  assume "lfs_inv d" "clean_path p" "d_remove localfs_driver d p = (Inl e, d')"
  then show "lfs_view d' = lfs_view d"
    using lfs_remove_cases [of d p] by (auto simp: lfs_inv_def)
next
  fix d p q u d'
  assume "lfs_inv d" "clean_path p" "clean_path q" "p \<noteq> q" "d_rename localfs_driver d p q = (Inr u, d')"
  then show "\<exists>b. lfs_view d p = Some b \<and> lfs_view d' = (lfs_view d)(p := None, q \<mapsto> b)"
    using lfs_rename_cases [of d p q] by (auto simp: lfs_inv_def)
next
  fix d p q e d'
  assume "lfs_inv d" "clean_path p" "clean_path q" "d_rename localfs_driver d p q = (Inl e, d')"
  then show "lfs_view d' = lfs_view d"
    using lfs_rename_cases [of d p q]
    by (cases "p = q") (auto simp: lfs_inv_def lfs_rename_def split: option.splits sum.splits)
next
  fix d p u d'
  assume "lfs_inv d" "clean_path p" "d_mark_tombstone localfs_driver d p = (Inr u, d')"
  then show "lfs_view d' = mark_view p (lfs_view d)"
    using lfs_mark_cases [of d p] by (auto simp: lfs_inv_def)
next
  fix d p e d'
  assume "lfs_inv d" "clean_path p" "d_mark_tombstone localfs_driver d p = (Inl e, d')"
  then show "lfs_view d' = lfs_view d"
    using lfs_mark_cases [of d p] by (auto simp: lfs_inv_def)
next
  fix d p m t
  assume "lfs_inv d" "clean_path p" "d_tombstone_info localfs_driver d p = Inr (m, t)"
  then show "m = (lfs_view d (tombstone_of p) \<noteq> None)"
    using lfs_info_cases [of d p] clean_path_not_temp [of p]
    by (auto simp: lfs_inv_def lookup_view split: option.splits)
next
  fix d p u d'
  assume "lfs_inv d" "clean_path p" "d_remove_tombstone localfs_driver d p = (Inr u, d')"
  then show "lfs_view d' = (lfs_view d)(tombstone_of p := None)"
    using lfs_unmark_cases [of d p] by (auto simp: lfs_inv_def)
next
  fix d p e d'
  assume "lfs_inv d" "clean_path p" "d_remove_tombstone localfs_driver d p = (Inl e, d')"
  then show "lfs_view d' = lfs_view d"
    using lfs_unmark_cases [of d p] by (auto simp: lfs_inv_def)
next
  fix d dir ms e
  assume "lfs_inv d" "clean_path dir" "lfs_view d dir = None" "d_walk localfs_driver d dir 0 = (ms, e)"
  then show "distinct (map om_path ms) \<and> om_path ` set ms \<subseteq> {p. listed_under dir p \<and> lfs_view d p \<noteq> None} \<and>
      (e = None \<longrightarrow> om_path ` set ms = {p. listed_under dir p \<and> lfs_view d p \<noteq> None})"
    using lfs_list_ok by simp
qed (simp_all add: lfs_inv_put lfs_inv_remove lfs_inv_rename lfs_inv_mark lfs_inv_unmark)

subsection \<open>A medium that does not fail\<close>

definition lfs_rel :: "localfs \<Rightarrow> bool" where
  "lfs_rel d = (lfs_inv d \<and> (\<forall>n c. lf_fault d n c = None)
     \<and> (\<forall>k \<in> fst ` set (lf_files d). \<not> is_temp (base_name k)))"

definition no_temps :: "(path \<times> file_node) list \<Rightarrow> bool" where
  "no_temps fs = (\<forall>k \<in> fst ` set fs. \<not> is_temp (base_name k))"

lemma no_temps_update [simp]:
  "no_temps fs \<Longrightarrow> \<not> is_temp (base_name k) \<Longrightarrow> no_temps (AList.update k n fs)"
  by (simp add: no_temps_def dom_update)

lemma no_temps_delete [simp]: "no_temps fs \<Longrightarrow> no_temps (AList.delete k fs)"
  using dom_delete_subset [of k fs] unfolding no_temps_def by blast

lemma delete_fresh: "k \<notin> fst ` set fs \<Longrightarrow> AList.delete k (AList.update k n fs) = fs"
  by (simp add: delete_update_same)

lemma lfs_rel_inv: "lfs_rel d \<Longrightarrow> lfs_inv d"
  by (simp add: lfs_rel_def)

lemma lfs_rel_sys: "lfs_rel d \<Longrightarrow> sys d c = None"
  by (simp add: lfs_rel_def sys_def)

lemma lfs_rel_conv: "lfs_rel d \<longleftrightarrow> lfs_inv d \<and> (\<forall>n c. lf_fault d n c = None) \<and> no_temps (lf_files d)"
  by (simp add: lfs_rel_def no_temps_def)

text \<open>On such a medium the write path reduces to a table update.\<close>

lemma lfs_put_rel:
  assumes d: "lfs_rel d" and p: "clean_path p"
  shows "lfs_put d p r x = (case snd r of
       Some e \<Rightarrow> (Inl e, tick d)
     | None \<Rightarrow> if x \<and> lfs_view d p \<noteq> None then (Inl ErrAlreadyExists, tick d)
         else (Inr (), tick (set_files d (AList.update (abs_path d p)
                \<lparr> f_content = fst r, f_mtime = lf_now d \<rparr> (lf_files d)))))"
proof -
  let ?k = "abs_path d p" and ?t = "temp_path d (abs_path d p)"
  have root: "lf_root d \<noteq> ''/''" using d by (simp add: lfs_rel_conv lfs_inv_def)
  have s: "sys d c = None" for c using lfs_rel_sys [OF d] .
  have nt: "\<not> is_temp (base_name ?k)" using clean_path_not_temp [OF p] by simp
  have t: "?t \<notin> fst ` set (lf_files d)"
    using d is_temp_temp_path [of d ?k] unfolding lfs_rel_def by blast
  then have tn: "map_of (lf_files d) ?t = None" by (simp add: map_of_eq_None_iff)
  have kt: "?k \<noteq> ?t" using nt is_temp_temp_path [of d ?k] by metis
  have ex: "map_of (AList.update ?t n (lf_files d)) ?k = map_of (lf_files d) ?k" for n
    using kt by simp
  have vw: "lfs_view d p \<noteq> None \<longleftrightarrow> map_of (lf_files d) ?k \<noteq> None"
    using nt by (simp add: lfs_view_def)
  have del: "AList.delete ?t (AList.update ?k m (AList.update ?t n (lf_files d)))
      = AList.update ?k m (lf_files d)" for m n
    using kt t by (simp add: delete_update delete_fresh)
  show ?thesis
    using s root p tn vw
    by (auto simp: lfs_put_def resolve_clean put_body_def create_temp_file_def Let_def drop_temp_def
        delete_fresh [OF t] commit_temp_def ex del fsync_parent_def set_files_def [of d "lf_files d"]
        simp del: map_of_update split: option.splits)
qed

lemma lfs_rel_tick [simp]: "lfs_rel (tick d) = lfs_rel d"
  by (simp add: lfs_rel_def)

lemma lfs_rel_set:
  "lfs_rel d \<Longrightarrow> keys_ok (lf_root d) fs \<Longrightarrow> no_temps fs \<Longrightarrow> lfs_rel (set_files d fs)"
  by (simp add: lfs_rel_conv lfs_inv_set)

lemma abs_under [simp]: "has_prefix (abs_path d p) (lf_root d @ ''/'')"
  by (simp add: abs_path_def has_prefix_conv)

lemma lfs_rel_keys: "lfs_rel d \<Longrightarrow> keys_ok (lf_root d) (lf_files d) \<and> no_temps (lf_files d) \<and> lf_root d \<noteq> ''/''"
  by (simp add: lfs_rel_conv lfs_inv_keys)

lemma lfs_rel_rename_node:
  assumes "lfs_rel d" "\<not> is_temp (base_name q)" "rename_node s (abs_path d q) (lf_files d) = Some fs"
  shows "lfs_rel (set_files d fs)"
  using assms lfs_rel_keys [OF assms(1)]
  by (auto simp: rename_node_def intro!: lfs_rel_set split: option.splits if_splits)

lemma lfs_rel_put: "lfs_rel d \<Longrightarrow> clean_path p \<Longrightarrow> lfs_rel (snd (lfs_put d p r x))"
  using lfs_rel_keys [of d] clean_path_not_temp [of p]
  by (auto simp: lfs_put_rel intro!: lfs_rel_set split: option.splits)

lemma lfs_rel_remove: "lfs_rel d \<Longrightarrow> clean_path p \<Longrightarrow> lfs_rel (snd (lfs_remove d p))"
  using lfs_rel_keys [of d] by (auto simp: lfs_remove_def intro!: lfs_rel_set split: option.splits sum.splits)

lemma lfs_rel_rename: "lfs_rel d \<Longrightarrow> clean_path p \<Longrightarrow> clean_path q \<Longrightarrow> lfs_rel (snd (lfs_rename d p q))"
  using lfs_rel_keys [of d] clean_path_not_temp [of q] lfs_rel_rename_node [of d q]
  by (auto simp: lfs_rename_def resolve_clean split: option.splits sum.splits)

lemma lfs_rel_mark: "lfs_rel d \<Longrightarrow> clean_path p \<Longrightarrow> lfs_rel (snd (lfs_mark_tombstone d p))"
  using lfs_rel_keys [of d] clean_path_not_temp [of p] lfs_rel_rename_node [of d "tombstone_of p"]
  by (auto simp: lfs_mark_tombstone_def resolve_clean tomb_abs Let_def intro!: lfs_rel_set
      split: option.splits sum.splits)

lemma lfs_rel_unmark: "lfs_rel d \<Longrightarrow> clean_path p \<Longrightarrow> lfs_rel (snd (lfs_remove_tombstone d p))"
  using lfs_rel_keys [of d]
  by (auto simp: lfs_remove_tombstone_def intro!: lfs_rel_set split: option.splits sum.splits)

lemma walk_entries_rel: "lfs_rel d \<Longrightarrow> snd (walk_entries d t es) = None"
  by (induction es) (auto simp: lfs_rel_sys split: prod.splits)

lemma lfs_list_rel:
  assumes "lfs_rel d" "clean_path dir"
  shows "snd (lfs_list_objects d dir t) = None"
proof -
  have "resolve_dir d dir = Inr (abs_path d dir)"
    using clean_path_head [OF assms(2)] resolve_clean [OF assms(2)] lfs_rel_keys [OF assms(1)]
    by (auto simp: resolve_dir_def has_prefix_def)
  then show ?thesis
    using lfs_rel_sys [OF assms(1)] walk_entries_rel [OF assms(1)]
    by (auto simp: lfs_list_objects_def split: option.splits)
qed

interpretation rlfs: reliable_driver localfs_driver lfs_view clean_path lfs_inv lfs_rel
proof
  fix d p x and r :: reader
  assume "lfs_rel d" "clean_path p" "snd r = None" "\<not> x \<or> lfs_view d p = None"
  then show "fst (d_put localfs_driver d p r x) = Inr ()" by (auto simp: lfs_put_rel)
next
  fix d p and r :: reader
  assume "lfs_rel d" "clean_path p" "snd r = None" "lfs_view d p \<noteq> None"
  then show "fst (d_put localfs_driver d p r True) = Inl ErrAlreadyExists" by (auto simp: lfs_put_rel)
next
  fix d p
  assume a: "lfs_rel d" "clean_path p"
  then show "d_get localfs_driver d p = (case lfs_view d p of None \<Rightarrow> Inl ErrNotExist | Some b \<Rightarrow> Inr b)"
    using lfs_get_cases [of d p] lfs_rel_sys [OF a(1)] lfs_rel_keys [OF a(1)] by auto
next
  fix d p
  assume a: "lfs_rel d" "clean_path p"
  then show "fst (d_remove localfs_driver d p) = Inr ()"
    using lfs_remove_cases [of d p] lfs_rel_sys [OF a(1)] lfs_rel_keys [OF a(1)] by auto
next
  fix d p q b
  assume a: "lfs_rel d" "clean_path p" "clean_path q" "lfs_view d p = Some b"
  then show "fst (d_rename localfs_driver d p q) = Inr ()"
    using lfs_rel_sys [OF a(1)] lfs_rel_keys [OF a(1)] clean_path_not_temp [OF a(2)]
    by (auto simp: lfs_rename_def resolve_clean rename_node_def lookup_view split: option.splits)
qed (simp_all add: lfs_rel_inv lfs_rel_put lfs_rel_remove lfs_rel_rename lfs_rel_mark lfs_rel_unmark
    lfs_list_rel)

subsection \<open>Properties\<close>

text \<open>The marker a rename leaves behind carries the modification time of the renamed file.\<close>

lemma tombstone_info_after_mark:
  assumes "lfs_rel d" "clean_path p" "map_of (lf_files d) (abs_path d p) = Some n"
    "map_of (lf_files d) (abs_path d (tombstone_of p)) = None"
  shows "fst (lfs_mark_tombstone d p) = Inr ()"
    "lfs_tombstone_info (snd (lfs_mark_tombstone d p)) p = Inr (True, f_mtime n)"
proof -
  have r: "lf_root d \<noteq> ''/''" using lfs_rel_keys [OF assms(1)] by simp
  have s: "sys d c = None" for c using lfs_rel_sys [OF assms(1)] .
  have k: "abs_path d p \<noteq> abs_path d (tombstone_of p)" by simp
  let ?fs = "AList.update (abs_path d (tombstone_of p)) n (AList.delete (abs_path d p) (lf_files d))"
  have m: "lfs_mark_tombstone d p = (Inr (), tick (set_files d ?fs))"
    using assms(2-4) r s k
    by (simp add: lfs_mark_tombstone_def resolve_clean tomb_abs file_exists_def Let_def rename_node_def)
  have "sys (tick (set_files d ?fs)) c = None" for c
    using assms(1) by (simp add: sys_def lfs_rel_def)
  then show "fst (lfs_mark_tombstone d p) = Inr ()"
    "lfs_tombstone_info (snd (lfs_mark_tombstone d p)) p = Inr (True, f_mtime n)"
    using m r assms(2) by (simp_all add: lfs_tombstone_info_def resolve_clean abs_path_def tombstone_of_def)
qed

lemma clean_elems_shape:
  assumes "\<forall>e \<in> set es. CHR ''/'' \<notin> set e"
    and "acc = g @ replicate k ''..''" "\<forall>e \<in> set g. e \<noteq> [] \<and> e \<noteq> ''.'' \<and> e \<noteq> ''..'' \<and> CHR ''/'' \<notin> set e"
  shows "\<exists>j g'. clean_elems acc es = replicate j ''..'' @ g'
     \<and> (\<forall>e \<in> set g'. e \<noteq> [] \<and> e \<noteq> ''.'' \<and> e \<noteq> ''..'' \<and> CHR ''/'' \<notin> set e)"
  using assms
proof (induction acc es arbitrary: g k rule: clean_elems.induct)
  case (1 acc)
  then show ?case by (metis clean_elems.simps(1) rev_append rev_replicate set_rev)
next
  case (2 acc e es)
  consider (skip) "e = [] \<or> e = ''.''" | (up_top) "e = ''..''" "acc = []"
    | (up_dots) r where "e = ''..''" "acc = ''..'' # r" | (up_pop) a r where "e = ''..''" "acc = a # r" "a \<noteq> ''..''"
    | (push) "e \<noteq> []" "e \<noteq> ''.''" "e \<noteq> ''..''"
    by (cases acc) auto
  then show ?case
  proof cases
    case skip
    then show ?thesis using "2.IH"(1) [OF skip] "2.prems" by auto
  next
    case up_top
    have "[''..''] = [] @ replicate 1 ''..''" by simp
    then show ?thesis using "2.IH"(2) [of "[]" 1] "2.prems"(1) up_top by auto
  next
    case up_dots
    then have "g = []" "k > 0" using "2.prems"(2,3) by (cases g; cases k; auto)+
    then have "''..'' # acc = [] @ replicate (Suc k) ''..''" using "2.prems"(2) by simp
    moreover have "clean_elems acc (e # es) = clean_elems (''..'' # acc) es" using up_dots by simp
    ultimately show ?thesis using "2.IH"(3) [of "''..''" r "[]" "Suc k"] "2.prems"(1) up_dots by simp
  next
    case up_pop
    then obtain g2 where "g = a # g2" using "2.prems"(2) by (cases g; cases k) auto
    then show ?thesis using "2.IH"(4) [of a r g2 k] "2.prems" up_pop by auto
  next
    case push
    have "e # acc = (e # g) @ replicate k ''..''" using "2.prems"(2) by simp
    then show ?thesis using "2.IH"(5) [of "e # g" k] "2.prems" push by auto
  qed
qed

lemma clean_shape:
  obtains j g where "clean p = (if replicate j ''..'' @ g = [] then ''.'' else join CHR ''/'' (replicate j ''..'' @ g))"
    "\<forall>e \<in> set g. e \<noteq> [] \<and> e \<noteq> ''.'' \<and> e \<noteq> ''..'' \<and> CHR ''/'' \<notin> set e"
proof -
  have "\<forall>e \<in> set (split_on CHR ''/'' p). CHR ''/'' \<notin> set e" using split_on_elem by blast
  then obtain j g where "clean_elems [] (split_on CHR ''/'' p) = replicate j ''..'' @ g"
      "\<forall>e \<in> set g. e \<noteq> [] \<and> e \<noteq> ''.'' \<and> e \<noteq> ''..'' \<and> CHR ''/'' \<notin> set e"
    using clean_elems_shape [of "split_on CHR ''/'' p" "[]" "[]" 0] by auto
  then show thesis
    using that [of j g] by (simp add: clean_def split: list.splits)
qed

text \<open>C24: no argument escapes the driver root.  For any path whatsoever, when \<^verbatim>\<open>resolve\<close> accepts it the
  result is the root followed by a non-empty sequence of ordinary path elements: no \<^verbatim>\<open>..\<close>, no \<^verbatim>\<open>.\<close>, no
  empty element.\<close>

theorem resolve_confined:
  assumes "resolve d p = Inr full" and "lf_root d \<noteq> ''/''"
  shows "\<exists>es. es \<noteq> [] \<and> full = lf_root d @ ''/'' @ join CHR ''/'' es
    \<and> (\<forall>e \<in> set es. e \<noteq> [] \<and> e \<noteq> ''.'' \<and> e \<noteq> ''..'' \<and> CHR ''/'' \<notin> set e)"
proof -
  obtain j g where c: "clean p = (if replicate j ''..'' @ g = [] then ''.''
        else join CHR ''/'' (replicate j ''..'' @ g))"
      "\<forall>e \<in> set g. e \<noteq> [] \<and> e \<noteq> ''.'' \<and> e \<noteq> ''..'' \<and> CHR ''/'' \<notin> set e"
    by (rule clean_shape)
  have r: "clean p \<noteq> ''.''" "clean p \<noteq> ''..''" "\<not> has_prefix (clean p) ''../''"
      "full = lf_root d @ ''/'' @ clean p"
    using assms by (auto simp: resolve_def join_root_def Let_def split: if_splits)
  have "j = 0"
  proof (cases j)
    case (Suc i)
    then show ?thesis
      using c(1) r by (cases "replicate i ''..'' @ g") (auto simp: has_prefix_conv)
  qed simp
  then have "g \<noteq> []" "clean p = join CHR ''/'' g"
    using c(1) r(1) by (simp_all split: if_splits)
  then show ?thesis
    using c(2) r(4) by metis
qed

definition sample_fs :: localfs where
  "sample_fs = \<lparr> lf_root = ''/data'', lf_fsync = True, lf_files = [], lf_tick = 0,
     lf_fault = (\<lambda>_ _. None), lf_clock = (\<lambda>n. n + 1), lf_nonce = (\<lambda>_. ''nnnnnnnn'') \<rparr>"

theorem resolve_confined_witness:
  "\<exists>es. es \<noteq> [] \<and> ''/data/a/c'' = lf_root sample_fs @ ''/'' @ join CHR ''/'' es
    \<and> (\<forall>e \<in> set es. e \<noteq> [] \<and> e \<noteq> ''.'' \<and> e \<noteq> ''..'' \<and> CHR ''/'' \<notin> set e)"
proof -
  have "resolve sample_fs ''a/./b/../c'' = Inr ''/data/a/c''" "lf_root sample_fs \<noteq> ''/''"
    by code_simp+
  then show ?thesis by (rule resolve_confined)
qed

text \<open>C15: a write through the driver is atomic, whatever system calls fail.  The visible files are either
  as before or differ exactly by the new content of the path; success means the content is there; an
  exclusive write never replaces an existing file and reports \<^verbatim>\<open>ErrAlreadyExists\<close> only when one is
  there; and the state invariant is kept.\<close>

theorem lfs_put_atomic:
  assumes "lfs_inv d" and "clean_path p" and "lfs_put d p r x = (res, d')"
  shows "(lfs_view d' = lfs_view d \<or> (snd r = None \<and> lfs_view d' = (lfs_view d)(p \<mapsto> fst r)))
    \<and> (res = Inr () \<longrightarrow> lfs_view d' p = Some (fst r))
    \<and> (x \<and> lfs_view d p \<noteq> None \<longrightarrow> lfs_view d' = lfs_view d \<and> res \<noteq> Inr ())
    \<and> (res = Inl ErrAlreadyExists \<and> snd r = None \<longrightarrow> x \<and> lfs_view d p \<noteq> None)
    \<and> lfs_inv d'"
  using assms lfs_put_view [of d p r x res d'] lfs_inv_put [OF assms(1), of p r x]
  by (auto simp: lfs_inv_def)

definition sample_bad_fsync :: localfs where
  "sample_bad_fsync = sample_fs \<lparr> lf_fault := (\<lambda>_ c. case c of SFsyncDir _ \<Rightarrow> Some (FIO ''EIO'') | _ \<Rightarrow> None) \<rparr>"

theorem lfs_put_atomic_witness:
  "case lfs_put sample_bad_fsync ''blobs/ab'' (''xy'', None) True of (res, d') \<Rightarrow>
     res = Inl (ErrMsg ''EIO'') \<and> lfs_inv d'
     \<and> (lfs_view d' = lfs_view sample_bad_fsync
        \<or> lfs_view d' = (lfs_view sample_bad_fsync)(''blobs/ab'' \<mapsto> ''xy''))"
proof -
  have p: "lfs_inv sample_bad_fsync" "clean_path ''blobs/ab''"
    "fst (lfs_put sample_bad_fsync ''blobs/ab'' (''xy'', None) True) = Inl (ErrMsg ''EIO'')"
    by (simp add: sample_bad_fsync_def sample_fs_def lfs_inv_def, code_simp,
      simp add: sample_bad_fsync_def sample_fs_def lfs_put_def sys_def resolve_def clean_def
        has_prefix_def join_root_def put_body_def create_temp_file_def Let_def commit_temp_def
        fsync_parent_def fault_err_def fsync_soft_def set_files_def drop_temp_def temp_path_def
        dir_name_def base_name_def cut_last_def)
  then show ?thesis
    using lfs_put_atomic [OF p(1,2) prod.collapse [symmetric], of "(''xy'', None)" True]
    by (auto split: prod.splits)
qed

end
