(* ===== verification/Domain.thy ===== *)
theory Domain
  imports Prelude
begin

text \<open>
  The value types of \<^verbatim>\<open>domain/\<close>: the manifest and its identity slots, the pipeline stages and the
  crypto identity derived from them, blob types, physical addresses, store states and maintenance
  modes, and the classification of a recorded store identifier.
\<close>

datatype blob_type = BlobTypeUnset | BlobTypeRegular | BlobTypePack | BlobTypeChunk
  | BlobTypeOther string

text \<open>The values of \<^verbatim>\<open>LayoutHeader.BlobStorage\<close>, a string the code compares with two constants.\<close>

definition layout_inline :: string where "layout_inline = ''Inline''"
definition layout_target :: string where "layout_target = ''Target''"

record pipeline_stage =
  ps_algorithm :: string
  ps_hash :: string
  ps_iv :: bytes
  ps_key_id :: string

record manifest =
  artifact_id :: string
  name :: string
  digest :: string
  identity_meta_hash :: string
  identity_nonce :: bytes
  session_id :: string
  created_at :: time
  content_hash :: string
  original_size :: int
  hash_algo :: string
  blob_refs :: "string list"
  handle_refs :: "string list"
  blob_storage :: string
  pipeline :: "pipeline_stage list"
  inline_blob :: bytes
  retention_until :: time
  key_id :: string
  ext :: bytes
  usr :: bytes

definition is_user :: "manifest \<Rightarrow> bool" where
  "is_user m = (artifact_id m \<noteq> [])"

definition is_system :: "manifest \<Rightarrow> bool" where
  "is_system m = (name m \<noteq> [])"

definition is_container :: "manifest \<Rightarrow> bool" where
  "is_container m = (artifact_id m = [] \<and> name m = [])"

definition primary_blob_ref :: "manifest \<Rightarrow> string" where
  "primary_blob_ref m = (case blob_refs m of r # _ \<Rightarrow> r | [] \<Rightarrow> [])"

definition max_session_id_len :: nat where "max_session_id_len = 255"
definition max_key_id_length :: nat where "max_key_id_length = 255"
definition max_ext_size :: nat where "max_ext_size = 64 * 1024"
definition max_usr_size :: nat where "max_usr_size = 64 * 1024"
definition max_blob_refs :: nat where "max_blob_refs = 65535"
definition max_handle_refs :: nat where "max_handle_refs = 65535"
definition max_manifest_size :: nat where "max_manifest_size = 32 * 1024 * 1024"

lemma layout_neq [simp]: "layout_inline \<noteq> layout_target" "layout_target \<noteq> layout_inline"
  by (simp_all add: layout_inline_def layout_target_def)

lemmas limit_defs = max_session_id_len_def max_key_id_length_def max_ext_size_def
  max_usr_size_def max_blob_refs_def max_handle_refs_def max_manifest_size_def

text \<open>\<^verbatim>\<open>domain.StagingPrefix\<close>.\<close>

definition staging_prefix :: string where
  "staging_prefix = ''.staging''"

text \<open>The key of blob deduplication and its crypto component.\<close>

definition is_crypto_algorithm :: "string \<Rightarrow> bool" where
  "is_crypto_algorithm a = (to_lower a = ''aes-gcm'' \<or> to_lower a = ''chacha20-poly1305'')"

definition crypto_identity_of :: "pipeline_stage list \<Rightarrow> string" where
  "crypto_identity_of stages = foldl (\<lambda>i s. if is_crypto_algorithm (ps_algorithm s)
       then ps_algorithm s @ ''/'' @ ps_key_id s else i) [] stages"

record blob_dedup_key =
  dk_content_hash :: string
  dk_original_size :: int
  dk_crypto_identity :: string

definition blob_dedup_key_of :: "string \<Rightarrow> int \<Rightarrow> pipeline_stage list \<Rightarrow> blob_dedup_key" where
  "blob_dedup_key_of h n stages =
     \<lparr> dk_content_hash = h, dk_original_size = n, dk_crypto_identity = crypto_identity_of stages \<rparr>"

record physical_address =
  pa_workspace :: string
  pa_path :: path
  pa_offset :: nat
  pa_size :: nat

datatype store_state = Bootstrapping | SLocked | Unlocked | Degraded | Corrupted

datatype maintenance_mode = MaintenanceNone | MaintenanceReadOnly | MaintenanceOffline

datatype store_ownership = OwnershipUnknown | OwnershipOwn | OwnershipForeign

definition classify_store_ownership :: "string \<Rightarrow> string \<Rightarrow> store_ownership" where
  "classify_store_ownership recorded authoritative =
     (if recorded = [] \<or> authoritative = [] then OwnershipUnknown
      else if recorded = authoritative then OwnershipOwn
      else OwnershipForeign)"

lemma foreign_iff:
  "classify_store_ownership r a = OwnershipForeign \<longleftrightarrow> r \<noteq> [] \<and> a \<noteq> [] \<and> r \<noteq> a"
  by (auto simp: classify_store_ownership_def)

lemma crypto_identity_snoc [simp]:
  "crypto_identity_of (ss @ [s]) = (if is_crypto_algorithm (ps_algorithm s)
     then ps_algorithm s @ ''/'' @ ps_key_id s else crypto_identity_of ss)"
  by (simp add: crypto_identity_of_def)

lemma crypto_identity_empty_iff:
  "crypto_identity_of ss = [] \<longleftrightarrow> (\<forall>s \<in> set ss. \<not> is_crypto_algorithm (ps_algorithm s))"
proof (induction ss rule: rev_induct)
  case (snoc s ss)
  then show ?case by auto
qed (simp add: crypto_identity_of_def)

text \<open>Exactly one of the three manifest kinds holds unless both slots are filled, which
  \<^verbatim>\<open>validateSlot\<close> refuses.\<close>

lemma manifest_kinds:
  "\<not> (is_user m \<and> is_system m) \<Longrightarrow>
     (is_user m \<and> \<not> is_system m \<and> \<not> is_container m) \<or>
     (\<not> is_user m \<and> is_system m \<and> \<not> is_container m) \<or>
     (\<not> is_user m \<and> \<not> is_system m \<and> is_container m)"
  by (auto simp: is_user_def is_system_def is_container_def)

end
