(* ===== verification/Layout.thy ===== *)
theory Layout
  imports Domain
begin

text \<open>
  \<^verbatim>\<open>engine/layout/layout.go\<close>: the driver path of a blob and of a manifest file, and the way back from
  a listed path to the reference.  \<^verbatim>\<open>config.PathTopology\<close> is a string with two known values and the
  empty default.
\<close>

datatype path_topology = TopologyUnset | TopologyFlat | TopologySharded | TopologyOther string

definition root_for :: "blob_type \<Rightarrow> string res" where
  "root_for t = (case t of
      BlobTypeUnset \<Rightarrow> Inr ''blobs''
    | BlobTypeRegular \<Rightarrow> Inr ''blobs''
    | BlobTypeChunk \<Rightarrow> Inr ''chunks''
    | BlobTypePack \<Rightarrow> Inr ''packs''
    | BlobTypeOther _ \<Rightarrow> Inl (ErrMsg ''unknown blob type''))"

definition shard_of :: "string \<Rightarrow> (string \<times> string) res" where
  "shard_of ref = (let low = to_lower ref in
     if length low < 4 then Inl (ErrMsg ''ref too short to shard'')
     else Inr (take 2 low, take 2 (drop 2 low)))"

definition blob_path :: "path_topology \<Rightarrow> blob_type \<Rightarrow> string \<Rightarrow> path res" where
  "blob_path topology t ref =
     (if ref = [] then Inl (ErrMsg ''empty ref'')
      else case root_for t of
        Inl e \<Rightarrow> Inl e
      | Inr root \<Rightarrow>
          (case topology of
             TopologyFlat \<Rightarrow> Inr (root @ ''/'' @ ref)
           | TopologyOther _ \<Rightarrow> Inl (ErrMsg ''unknown topology'')
           | _ \<Rightarrow>
               (case shard_of ref of
                  Inl e \<Rightarrow> Inl e
                | Inr (s1, s2) \<Rightarrow> Inr (root @ ''/'' @ s1 @ ''/'' @ s2 @ ''/'' @ ref))))"

definition manifest_path :: "string \<Rightarrow> path res" where
  "manifest_path d =
     (if d = [] then Inl (ErrMsg ''empty manifest digest'')
      else case shard_of d of
        Inl e \<Rightarrow> Inl e
      | Inr (s1, s2) \<Rightarrow> Inr (''manifests/'' @ s1 @ ''/'' @ s2 @ ''/'' @ d))"

definition last_segment :: "path \<Rightarrow> string res" where
  "last_segment p =
     (if p = [] then Inl (ErrMsg ''empty path'')
      else case cut_last CHR ''/'' p of
        Some (_, s) \<Rightarrow> Inr s
      | None \<Rightarrow> Inr p)"

definition validate_ref_shape :: "string \<Rightarrow> unit res" where
  "validate_ref_shape s =
     (if length s < 4 then Inl (ErrMsg ''shorter than 4 chars'')
      else if list_all is_lower_hex s then Inr ()
      else Inl (ErrMsg ''non-hex char''))"

definition ref_from_blob_path :: "path \<Rightarrow> string res" where
  "ref_from_blob_path p =
     (case last_segment p of
        Inl e \<Rightarrow> Inl e
      | Inr l \<Rightarrow> (case validate_ref_shape l of Inl e \<Rightarrow> Inl e | Inr _ \<Rightarrow> Inr l))"

definition digest_from_manifest_path :: "path \<Rightarrow> string res" where
  "digest_from_manifest_path p =
     (case last_segment p of
        Inl e \<Rightarrow> Inl e
      | Inr l \<Rightarrow> (case validate_ref_shape l of Inl e \<Rightarrow> Inl e | Inr _ \<Rightarrow> Inr l))"

definition blob_roots :: "string list" where
  "blob_roots = List.map_filter (\<lambda>t. case root_for t of Inl _ \<Rightarrow> None | Inr r \<Rightarrow> Some r)
     [BlobTypeRegular, BlobTypeChunk, BlobTypePack]"

text \<open>A well-shaped reference: what every registered hasher produces (bare lower-case hex of at
  least four digits).\<close>

definition wf_ref :: "string \<Rightarrow> bool" where
  "wf_ref s = (4 \<le> length s \<and> list_all is_lower_hex s)"

lemma wf_ref_hex [intro]: "2 \<le> length b \<Longrightarrow> wf_ref (hex_encode b)"
  using hex_encode_lower by (auto simp: wf_ref_def list_all_iff)

lemma validate_ref_shape_iff: "validate_ref_shape s = Inr () \<longleftrightarrow> wf_ref s"
  by (auto simp: validate_ref_shape_def wf_ref_def)

lemma wf_ref_facts:
  assumes "wf_ref r"
  shows "r \<noteq> []" "CHR ''/'' \<notin> set r" "CHR ''.'' \<notin> set r" "to_lower r = r" "\<not> length r < 4"
  using assms by (auto simp: wf_ref_def list_all_iff)

lemma shard_of_wf: "wf_ref r \<Longrightarrow> shard_of r = Inr (take 2 r, take 2 (drop 2 r))"
  by (simp add: shard_of_def Let_def wf_ref_facts)

lemma blob_path_last_segment:
  assumes "blob_path tp t ref = Inr p" and "CHR ''/'' \<notin> set ref"
  shows "last_segment p = Inr ref"
proof -
  obtain q where "p = q @ CHR ''/'' # ref"
    using assms(1)
    by (auto simp: blob_path_def split: if_splits sum.splits path_topology.splits
        intro: that [of "_ @ _ @ _"])
  then show ?thesis
    using assms(2) by (simp add: last_segment_def)
qed

lemma manifest_path_wf:
  "wf_ref d \<Longrightarrow>
    manifest_path d = Inr (''manifests/'' @ take 2 d @ ''/'' @ take 2 (drop 2 d) @ ''/'' @ d)"
  by (simp add: manifest_path_def shard_of_wf wf_ref_facts)

lemma manifest_path_last_segment:
  "manifest_path d = Inr p \<Longrightarrow> CHR ''/'' \<notin> set d \<Longrightarrow> last_segment p = Inr d"
proof -
  assume a: "manifest_path d = Inr p" "CHR ''/'' \<notin> set d"
  obtain q where "p = q @ CHR ''/'' # d"
    using a(1) by (auto simp: manifest_path_def split: if_splits sum.splits)
  then show ?thesis using a(2) by (simp add: last_segment_def)
qed

lemma digest_from_manifest_path_wf:
  "wf_ref d \<Longrightarrow> manifest_path d = Inr p \<Longrightarrow> digest_from_manifest_path p = Inr d"
  using manifest_path_last_segment [of d p]
  by (simp add: digest_from_manifest_path_def wf_ref_facts validate_ref_shape_iff
      split: sum.splits) (metis validate_ref_shape_iff sum.distinct(1))

lemma ref_from_blob_path_wf:
  "wf_ref r \<Longrightarrow> blob_path tp t r = Inr p \<Longrightarrow> ref_from_blob_path p = Inr r"
  using blob_path_last_segment [of tp t r p]
  by (simp add: ref_from_blob_path_def wf_ref_facts validate_ref_shape_iff
      split: sum.splits) (metis validate_ref_shape_iff sum.distinct(1))

lemma manifest_path_inj:
  "wf_ref d \<Longrightarrow> wf_ref d' \<Longrightarrow> manifest_path d = Inr p \<Longrightarrow> manifest_path d' = Inr p \<Longrightarrow> d = d'"
  by (metis digest_from_manifest_path_wf sum.inject(2))

lemma blob_path_inj:
  "wf_ref r \<Longrightarrow> wf_ref r' \<Longrightarrow> blob_path tp t r = Inr p \<Longrightarrow> blob_path tp t' r' = Inr p \<Longrightarrow> r = r'"
  by (metis ref_from_blob_path_wf sum.inject(2))

lemma blob_roots_eq: "blob_roots = [''blobs'', ''chunks'', ''packs'']"
  by (simp add: blob_roots_def root_for_def List.map_filter_def)

lemma blob_path_root:
  "blob_path tp t r = Inr p \<Longrightarrow> \<exists>root \<in> set blob_roots. \<exists>q. p = root @ ''/'' @ q"
  unfolding blob_roots_eq
  by (auto simp: blob_path_def root_for_def split: if_splits sum.splits path_topology.splits
      blob_type.splits)

lemma blob_manifest_paths_disjoint:
  "blob_path tp t r = Inr p \<Longrightarrow> manifest_path d = Inr p' \<Longrightarrow> p \<noteq> p'"
  by (drule blob_path_root)
     (auto simp: blob_roots_eq manifest_path_def split: if_splits sum.splits)

text \<open>A reference of bare lower-case hex and at least four digits is recovered from the driver path its
  blob is stored at, under every topology and blob type for which the path is defined.  Hence two
  references never share a path, and a blob path is never the path of a manifest.\<close>

theorem blob_path_roundtrip:
  assumes "wf_ref r" and "blob_path tp t r = Inr p"
  shows "ref_from_blob_path p = Inr r
    \<and> (\<forall>r' t'. wf_ref r' \<longrightarrow> blob_path tp t' r' = Inr p \<longrightarrow> r' = r)
    \<and> (\<forall>d. manifest_path d \<noteq> Inr p)"
  using assms ref_from_blob_path_wf blob_path_inj blob_manifest_paths_disjoint by metis

theorem blob_path_roundtrip_witness:
  "ref_from_blob_path ''chunks/00/ff/00ffab'' = Inr ''00ffab''"
proof -
  have "wf_ref ''00ffab''" "blob_path TopologySharded BlobTypeChunk ''00ffab'' =
      Inr ''chunks/00/ff/00ffab''"
    by code_simp+
  then show ?thesis
    using blob_path_roundtrip by blast
qed

end
