(* ===== verification/Named.thy ===== *)
theory Named
  imports Localfs Layout
begin

text \<open>
  System artifacts under the planar root \<^verbatim>\<open>named/\<close> (\<^verbatim>\<open>engine/internal/named\<close>): the name contract, the
  versioned files \<^verbatim>\<open>named/<name>.<seq>\<close> and the cells \<^verbatim>\<open>named/<name>.cell\<close>.  Every operation takes the
  driver as a parameter; the lemmas are proved in the driver locales.  A cancelled context shows as
  the failure of the next driver call.
\<close>

definition root_slash :: string where "root_slash = ''named/''"
definition named_root :: string where "named_root = ''named''"
definition cell_leaf :: string where "cell_leaf = ''cell''"
definition seq_width :: nat where "seq_width = 10"
definition max_claim_attempts :: nat where "max_claim_attempts = 64"

definition validate_name :: "string \<Rightarrow> unit res" where
  "validate_name n =
     (if n = [] then Inl ErrInvalidSystemName
      else if hd n = CHR ''/'' \<or> last n = CHR ''/'' then Inl ErrInvalidSystemName
      else if contains n ''//'' then Inl ErrInvalidSystemName
      else if \<exists>s \<in> set (split_on CHR ''/'' n). s = ''.'' \<or> s = ''..'' then Inl ErrInvalidSystemName
      else Inr ())"

subsection \<open>Sequence numbers\<close>

definition dec_digit :: "nat \<Rightarrow> char" where "dec_digit n = char_of (48 + n)"

definition is_dec :: "char \<Rightarrow> bool" where
  "is_dec c = (48 \<le> (of_char c :: nat) \<and> (of_char c :: nat) \<le> 57)"

fun show_nat :: "nat \<Rightarrow> string" where
  "show_nat n = (if n < 10 then [dec_digit n] else show_nat (n div 10) @ [dec_digit (n mod 10)])"

declare show_nat.simps [simp del]

definition dec_val :: "string \<Rightarrow> nat" where
  "dec_val s = foldl (\<lambda>acc c. 10 * acc + (of_char c - 48)) 0 s"

definition format_seq :: "nat \<Rightarrow> string" where
  "format_seq n = (let s = show_nat n in replicate (seq_width - length s) CHR ''0'' @ s)"

definition parse_seq :: "string \<Rightarrow> nat option" where
  "parse_seq leaf =
     (if length leaf \<noteq> seq_width then None
      else if list_all is_dec leaf then Some (dec_val leaf) else None)"

text \<open>The first sequence number that no longer fits the fixed width.\<close>

definition seq_limit :: nat where "seq_limit = 10 ^ seq_width"

definition version_path :: "string \<Rightarrow> nat \<Rightarrow> path res" where
  "version_path n s = (case validate_name n of
      Inl e \<Rightarrow> Inl e
    | Inr _ \<Rightarrow> Inr (root_slash @ n @ ''.'' @ format_seq s))"

definition cell_path :: "string \<Rightarrow> path res" where
  "cell_path n = (case validate_name n of
      Inl e \<Rightarrow> Inl e
    | Inr _ \<Rightarrow> Inr (root_slash @ n @ ''.'' @ cell_leaf))"

subsection \<open>Versions\<close>

definition seq_of_path :: "string \<Rightarrow> path \<Rightarrow> nat option" where
  "seq_of_path n p = (let pfx = root_slash @ n @ ''.'' in
     if has_prefix p pfx then parse_seq (drop (length pfx) p) else None)"

definition scan_seqs :: "'d driver \<Rightarrow> 'd \<Rightarrow> string \<Rightarrow> nat list res" where
  "scan_seqs D d n = (case d_list D d named_root 0 of
      Inl e \<Rightarrow> Inl e
    | Inr ms \<Rightarrow> Inr (List.map_filter (\<lambda>m. seq_of_path n (om_path m)) ms))"

fun max_seq :: "nat list \<Rightarrow> nat option \<Rightarrow> nat option" where
  "max_seq [] acc = acc"
| "max_seq (n # ns) acc =
     max_seq ns (case acc of None \<Rightarrow> Some n | Some s \<Rightarrow> if n > s then Some n else acc)"

definition resolve_active_seq :: "'d driver \<Rightarrow> 'd \<Rightarrow> string \<Rightarrow> nat option res" where
  "resolve_active_seq D d n = (case validate_name n of
      Inl e \<Rightarrow> Inl e
    | Inr _ \<Rightarrow>
   (case scan_seqs D d n of
      Inl e \<Rightarrow> Inl e
    | Inr ss \<Rightarrow> Inr (max_seq ss None)))"

definition list_versions :: "'d driver \<Rightarrow> 'd \<Rightarrow> string \<Rightarrow> nat list res" where
  "list_versions D d n = (case validate_name n of
      Inl e \<Rightarrow> Inl e
    | Inr _ \<Rightarrow>
   (case scan_seqs D d n of
      Inl e \<Rightarrow> Inl e
    | Inr ss \<Rightarrow> Inr (sort ss)))"

text \<open>One attempt of \<^verbatim>\<open>ClaimVersion\<close>: read the maximum and name its successor, then create that file exclusively.
  Other writers may run between the two driver calls.\<close>

definition next_seq :: "nat option \<Rightarrow> nat" where
  "next_seq a = (case a of None \<Rightarrow> 1 | Some s \<Rightarrow> s + 1)"

definition claim_read :: "'d driver \<Rightarrow> 'd \<Rightarrow> string \<Rightarrow> (nat \<times> path) res" where
  "claim_read D d n =
     (case resolve_active_seq D d n of
        Inl e \<Rightarrow> Inl e
      | Inr active \<Rightarrow> let s = next_seq active in
     (case version_path n s of
        Inl e \<Rightarrow> Inl e
      | Inr p \<Rightarrow> Inr (s, p)))"

definition claim_commit :: "'d driver \<Rightarrow> 'd \<Rightarrow> path \<Rightarrow> bytes \<Rightarrow> unit res \<times> 'd" where
  "claim_commit D d p body = d_put D d p (body, None) True"

fun claim_loop :: "nat \<Rightarrow> 'd driver \<Rightarrow> 'd \<Rightarrow> string \<Rightarrow> bytes \<Rightarrow> (nat \<times> path) res \<times> 'd" where
  "claim_loop 0 D d n body = (Inl ErrLeaseHeld, d)"
| "claim_loop (Suc k) D d n body =
     (case claim_read D d n of
        Inl e \<Rightarrow> (Inl e, d)
      | Inr (s, p) \<Rightarrow>
     (case claim_commit D d p body of
        (Inr _, d') \<Rightarrow> (Inr (s, p), d')
      | (Inl e, d') \<Rightarrow> if e = ErrAlreadyExists then claim_loop k D d' n body else (Inl e, d')))"

definition claim_version :: "'d driver \<Rightarrow> 'd \<Rightarrow> string \<Rightarrow> bytes \<Rightarrow> (nat \<times> path) res \<times> 'd" where
  "claim_version D d n body = claim_loop max_claim_attempts D d n body"

text \<open>Removal of a list of versions, collecting failures.\<close>

fun remove_versions :: "'d driver \<Rightarrow> 'd \<Rightarrow> string \<Rightarrow> nat list \<Rightarrow> err list \<times> 'd" where
  "remove_versions D d n [] = ([], d)"
| "remove_versions D d n (s # ss) =
     (case version_path n s of
        Inl e \<Rightarrow> (case remove_versions D d n ss of (es, d') \<Rightarrow> (e # es, d'))
      | Inr p \<Rightarrow>
     (case d_remove D d p of
        (Inl e, d1) \<Rightarrow> (case remove_versions D d1 n ss of
           (es, d') \<Rightarrow> (if e = ErrNotExist then es else e # es, d'))
      | (Inr _, d1) \<Rightarrow> remove_versions D d1 n ss))"

definition join_errs :: "err list \<Rightarrow> unit res" where
  "join_errs es = (case es of [] \<Rightarrow> Inr () | e # _ \<Rightarrow> Inl e)"

definition prune :: "'d driver \<Rightarrow> 'd \<Rightarrow> string \<Rightarrow> int \<Rightarrow> unit res \<times> 'd" where
  "prune D d n keep0 = (let keep = nat (if keep0 < 1 then 1 else keep0) in
     case list_versions D d n of
       Inl e \<Rightarrow> (Inl e, d)
     | Inr ss \<Rightarrow>
         if length ss \<le> keep then (Inr (), d)
         else case remove_versions D d n (take (length ss - keep) ss) of (es, d') \<Rightarrow> (join_errs es, d'))"

definition remove_all :: "'d driver \<Rightarrow> 'd \<Rightarrow> string \<Rightarrow> unit res \<times> 'd" where
  "remove_all D d n = (case list_versions D d n of
      Inl e \<Rightarrow> (Inl e, d)
    | Inr ss \<Rightarrow> (case remove_versions D d n ss of (es, d') \<Rightarrow> (join_errs es, d')))"

subsection \<open>Enumeration\<close>

record active =
  ac_name :: string
  ac_seq :: nat
  ac_path :: path

definition split_leaf :: "string \<Rightarrow> (string \<times> string) option" where
  "split_leaf rel = cut_last CHR ''.'' rel"

definition active_of :: "string \<Rightarrow> object_meta \<Rightarrow> active option" where
  "active_of prefix m = (let p = om_path m; rel = drop (length root_slash) p in
     if \<not> has_prefix p (root_slash @ prefix) then None
     else if rel = [] then None
     else case split_leaf rel of
       None \<Rightarrow> None
     | Some (n, leaf) \<Rightarrow> map_option (\<lambda>s. \<lparr> ac_name = n, ac_seq = s, ac_path = p \<rparr>) (parse_seq leaf))"

definition keep_best :: "(string \<times> active) list \<Rightarrow> active \<Rightarrow> (string \<times> active) list" where
  "keep_best best a = (case map_of best (ac_name a) of
      None \<Rightarrow> AList.update (ac_name a) a best
    | Some c \<Rightarrow> if ac_seq a > ac_seq c then AList.update (ac_name a) a best else best)"

definition list_active :: "'d driver \<Rightarrow> 'd \<Rightarrow> string \<Rightarrow> active list res" where
  "list_active D d prefix = (case d_list D d named_root 0 of
      Inl e \<Rightarrow> Inl e
    | Inr ms \<Rightarrow>
        Inr (sort_key ac_name (map snd (foldl keep_best [] (List.map_filter (active_of prefix) ms)))))"

definition cell_of :: "string \<Rightarrow> object_meta \<Rightarrow> active option" where
  "cell_of prefix m = (let p = om_path m; rel = drop (length root_slash) p in
     if \<not> has_prefix p (root_slash @ prefix) then None
     else if rel = [] then None
     else case split_leaf rel of
       None \<Rightarrow> None
     | Some (n, leaf) \<Rightarrow>
         if leaf \<noteq> cell_leaf then None else Some \<lparr> ac_name = n, ac_seq = 0, ac_path = p \<rparr>)"

definition list_cells :: "'d driver \<Rightarrow> 'd \<Rightarrow> string \<Rightarrow> active list res" where
  "list_cells D d prefix = (case d_list D d named_root 0 of
      Inl e \<Rightarrow> Inl e
    | Inr ms \<Rightarrow> Inr (sort_key ac_name (List.map_filter (cell_of prefix) ms)))"

subsection \<open>Cells\<close>

definition write_cell :: "'d driver \<Rightarrow> 'd \<Rightarrow> string \<Rightarrow> bytes \<Rightarrow> bool \<Rightarrow> unit res \<times> 'd" where
  "write_cell D d n body exclusive = (case cell_path n of
      Inl e \<Rightarrow> (Inl e, d)
    | Inr p \<Rightarrow> d_put D d p (body, None) exclusive)"

definition remove_cell :: "'d driver \<Rightarrow> 'd \<Rightarrow> string \<Rightarrow> unit res \<times> 'd" where
  "remove_cell D d n = (case cell_path n of
      Inl e \<Rightarrow> (Inl e, d)
    | Inr p \<Rightarrow> (case d_remove D d p of
        (Inl e, d') \<Rightarrow> (if e = ErrNotExist then Inr () else Inl e, d')
      | (Inr _, d') \<Rightarrow> (Inr (), d')))"

subsection \<open>Concurrent publishers\<close>

text \<open>Calls of \<^verbatim>\<open>ClaimVersion\<close> on one name, interleaved at the granularity of driver calls.  A call with \<open>k\<close>
  attempts left is at the head of its loop (\<open>Attempt k\<close>), between reading the maximum and the exclusive create, or has
  returned.  A step of the system is one step of one of the calls.\<close>

datatype phase = Attempt nat | Claiming nat nat path | Done "(nat \<times> path) res"

fun claim_step :: "'d driver \<Rightarrow> string \<Rightarrow> bytes \<Rightarrow> 'd \<Rightarrow> phase \<Rightarrow> phase \<times> 'd" where
  "claim_step D n body d (Attempt 0) = (Done (Inl ErrLeaseHeld), d)"
| "claim_step D n body d (Attempt (Suc k)) =
     (case claim_read D d n of
        Inl e \<Rightarrow> (Done (Inl e), d)
      | Inr (s, p) \<Rightarrow> (Claiming k s p, d))"
| "claim_step D n body d (Claiming k s p) =
     (case claim_commit D d p body of
        (Inr _, d') \<Rightarrow> (Done (Inr (s, p)), d')
      | (Inl e, d') \<Rightarrow> (if e = ErrAlreadyExists then Attempt k else Done (Inl e), d'))"
| "claim_step D n body d (Done r) = (Done r, d)"

inductive pub_step :: "'d driver \<Rightarrow> string \<Rightarrow> (nat \<Rightarrow> bytes) \<Rightarrow> 'd \<times> (nat \<Rightarrow> phase) \<Rightarrow> 'd \<times> (nat \<Rightarrow> phase) \<Rightarrow> bool"
  for D :: "'d driver" and n :: string and body :: "nat \<Rightarrow> bytes" where
  pub_move: "claim_step D n (body w) d (ph w) = (q, d') \<Longrightarrow> pub_step D n body (d, ph) (d', ph(w := q))"

inductive_cases pub_stepE: "pub_step D n body (d, ph) st"

subsection \<open>Lemmas on sequence numbers\<close>

lemma dec_val_snoc [simp]: "dec_val (s @ [c]) = 10 * dec_val s + (of_char c - 48)"
  by (simp add: dec_val_def)

lemma dec_val_Nil [simp]: "dec_val [] = 0"
  by (simp add: dec_val_def)

lemma dec_digit_simps [simp]:
  "n < 10 \<Longrightarrow> of_char (dec_digit n) - 48 = n" "n < 10 \<Longrightarrow> is_dec (dec_digit n)"
  by (simp_all add: dec_digit_def is_dec_def)

lemma show_nat_dec: "list_all is_dec (show_nat n)"
proof (induction n rule: show_nat.induct)
  case (1 n)
  then show ?case by (subst show_nat.simps) auto
qed

lemma dec_val_show [simp]: "dec_val (show_nat n) = n"
proof (induction n rule: show_nat.induct)
  case (1 n)
  show ?case
  proof (cases "n < 10")
    case True
    then show ?thesis using dec_val_snoc [of "[]" "dec_digit n"] by (subst show_nat.simps) simp
  next
    case False
    then show ?thesis using 1 by (subst show_nat.simps) simp
  qed
qed

lemma dec_val_zeros [simp]: "dec_val (replicate k CHR ''0'' @ s) = dec_val s"
proof -
  have "foldl (\<lambda>acc c. 10 * acc + (of_char c - 48)) 0 (replicate k CHR ''0'') = (0 :: nat)"
    by (induction k) simp_all
  then show ?thesis by (simp add: dec_val_def)
qed

lemma dec_val_bound: "list_all is_dec s \<Longrightarrow> dec_val s < 10 ^ length s"
proof (induction s rule: rev_induct)
  case (snoc c s)
  then have "of_char c - 48 \<le> (9 :: nat)" by (auto simp: is_dec_def)
  then show ?case using snoc by simp
qed simp

lemma dec_val_inj:
  "length s = length t \<Longrightarrow> list_all is_dec s \<Longrightarrow> list_all is_dec t \<Longrightarrow> dec_val s = dec_val t \<Longrightarrow> s = t"
proof (induction s arbitrary: t rule: rev_induct)
  case (snoc c s)
  obtain e u where t: "t = u @ [e]" using snoc.prems(1) by (cases t rule: rev_cases) auto
  have b: "of_char c - 48 < (10 :: nat)" "of_char e - 48 < (10 :: nat)"
    using snoc.prems(2,3) by (auto simp: is_dec_def t)
  have v: "10 * dec_val s + (of_char c - 48) = 10 * dec_val u + (of_char e - 48)"
    using snoc.prems(4) by (simp add: t)
  then have e: "dec_val s = dec_val u" "(of_char c - 48 :: nat) = of_char e - 48"
    using b by presburger+
  then have "s = u" using snoc t by simp
  moreover have "48 \<le> (of_char c :: nat)" "48 \<le> (of_char e :: nat)"
    using snoc.prems(2,3) t by (simp_all add: is_dec_def)
  then have "(of_char c :: nat) = of_char e" using e by linarith
  ultimately show ?case by (simp add: t)
qed simp

lemma seq_width_pos: "0 < seq_width"
  by (simp add: seq_width_def)

lemma length_show_nat: "n < 10 ^ k \<Longrightarrow> 0 < k \<Longrightarrow> length (show_nat n) \<le> k"
proof (induction n arbitrary: k rule: show_nat.induct)
  case (1 n)
  show ?case
  proof (cases "n < 10")
    case True
    then show ?thesis using 1 by (subst show_nat.simps) simp
  next
    case False
    then obtain j where k: "k = Suc j" "0 < j"
      using 1(2,3) by (cases k; cases "k - 1") auto
    have "length (show_nat (n div 10)) \<le> j"
      using 1(1) [OF False, of j] 1(2) k by (simp add: less_mult_imp_div_less mult.commute)
    then show ?thesis using k False by (subst show_nat.simps) simp
  qed
qed

lemma length_format_seq: "n < seq_limit \<Longrightarrow> length (format_seq n) = seq_width"
  using length_show_nat [of n seq_width] by (simp add: format_seq_def Let_def seq_limit_def seq_width_pos)

lemma format_seq_dec: "list_all is_dec (format_seq n)"
  using show_nat_dec [of n] by (auto simp: format_seq_def Let_def list_all_iff is_dec_def)

lemma dec_val_format [simp]: "dec_val (format_seq n) = n"
  by (simp add: format_seq_def Let_def)

lemma parse_seq_iff: "parse_seq l = Some n \<longleftrightarrow> n < seq_limit \<and> l = format_seq n"
proof
  assume "parse_seq l = Some n"
  then have l: "length l = seq_width" "list_all is_dec l" "n = dec_val l"
    by (auto simp: parse_seq_def split: if_splits)
  then have n: "n < seq_limit" using dec_val_bound [of l] by (simp add: seq_limit_def)
  have "l = format_seq n"
    by (rule dec_val_inj) (simp_all add: l(1,2) l(3) [symmetric] length_format_seq [OF n] format_seq_dec)
  then show "n < seq_limit \<and> l = format_seq n" using n by blast
next
  assume "n < seq_limit \<and> l = format_seq n"
  then show "parse_seq l = Some n"
    by (simp add: parse_seq_def length_format_seq format_seq_dec)
qed

lemma format_seq_inj [simp]: "format_seq m = format_seq n \<longleftrightarrow> m = n"
  by (metis dec_val_format)

subsection \<open>Lemmas on names and paths\<close>

definition vpath :: "string \<Rightarrow> nat \<Rightarrow> path" where
  "vpath n s = root_slash @ n @ ''.'' @ format_seq s"

lemma version_path_ok: "validate_name n = Inr () \<Longrightarrow> version_path n s = Inr (vpath n s)"
  by (simp add: version_path_def vpath_def)

lemma vpath_not_root [simp]: "named_root \<noteq> vpath n s" "vpath n s \<noteq> named_root"
  by (auto simp: vpath_def named_root_def root_slash_def)

lemma vpath_inj [simp]: "vpath n s = vpath n t \<longleftrightarrow> s = t"
  by (simp add: vpath_def)

lemma is_dec_not_dot: "is_dec c \<Longrightarrow> c \<noteq> CHR ''.'' \<and> c \<noteq> CHR ''/''"
  by (auto simp: is_dec_def)

lemma format_seq_chars: "c \<in> set (format_seq n) \<Longrightarrow> c \<noteq> CHR ''.'' \<and> c \<noteq> CHR ''/''"
  using format_seq_dec [of n] is_dec_not_dot by (auto simp: list_all_iff)

lemma split_leaf_vpath: "split_leaf (n @ ''.'' @ format_seq s) = Some (n, format_seq s)"
proof -
  have "CHR ''.'' \<notin> set (format_seq s)" using format_seq_chars by blast
  then show ?thesis by (simp add: split_leaf_def)
qed

text \<open>A version file and a cell never share a driver path.\<close>

lemma cell_not_version: "root_slash @ m @ ''.'' @ cell_leaf \<noteq> vpath n s"
proof
  assume "root_slash @ m @ ''.'' @ cell_leaf = vpath n s"
  then have "m @ ''.'' @ cell_leaf = n @ ''.'' @ format_seq s" by (simp add: vpath_def)
  then have "split_leaf (m @ ''.'' @ cell_leaf) = Some (n, format_seq s)"
    using split_leaf_vpath by simp
  moreover have "split_leaf (m @ ''.'' @ cell_leaf) = Some (m, cell_leaf)"
    by (simp add: split_leaf_def cell_leaf_def)
  ultimately have "format_seq s = cell_leaf" by simp
  then show False using format_seq_dec [of s] by (simp add: cell_leaf_def is_dec_def)
qed

lemma seq_of_path_iff: "seq_of_path n p = Some s \<longleftrightarrow> s < seq_limit \<and> p = vpath n s"
proof -
  let ?pfx = "root_slash @ n @ ''.''"
  have "has_prefix p ?pfx \<and> parse_seq (drop (length ?pfx) p) = Some s \<longleftrightarrow> s < seq_limit \<and> p = ?pfx @ format_seq s"
    unfolding parse_seq_iff has_prefix_conv by auto
  then show ?thesis by (auto simp: seq_of_path_def Let_def vpath_def split: if_splits)
qed

text \<open>Names none of whose elements looks like a hidden file.\<close>

definition plain_name :: "string \<Rightarrow> bool" where
  "plain_name n = (validate_name n = Inr () \<and>
     (\<forall>e \<in> set (split_on CHR ''/'' n). e \<noteq> [] \<and> \<not> has_prefix e ''.'' \<and> \<not> has_suffix e tombstone_suffix))"

lemma split_on_suffix:
  "c \<notin> set t \<Longrightarrow> split_on c (s @ t) = butlast (split_on c s) @ [last (split_on c s) @ t]"
proof (induction s)
  case (Cons x s)
  then show ?case by (cases "split_on c s") (auto split: list.splits)
qed (simp add: split_on_no_sep)

definition leaf_ok :: "string \<Rightarrow> bool" where
  "leaf_ok l = (l \<noteq> [] \<and> last l \<noteq> CHR ''e'' \<and> CHR ''/'' \<notin> set l)"

lemma leaf_ok_format: "leaf_ok (format_seq s)"
proof -
  have n: "format_seq s \<noteq> []" by (simp add: format_seq_def Let_def) (subst show_nat.simps, simp)
  then have "is_dec (last (format_seq s))" using format_seq_dec [of s] by (simp add: list_all_iff)
  then have "last (format_seq s) \<noteq> CHR ''e''" by (auto simp: is_dec_def)
  then show ?thesis using n format_seq_chars [of "CHR ''/''" s] by (auto simp: leaf_ok_def)
qed

lemma leaf_ok_cell: "leaf_ok cell_leaf"
  by (simp add: leaf_ok_def cell_leaf_def)

lemma plain_elems:
  assumes "plain_name n" "leaf_ok l" "e \<in> set (split_on CHR ''/'' (n @ ''.'' @ l))"
  shows "e \<noteq> []" "\<not> has_prefix e ''.''" "\<not> has_suffix e tombstone_suffix"
proof -
  let ?s = "split_on CHR ''/'' n"
  have "CHR ''/'' \<notin> set (''.'' @ l)" using assms(2) by (simp add: leaf_ok_def)
  then have sp: "split_on CHR ''/'' (n @ ''.'' @ l) = butlast ?s @ [last ?s @ ''.'' @ l]"
    by (rule split_on_suffix)
  have p: "x \<noteq> [] \<and> \<not> has_prefix x ''.'' \<and> \<not> has_suffix x tombstone_suffix" if "x \<in> set ?s" for x
    using assms(1) that by (simp add: plain_name_def)
  consider "e \<in> set ?s" | "e = last ?s @ ''.'' @ l"
    using assms(3) sp by (auto dest: in_set_butlastD)
  then have "e \<noteq> [] \<and> \<not> has_prefix e ''.'' \<and> \<not> has_suffix e tombstone_suffix"
  proof cases
    case 2
    have l: "last ?s \<in> set ?s" by simp
    have "last e \<noteq> CHR ''e''" using 2 assms(2) by (simp add: leaf_ok_def)
    then have "\<not> has_suffix e tombstone_suffix"
      by (auto simp: has_suffix_conv tombstone_suffix_def)
    moreover have "\<not> has_prefix e ''.''"
      using p [OF l] 2 by (cases "last ?s") (auto simp: has_prefix_conv)
    ultimately show ?thesis using 2 by simp
  qed (use p in blast)
  then show "e \<noteq> []" "\<not> has_prefix e ''.''" "\<not> has_suffix e tombstone_suffix" by blast+
qed

lemma listed_plain:
  assumes "plain_name n" "leaf_ok l"
  shows "listed_under named_root (root_slash @ n @ ''.'' @ l)"
  using plain_elems [OF assms]
  by (auto simp: listed_under_def named_root_def root_slash_def has_prefix_def is_hidden_def is_temp_def)

lemma listed_vpath: "plain_name n \<Longrightarrow> listed_under named_root (vpath n s)"
  unfolding vpath_def by (rule listed_plain [OF _ leaf_ok_format])

text \<open>What the driver must accept for a name: its root, its versions and its cell.\<close>

definition cpath :: "string \<Rightarrow> path" where
  "cpath n = root_slash @ n @ ''.'' @ cell_leaf"

lemma cell_path_ok: "validate_name n = Inr () \<Longrightarrow> cell_path n = Inr (cpath n)"
  by (simp add: cell_path_def cpath_def)

lemma cpath_neq_vpath [simp]: "cpath m \<noteq> vpath n s" "vpath n s \<noteq> cpath m"
  using cell_not_version by (auto simp: cpath_def) metis

definition named_ok :: "(path \<Rightarrow> bool) \<Rightarrow> string \<Rightarrow> bool" where
  "named_ok ok n = (plain_name n \<and> ok named_root \<and> (\<forall>s. ok (vpath n s)) \<and> ok (cpath n))"

lemma named_okD:
  assumes "named_ok ok n"
  shows "plain_name n" "validate_name n = Inr ()" "ok named_root" "ok (vpath n s)" "ok (cpath n)"
  using assms by (simp_all add: named_ok_def plain_name_def)

text \<open>The versions present in a view.\<close>

definition present :: "(path \<rightharpoonup> bytes) \<Rightarrow> string \<Rightarrow> nat set" where
  "present v n = {s. s < seq_limit \<and> v (vpath n s) \<noteq> None}"

lemma max_seq_Some:
  "max_seq ss (Some a) = Some m \<Longrightarrow> (m = a \<or> m \<in> set ss) \<and> a \<le> m \<and> (\<forall>x \<in> set ss. x \<le> m)"
  by (induction ss arbitrary: a) (fastforce split: if_splits)+

lemma max_seq_total: "\<exists>m. max_seq ss (Some a) = Some m"
  by (induction ss arbitrary: a) auto

lemma max_seq_None: "max_seq ss None = None \<longleftrightarrow> ss = []"
proof (cases ss)
  case (Cons x xs)
  then show ?thesis using max_seq_total [of xs x] by auto
qed simp

lemma max_seq_greatest: "max_seq ss None = Some m \<Longrightarrow> m \<in> set ss \<and> (\<forall>x \<in> set ss. x \<le> m)"
  by (cases ss) (auto dest: max_seq_Some)

lemma sorted_take_less:
  assumes "sorted ss" "distinct ss" "x \<in> set (take j ss)" "j < length ss"
  shows "\<exists>y \<in> set ss. x < (y :: nat)"
proof -
  obtain i where i: "i < j" "x = ss ! i" using assms(3,4) by (auto simp: in_set_conv_nth)
  have "ss ! i \<le> ss ! j" using assms(1,4) i by (simp add: sorted_nth_mono)
  moreover have "ss ! i \<noteq> ss ! j" using assms(2,4) i by (simp add: nth_eq_iff_index_eq)
  ultimately show ?thesis using i assms(4) by (intro bexI [of _ "ss ! j"]) auto
qed

lemma set_map_filter: "set (List.map_filter f xs) = {y. \<exists>x \<in> set xs. f x = Some y}"
  by (force simp: List.map_filter_def)

text \<open>Left alone, a call runs through its steps to the result of the loop.\<close>

lemma pub_step_move:
  "claim_step D n (body w) d (ph w) = (q, d') \<Longrightarrow> (pub_step D n body)\<^sup>*\<^sup>* (d', ph(w := q)) st \<Longrightarrow>
   (pub_step D n body)\<^sup>*\<^sup>* (d, ph) st"
  using pub_move [of D n body w d ph q d'] by (rule converse_rtranclp_into_rtranclp)

lemma claim_loop_run:
  "ph w = Attempt k \<Longrightarrow> claim_loop k D d n (body w) = (r, d') \<Longrightarrow>
   (pub_step D n body)\<^sup>*\<^sup>* (d, ph) (d', ph(w := Done r))"
proof (induction k arbitrary: d ph)
  case 0
  then have "claim_step D n (body w) d (ph w) = (Done r, d')" by simp
  then show ?case by (rule pub_step_move [OF _ rtranclp.rtrancl_refl])
next
  case (Suc k)
  show ?case
  proof (cases "claim_read D d n")
    case (Inl e)
    then have "claim_step D n (body w) d (ph w) = (Done r, d')" using Suc.prems by (auto split: sum.splits)
    then show ?thesis by (rule pub_step_move [OF _ rtranclp.rtrancl_refl])
  next
    case (Inr sp)
    obtain s p where sp: "sp = (s, p)" by (cases sp)
    obtain c d1 where c: "claim_commit D d p (body w) = (c, d1)" by fastforce
    let ?q = "case c of Inr _ \<Rightarrow> Done (Inr (s, p)) | Inl e \<Rightarrow> if e = ErrAlreadyExists then Attempt k else Done (Inl e)"
    have "claim_loop k D d1 n (body w) = (r, d') \<Longrightarrow>
        (pub_step D n body)\<^sup>*\<^sup>* (d1, ph(w := Attempt k)) (d', ph(w := Done r))"
      using Suc.IH [of "ph(w := Attempt k)" d1] by (simp only: fun_upd_same fun_upd_upd)
    then have "(pub_step D n body)\<^sup>*\<^sup>* (d1, ph(w := ?q)) (d', ph(w := Done r))"
      using Suc.prems(2) Inr sp c by (auto split: sum.splits if_splits)
    moreover have "claim_step D n (body w) d (Claiming k s p) = (?q, d1)" using c by (simp split: sum.splits)
    ultimately have "(pub_step D n body)\<^sup>*\<^sup>* (d, ph(w := Claiming k s p)) (d', ph(w := Done r))"
      using pub_step_move [of D n body w d "ph(w := Claiming k s p)" ?q d1] by simp
    moreover have "claim_step D n (body w) d (ph w) = (Claiming k s p, d)" using Suc.prems(1) Inr sp by simp
    ultimately show ?thesis using pub_step_move [of D n body w d ph] by blast
  qed
qed

text \<open>The invariant of concurrent publishing over a medium that started as \<open>d0\<close>: no file of \<open>d0\<close> changes, a claimed
  number is above every version of \<open>d0\<close>, and every published number has one publisher, whose bytes its file holds.\<close>

definition pub_inv :: "('d \<Rightarrow> bool) \<Rightarrow> ('d \<Rightarrow> path \<Rightarrow> bytes option) \<Rightarrow> string \<Rightarrow> (nat \<Rightarrow> bytes) \<Rightarrow> 'd
    \<Rightarrow> 'd \<times> (nat \<Rightarrow> phase) \<Rightarrow> bool" where
  "pub_inv I V n body d0 st = (I (fst st) \<and> V (fst st) named_root = None
     \<and> (\<forall>q b. V d0 q = Some b \<longrightarrow> V (fst st) q = Some b)
     \<and> (\<forall>w k s p. snd st w = Claiming k s p \<longrightarrow> p = vpath n s \<and> (\<forall>x \<in> present (V d0) n. x < s))
     \<and> (\<forall>w s p. snd st w = Done (Inr (s, p)) \<longrightarrow> p = vpath n s \<and> (\<forall>x \<in> present (V d0) n. x < s)
          \<and> V d0 p = None \<and> V (fst st) p = Some (body w))
     \<and> (\<forall>w w' s p p'. snd st w = Done (Inr (s, p)) \<and> snd st w' = Done (Inr (s, p')) \<longrightarrow> w = w'))"

lemma pub_invD:
  assumes "pub_inv I V n body d0 (d, ph)"
  shows "I d" "V d named_root = None" "V d0 q = Some b \<Longrightarrow> V d q = Some b"
    "ph w = Claiming k s p \<Longrightarrow> p = vpath n s \<and> (\<forall>x \<in> present (V d0) n. x < s)"
    "ph w = Done (Inr (s, p)) \<Longrightarrow> p = vpath n s \<and> (\<forall>x \<in> present (V d0) n. x < s) \<and> V d0 p = None \<and> V d p = Some (body w)"
    "ph w = Done (Inr (s, p)) \<Longrightarrow> ph w' = Done (Inr (s, p')) \<Longrightarrow> w = w'"
  using assms unfolding pub_inv_def fst_conv snd_conv by blast+

lemma pub_inv_upd:
  assumes "pub_inv I V n body d0 (d, ph)" "I d'" "V d' named_root = None" "\<And>q b. V d q = Some b \<Longrightarrow> V d' q = Some b"
    and "\<And>k s p. r = Claiming k s p \<Longrightarrow> p = vpath n s \<and> (\<forall>x \<in> present (V d0) n. x < s)"
    and "\<And>s p. r = Done (Inr (s, p)) \<Longrightarrow> p = vpath n s \<and> (\<forall>x \<in> present (V d0) n. x < s) \<and> V d0 p = None
      \<and> V d' p = Some (body w) \<and> (\<forall>w' p'. ph w' \<noteq> Done (Inr (s, p')))"
  shows "pub_inv I V n body d0 (d', ph(w := r))"
proof -
  note i = pub_invD [OF assms(1)]
  show ?thesis
    unfolding pub_inv_def fst_conv snd_conv
  proof (intro conjI allI impI)
    show "u = u'" if "(ph(w := r)) u = Done (Inr (s, p)) \<and> (ph(w := r)) u' = Done (Inr (s, p'))" for u u' s p p'
      using that i(6) [of u s p u' p'] assms(6) [of s] by (auto split: if_splits)
  qed (use assms(2-) i(3-5) in \<open>auto split: if_splits\<close>)
qed

context driver_laws
begin

lemma scan_seqs_ok:
  assumes "inv d" "named_ok ok n" "view d named_root = None" "scan_seqs D d n = Inr ss"
  shows "distinct ss \<and> set ss = present (view d) n"
proof -
  obtain ms where ms: "d_list D d named_root 0 = Inr ms"
      "ss = List.map_filter (\<lambda>m. seq_of_path n (om_path m)) ms"
    using assms(4) by (auto simp: scan_seqs_def split: sum.splits)
  have l: "distinct (map om_path ms)" "om_path ` set ms = {p. listed_under named_root p \<and> view d p \<noteq> None}"
    using list_ok [OF assms(1) named_okD(3) [OF assms(2)] assms(3) ms(1)] by auto
  have "set ss = {s. \<exists>p \<in> om_path ` set ms. seq_of_path n p = Some s}"
    by (force simp: ms(2) set_map_filter)
  also have "\<dots> = present (view d) n"
    unfolding l(2) seq_of_path_iff present_def
    using listed_vpath [OF named_okD(1) [OF assms(2)]] by auto
  finally have "set ss = present (view d) n" .
  moreover have "distinct ss"
    unfolding ms(2) using l(1)
  proof (induction ms)
    case (Cons m ms)
    have "s \<notin> set (List.map_filter (\<lambda>m. seq_of_path n (om_path m)) ms)"
      if "seq_of_path n (om_path m) = Some s" for s
    proof
      assume "s \<in> set (List.map_filter (\<lambda>m. seq_of_path n (om_path m)) ms)"
      then obtain m' where "m' \<in> set ms" "seq_of_path n (om_path m') = Some s"
        by (auto simp: set_map_filter)
      then have "om_path m \<in> om_path ` set ms"
        using that by (auto simp: seq_of_path_iff intro: rev_image_eqI)
      then show False using Cons.prems by simp
    qed
    then show ?case using Cons by (auto simp: map_filter_simps split: option.splits)
  qed (simp add: map_filter_simps)
  ultimately show ?thesis by blast
qed

lemma resolve_active_ok:
  assumes "inv d" "named_ok ok n" "view d named_root = None" "resolve_active_seq D d n = Inr a"
  shows "case a of None \<Rightarrow> present (view d) n = {}
    | Some m \<Rightarrow> m \<in> present (view d) n \<and> (\<forall>x \<in> present (view d) n. x \<le> m)"
proof -
  obtain ss where ss: "scan_seqs D d n = Inr ss" "a = max_seq ss None"
    using assms(4) by (auto simp: resolve_active_seq_def split: sum.splits)
  have "set ss = present (view d) n" using scan_seqs_ok [OF assms(1-3) ss(1)] by blast
  then show ?thesis
    using ss(2) max_seq_None [of ss] max_seq_greatest [of ss] by (auto split: option.splits)
qed

lemma next_seq_fresh:
  assumes "inv d" "named_ok ok n" "view d named_root = None" "resolve_active_seq D d n = Inr a"
    "next_seq a < seq_limit"
  shows "view d (vpath n (next_seq a)) = None"
proof (rule ccontr)
  assume "view d (vpath n (next_seq a)) \<noteq> None"
  then have "next_seq a \<in> present (view d) n" using assms(5) by (simp add: present_def)
  then show False
    using resolve_active_ok [OF assms(1-4)] by (cases a) (auto simp: next_seq_def)
qed

lemma claim_read_ok:
  assumes "inv d" "named_ok ok n" "view d named_root = None" "claim_read D d n = Inr (s, p)"
  shows "p = vpath n s" "x \<in> present (view d) n \<Longrightarrow> x < s"
proof -
  obtain a where a: "resolve_active_seq D d n = Inr a" "s = next_seq a" "p = vpath n s"
    using assms(4) version_path_ok [OF named_okD(2) [OF assms(2)]]
    by (auto simp: claim_read_def Let_def split: sum.splits)
  show "p = vpath n s" by (rule a(3))
  show "x < s" if "x \<in> present (view d) n"
    using resolve_active_ok [OF assms(1-3) a(1)] that a(2) by (cases a) (auto simp: next_seq_def)
qed

text \<open>Whatever happens to a claim, no existing file changes; when it succeeds the file was not there and holds the
  body.\<close>

lemma claim_commit_ok:
  assumes "inv d" "named_ok ok n" "claim_commit D d (vpath n s) body = (r, d')"
  shows "inv d'" "view d q = Some b \<Longrightarrow> view d' q = Some b" "view d' named_root = view d named_root"
    "r = Inr u \<Longrightarrow> view d (vpath n s) = None \<and> view d' (vpath n s) = Some body"
proof -
  note v = named_okD(4) [OF assms(2), of s]
  note p = assms(3) [unfolded claim_commit_def]
  show "inv d'" using inv_keep(1) [OF assms(1), of "vpath n s" "(body, None)" True] p by simp
  show "view d' q = Some b" if "view d q = Some b"
    using put_exclusive_frame [OF assms(1) v that, of "(body, None)"] p by simp
  show "view d' named_root = view d named_root"
    using put_frame [OF assms(1) v vpath_not_root(1), of "(body, None)" True] p by simp
  show "view d (vpath n s) = None \<and> view d' (vpath n s) = Some body" if "r = Inr u"
    using put_ok [OF assms(1) v, of "(body, None)" True u d'] p that by simp
qed

lemma remove_versions_frame:
  assumes "inv d" "named_ok ok n" "\<forall>s \<in> set ss. q \<noteq> vpath n s"
  shows "view (snd (remove_versions D d n ss)) q = view d q \<and> inv (snd (remove_versions D d n ss))"
  using assms(1,3)
proof (induction ss arbitrary: d)
  case (Cons s ss)
  note v = named_okD [OF assms(2)]
  obtain r d1 where p: "d_remove D d (vpath n s) = (r, d1)" by fastforce
  have "view d1 q = view d q" "inv d1"
    using remove_frame [OF Cons.prems(1) v(4), of q s] inv_keep(2) [OF Cons.prems(1), of "vpath n s"]
      p Cons.prems(2) by auto
  then show ?case
    using Cons.IH [of d1] Cons.prems(2) p
    by (auto simp: version_path_ok [OF v(2)] split: sum.splits prod.splits)
qed simp

text \<open>Pruning never touches the active version, even when removals fail.\<close>

lemma prune_keeps_active:
  assumes "inv d" "named_ok ok n" "view d named_root = None"
    "m \<in> present (view d) n" "\<forall>x \<in> present (view d) n. x \<le> m"
  shows "view (snd (prune D d n keep)) (vpath n m) = view d (vpath n m)"
proof (cases "list_versions D d n")
  case (Inr ss)
  then obtain xs where xs: "scan_seqs D d n = Inr xs" "ss = sort xs"
    by (auto simp: list_versions_def split: sum.splits)
  let ?k = "nat (if keep < 1 then 1 else keep)"
  have s: "distinct ss" "set ss = present (view d) n" "sorted ss"
    using scan_seqs_ok [OF assms(1-3) xs(1)] xs(2) by auto
  have "m \<notin> set (take (length ss - ?k) ss)" if "?k < length ss"
  proof
    assume "m \<in> set (take (length ss - ?k) ss)"
    moreover have "0 < ?k" by simp
    then have "length ss - ?k < length ss" using that by linarith
    ultimately obtain y where "y \<in> set ss" "m < y"
      using sorted_take_less [OF s(3,1)] by blast
    then show False using assms(5) s(2) by fastforce
  qed
  then have "\<forall>s \<in> set (take (length ss - ?k) ss). vpath n m \<noteq> vpath n s" if "?k < length ss"
    using that by auto
  then show ?thesis
    using remove_versions_frame [OF assms(1,2), of "take (length ss - ?k) ss" "vpath n m"] Inr
    by (auto simp: prune_def Let_def split: prod.splits)
qed (simp add: prune_def Let_def)

lemma claim_step_inv:
  assumes "claim_step D n (body w) d (ph w) = (q, d')" "named_ok ok n" "pub_inv inv view n body d0 (d, ph)"
  shows "pub_inv inv view n body d0 (d', ph(w := q))"
proof -
  note i = pub_invD [OF assms(3)]
  show ?thesis
  proof (cases "ph w")
    case (Attempt k)
    have sub: "present (view d0) n \<subseteq> present (view d) n" using i(3) by (auto simp: present_def)
    have "d' = d" "\<not> (\<exists>sp. q = Done (Inr sp))" using assms(1) Attempt by (cases k; auto split: sum.splits)+
    moreover have "claim_read D d n = Inr (s, p)" if "q = Claiming j s p" for j s p
      using assms(1) Attempt that by (cases k) (auto split: sum.splits)
    then have "p = vpath n s \<and> (\<forall>x \<in> present (view d0) n. x < s)" if "q = Claiming j s p" for j s p
      using claim_read_ok [OF i(1) assms(2) i(2)] that sub by blast
    ultimately show ?thesis by (intro pub_inv_upd [OF assms(3)]) (use i(1,2) in auto)
  next
    case (Claiming k s p)
    note p = i(4) [OF Claiming]
    obtain c where c: "claim_commit D d (vpath n s) (body w) = (c, d')"
      "q = (case c of Inr _ \<Rightarrow> Done (Inr (s, p)) | Inl e \<Rightarrow> if e = ErrAlreadyExists then Attempt k else Done (Inl e))"
      using assms(1) Claiming p by (auto split: prod.splits sum.splits)
    note m = claim_commit_ok [OF i(1) assms(2) c(1)]
    have "t = s \<and> p' = p \<and> view d p = None \<and> view d' p = Some (body w)" if "q = Done (Inr (t, p'))" for t p'
      using that c(2) m(4) p by (auto split: sum.splits if_splits)
    moreover have "view d0 p = None" if "view d p = None" using i(3) [of p] that by (cases "view d0 p") auto
    moreover have "ph w' \<noteq> Done (Inr (s, p'))" if "view d p = None" for w' p'
      using i(5) [of w' s p'] that p by auto
    moreover have "\<not> (\<exists>k' s' p'. q = Claiming k' s' p')" using c(2) by (auto split: sum.splits)
    ultimately show ?thesis by (intro pub_inv_upd [OF assms(3)]) (use m(1-3) i(2) p in auto)
  next
    case (Done r)
    then show ?thesis using assms(1,3) by (simp add: fun_upd_idem)
  qed
qed

lemma pub_reach_inv:
  assumes "(pub_step D n body)\<^sup>*\<^sup>* (d, \<lambda>_. Attempt k) st" "named_ok ok n" "inv d" "view d named_root = None"
  shows "pub_inv inv view n body d st"
  using assms(1)
proof (induction rule: rtranclp_induct)
  case base
  then show ?case using assms(3,4) by (simp add: pub_inv_def)
next
  case (step y z)
  then show ?case using claim_step_inv [OF _ assms(2)] by (cases y) (auto elim!: pub_stepE)
qed

end

context reliable_driver
begin

lemma scan_total: "rel d \<Longrightarrow> named_ok ok n \<Longrightarrow> \<exists>ss. scan_seqs D d n = Inr ss"
  using rel_list [of d named_root 0] named_okD(3) by (fastforce simp: scan_seqs_def)

lemma resolve_active_total: "rel d \<Longrightarrow> named_ok ok n \<Longrightarrow> \<exists>a. resolve_active_seq D d n = Inr a"
  using scan_total [of d n] named_okD(2) by (fastforce simp: resolve_active_seq_def)

lemma put_total:
  assumes "rel d" "ok p" "\<not> x \<or> view d p = None"
  obtains d' where "d_put D d p (b, None) x = (Inr (), d')" "view d' = (view d)(p \<mapsto> b)" "rel d'"
proof -
  obtain r d' where e: "d_put D d p (b, None) x = (r, d')" by fastforce
  have "r = Inr ()" using rel_put [OF assms(1,2), of "(b, None)" x] assms(3) e by simp
  then show thesis
    using that [of d'] e put_ok [OF rel_inv [OF assms(1)] assms(2)] rel_keep(1) [OF assms(1,2), of "(b, None)" x]
    by (metis fst_conv snd_conv)
qed

text \<open>Without contention a claim publishes the successor of the maximum, and that becomes active.\<close>

lemma claim_version_ok:
  assumes "rel d" "named_ok ok n" "view d named_root = None"
    and a: "resolve_active_seq D d n = Inr a" and l: "next_seq a < seq_limit"
  shows "\<exists>d'. claim_version D d n body = (Inr (next_seq a, vpath n (next_seq a)), d')
    \<and> claim_commit D d (vpath n (next_seq a)) body = (Inr (), d')
    \<and> view d' = (view d)(vpath n (next_seq a) \<mapsto> body) \<and> rel d'
    \<and> resolve_active_seq D d' n = Inr (Some (next_seq a))"
proof -
  let ?s = "next_seq a"
  note v = named_okD [OF assms(2)]
  have i: "inv d" using rel_inv assms(1) by blast
  obtain d' where p: "d_put D d (vpath n ?s) (body, None) True = (Inr (), d')"
      "view d' = (view d)(vpath n ?s \<mapsto> body)" "rel d'"
    using put_total [OF assms(1) v(4)] next_seq_fresh [OF i assms(2,3) a l] by blast
  have c: "claim_version D d n body = (Inr (?s, vpath n ?s), d')"
    using a p(1) by (simp add: claim_version_def max_claim_attempts_def numeral_eq_Suc claim_read_def claim_commit_def Let_def
        version_path_ok [OF v(2)])
  have cc: "claim_commit D d (vpath n ?s) body = (Inr (), d')" using p(1) by (simp add: claim_commit_def)
  have nr: "view d' named_root = None" using p(2) assms(3) by simp
  obtain a' where a': "resolve_active_seq D d' n = Inr a'"
    using resolve_active_total [OF p(3) assms(2)] by blast
  have pr: "present (view d') n = insert ?s (present (view d) n)"
    using l by (auto simp: present_def p(2))
  have bound: "\<forall>x \<in> present (view d) n. x < ?s"
    using resolve_active_ok [OF i assms(2,3) a] by (cases a) (auto simp: next_seq_def)
  have "a' = Some ?s"
    using resolve_active_ok [OF rel_inv [OF p(3)] assms(2) nr a'] bound unfolding pr
    by (auto split: option.splits)
  then show ?thesis using c cc p(2,3) a' by blast
qed

end

subsection \<open>Names on the local filesystem\<close>

lemma clean_plain_path:
  assumes "plain_name n" "leaf_ok l"
  shows "clean_path (root_slash @ n @ ''.'' @ l)"
proof -
  let ?p = "root_slash @ n @ ''.'' @ l"
  have sp: "split_on CHR ''/'' ?p = ''named'' # split_on CHR ''/'' (n @ ''.'' @ l)"
    using split_on_append [of "CHR ''/''" "''named''"] by (simp add: root_slash_def)
  have "list_all (\<lambda>e. e \<noteq> [] \<and> e \<noteq> ''.'' \<and> e \<noteq> ''..'') (split_on CHR ''/'' ?p)"
    unfolding sp using plain_elems [OF assms] plain_elems(2) [OF assms, of "''.''"]
      plain_elems(2) [OF assms, of "''..''"]
    by (auto simp: list_all_iff has_prefix_def)
  moreover have "\<not> is_temp (base_name (tombstone_of ?p))"
  proof -
    have "base_name ?p = last (split_on CHR ''/'' n) @ ''.'' @ l"
    proof (cases "CHR ''/'' \<in> set n")
      case True
      then obtain u w where n: "n = u @ CHR ''/'' # w" "CHR ''/'' \<notin> set w" by (meson split_list_last)
      have w: "CHR ''/'' \<notin> set (w @ ''.'' @ l)" using n(2) assms(2) by (simp add: leaf_ok_def)
      have "base_name ?p = base_name ((root_slash @ u) @ CHR ''/'' # (w @ ''.'' @ l))" using n by simp
      also have "\<dots> = w @ ''.'' @ l" using base_name_append base_name_leaf [OF w] by metis
      finally show ?thesis using n by (simp add: split_on_app split_on_no_sep)
    next
      case False
      then have w: "CHR ''/'' \<notin> set (n @ ''.'' @ l)" using assms(2) by (simp add: leaf_ok_def)
      have "base_name ?p = base_name (''named'' @ CHR ''/'' # (n @ ''.'' @ l))" by (simp add: root_slash_def)
      also have "\<dots> = n @ ''.'' @ l" using base_name_append base_name_leaf [OF w] by metis
      finally show ?thesis using False by (simp add: split_on_no_sep)
    qed
    moreover have "last (split_on CHR ''/'' n) \<noteq> []" "\<not> has_prefix (last (split_on CHR ''/'' n)) ''.''"
      using assms(1) by (simp_all add: plain_name_def)
    ultimately have "\<not> has_prefix (base_name ?p @ tombstone_suffix) ''.''"
      by (cases "last (split_on CHR ''/'' n)") (auto simp: has_prefix_def)
    then show ?thesis
      unfolding tombstone_of_def base_name_suffix [OF tombstone_no_sep] is_temp_def by blast
  qed
  ultimately show ?thesis by (simp add: clean_path_def)
qed

lemma named_ok_clean: "plain_name n \<Longrightarrow> named_ok clean_path n"
  using clean_plain_path [OF _ leaf_ok_format] clean_plain_path [OF _ leaf_ok_cell]
  by (auto simp: named_ok_def vpath_def cpath_def) code_simp

text \<open>The fixed-width rendering of a sequence number and its strict parser are inverse to each other:
  parsing succeeds exactly on the renderings of numbers below ten to the tenth, so a cell or any
  other leaf is never taken for a version.\<close>

theorem parse_seq_exact: "parse_seq l = Some s \<longleftrightarrow> s < seq_limit \<and> l = format_seq s"
  by (rule parse_seq_iff)

text \<open>C14: concurrent calls of \<^verbatim>\<open>ClaimVersion\<close> on one system name never share a version.  Take any number of calls,
  interleaved at driver-call granularity on the local filesystem with any schedule of I/O failures, while nobody removes
  versions.  A sequence number that was returned belongs to one call, is above every version that was there before, its
  file was new and still holds that call's bytes, and no older file has changed.  A call that is run without interruption from
  any such state is \<^verbatim>\<open>claim_version\<close> itself, so its result obeys the same.\<close>

theorem claim_version_exclusive:
  assumes "(pub_step localfs_driver n body)\<^sup>*\<^sup>* (d, \<lambda>_. Attempt max_claim_attempts) (d', ph)"
    and "plain_name n" and "lfs_inv d" and "lfs_view d named_root = None"
  shows "(\<forall>w w' s p p'. ph w = Done (Inr (s, p)) \<and> ph w' = Done (Inr (s, p')) \<longrightarrow> w = w')
    \<and> (\<forall>w s p. ph w = Done (Inr (s, p)) \<longrightarrow> p = vpath n s \<and> (\<forall>x \<in> present (lfs_view d) n. x < s)
         \<and> lfs_view d p = None \<and> lfs_view d' p = Some (body w))
    \<and> (\<forall>q b. lfs_view d q = Some b \<longrightarrow> lfs_view d' q = Some b)
    \<and> (\<forall>w r d''. ph w = Attempt max_claim_attempts \<and> claim_version localfs_driver d' n (body w) = (r, d'')
         \<longrightarrow> (pub_step localfs_driver n body)\<^sup>*\<^sup>* (d, \<lambda>_. Attempt max_claim_attempts) (d'', ph(w := Done r)))"
proof -
  have "(pub_step localfs_driver n body)\<^sup>*\<^sup>* (d, \<lambda>_. Attempt max_claim_attempts) (d'', ph(w := Done r))"
    if "ph w = Attempt max_claim_attempts" "claim_version localfs_driver d' n (body w) = (r, d'')" for w r d''
    using assms(1) claim_loop_run [where body = body and ph = ph and w = w, OF that(1) that(2) [unfolded claim_version_def]] by (rule rtranclp_trans)
  moreover note lfs.pub_reach_inv [OF assms(1) named_ok_clean [OF assms(2)] assms(3,4)]
  ultimately show ?thesis unfolding pub_inv_def fst_conv snd_conv by blast
qed

lemma sample_fs_facts:
  "lfs_rel sample_fs" "lfs_inv sample_fs" "lfs_view sample_fs p = None"
  by (simp_all add: lfs_rel_def lfs_inv_def sample_fs_def lfs_view_def)

lemma sample_next: "next_seq None = 1" "next_seq None < seq_limit"
  unfolding seq_limit_def seq_width_def by (simp_all add: next_seq_def)

lemma sample_name: "plain_name ''cfg''"
  by code_simp

lemma sample_active: "resolve_active_seq localfs_driver sample_fs ''cfg'' = Inr None"
proof -
  obtain a where a: "resolve_active_seq localfs_driver sample_fs ''cfg'' = Inr a"
    using rlfs.resolve_active_total [OF sample_fs_facts(1) named_ok_clean [OF sample_name]] by blast
  have "present (lfs_view sample_fs) ''cfg'' = {}" by (simp add: present_def sample_fs_facts(3))
  then have "a = None"
    using lfs.resolve_active_ok [OF sample_fs_facts(2) named_ok_clean [OF sample_name] sample_fs_facts(3) a]
    by (auto split: option.splits)
  then show ?thesis using a by simp
qed

lemma sample_race:
  assumes "claim_commit localfs_driver sample_fs (vpath ''cfg'' 1) b = (Inr (), d1)" "lfs_rel d1"
    and "lfs_view d1 = (lfs_view sample_fs)(vpath ''cfg'' 1 \<mapsto> b)"
  obtains d2 where "claim_commit localfs_driver d1 (vpath ''cfg'' 1) c = (Inl ErrAlreadyExists, d2)" "lfs_rel d2"
    "lfs_view d2 = lfs_view d1" "resolve_active_seq localfs_driver d2 ''cfg'' = Inr (Some 1)"
proof -
  note n = named_ok_clean [OF sample_name]
  note v = named_okD(4) [OF n, of 1]
  obtain r d2 where p: "lfs_put d1 (vpath ''cfg'' 1) (c, None) True = (r, d2)" by fastforce
  have r: "r = Inl ErrAlreadyExists" using rlfs.rel_put_exists [OF assms(2) v, of "(c, None)"] assms(3) p by simp
  have d2: "lfs_rel d2" "lfs_view d2 = lfs_view d1"
    using rlfs.rel_keep(1) [OF assms(2) v, of "(c, None)" True]
      lfs.put_exists [OF lfs_rel_inv [OF assms(2)] v, of "(c, None)" True d2] p r by simp_all
  obtain a where a: "resolve_active_seq localfs_driver d2 ''cfg'' = Inr a"
    using rlfs.resolve_active_total [OF d2(1) n] by blast
  have v2: "present (lfs_view d2) ''cfg'' = {1}" "lfs_view d2 named_root = None"
    using sample_next by (auto simp: present_def d2(2) assms(3) sample_fs_facts(3))
  have "a = Some 1"
    using lfs.resolve_active_ok [OF lfs_rel_inv [OF d2(1)] n v2(2) a] v2(1) by (auto split: option.splits)
  then show ?thesis using that p r d2 a by (simp add: claim_commit_def)
qed

text \<open>Calls 0 and 1 read the same maximum; call 0 creates version 1, call 1 loses and is back at the head of its loop, and
  call 2, run in one go, gets version 2.\<close>

theorem claim_version_exclusive_witness:
  "\<exists>d ph. (pub_step localfs_driver ''cfg'' show_nat)\<^sup>*\<^sup>* (sample_fs, \<lambda>_. Attempt max_claim_attempts) (d, ph)
     \<and> ph 0 = Done (Inr (1, vpath ''cfg'' 1)) \<and> ph 1 = Attempt (max_claim_attempts - 1)
     \<and> ph 2 = Done (Inr (2, vpath ''cfg'' 2)) \<and> lfs_view d (vpath ''cfg'' 1) = Some (show_nat 0)
     \<and> lfs_view d (vpath ''cfg'' 2) = Some (show_nat 2)"
proof -
  let ?n = "''cfg''" and ?N = max_claim_attempts and ?D = localfs_driver
  let ?P = "pub_step ?D ?n show_nat" and ?i = "\<lambda>_ :: nat. Attempt max_claim_attempts"
  note n = named_ok_clean [OF sample_name]
  have N: "?N = Suc (?N - 1)" by (simp add: max_claim_attempts_def)
  have rd: "claim_read ?D sample_fs ?n = Inr (1, vpath ?n 1)"
    using sample_active version_path_ok [OF named_okD(2) [OF n]] by (simp add: claim_read_def next_seq_def)
  obtain d1 where d1: "claim_commit ?D sample_fs (vpath ?n 1) (show_nat 0) = (Inr (), d1)" "lfs_rel d1"
      "lfs_view d1 = (lfs_view sample_fs)(vpath ?n 1 \<mapsto> show_nat 0)"
    using rlfs.claim_version_ok [OF sample_fs_facts(1) n sample_fs_facts(3) sample_active sample_next(2), of "show_nat 0"]
    unfolding sample_next(1) by blast
  obtain d2 where d2: "claim_commit ?D d1 (vpath ?n 1) (show_nat 1) = (Inl ErrAlreadyExists, d2)" "lfs_rel d2"
    "lfs_view d2 = lfs_view d1" "resolve_active_seq ?D d2 ?n = Inr (Some 1)" by (rule sample_race [OF d1])
  have v2: "lfs_view d2 named_root = None" "next_seq (Some 1) < seq_limit"
    using d1(3) d2(3) by (simp_all add: sample_fs_facts(3) next_seq_def seq_limit_def seq_width_def)
  obtain d3 where d3: "claim_version ?D d2 ?n (show_nat 2) = (Inr (2, vpath ?n 2), d3)"
    using rlfs.claim_version_ok [OF d2(2) n v2(1) d2(4) v2(2), of "show_nat 2"] by (auto simp: next_seq_def)
  let ?c = "Claiming (?N - 1) 1 (vpath ?n 1)" and ?d = "Done (Inr (1, vpath ?n 1))"
  let ?ph = "?i(0 := ?c, 1 := ?c, 0 := ?d, 1 := Attempt (?N - 1))"
  have s1: "claim_step ?D ?n b sample_fs (Attempt ?N) = (?c, sample_fs)" for b
    by (subst N) (simp only: claim_step.simps rd sum.case prod.case)
  have s2: "claim_step ?D ?n (show_nat 0) sample_fs ?c = (?d, d1)" "claim_step ?D ?n (show_nat 1) d1 ?c = (Attempt (?N - 1), d2)"
    by (simp_all only: claim_step.simps d1(1) d2(1) prod.case sum.case simp_thms if_True)
  have r: "?P\<^sup>*\<^sup>* (sample_fs, ?i) (d2, ?ph)"
  proof -
    have "?P\<^sup>*\<^sup>* (d1, ?i(0 := ?c, 1 := ?c, 0 := ?d)) (d2, ?ph)"
      by (rule pub_step_move [where w = 1, OF _ rtranclp.rtrancl_refl]) (simp only: fun_upd_apply zero_neq_one one_neq_zero simp_thms if_True if_False s2)
    then have "?P\<^sup>*\<^sup>* (sample_fs, ?i(0 := ?c, 1 := ?c)) (d2, ?ph)"
      by (rule pub_step_move [where w = 0, rotated]) (simp only: fun_upd_apply zero_neq_one one_neq_zero simp_thms if_True if_False s2)
    then have "?P\<^sup>*\<^sup>* (sample_fs, ?i(0 := ?c)) (d2, ?ph)"
      by (rule pub_step_move [where w = 1, rotated]) (simp only: fun_upd_apply zero_neq_one one_neq_zero simp_thms if_True if_False s1)
    then show ?thesis by (rule pub_step_move [where w = 0, rotated]) (rule s1)
  qed
  let ?ph' = "?ph(2 := Done (Inr (2, vpath ?n 2)))"
  have ph: "?ph 2 = Attempt ?N" "?ph' 0 = ?d" "?ph' 1 = Attempt (?N - 1)" "?ph' 2 = Done (Inr (2, vpath ?n 2))" by simp_all
  note C = claim_version_exclusive [OF _ sample_name sample_fs_facts(2,3)]
  have R: "?P\<^sup>*\<^sup>* (sample_fs, ?i) (d3, ?ph')"
    by (rule C [OF r, THEN conjunct2, THEN conjunct2, THEN conjunct2, rule_format, OF conjI, OF ph(1) d3])
  note V = C [OF R, THEN conjunct2, THEN conjunct1, rule_format]
  show ?thesis using R ph(2-4) V [OF ph(2)] V [OF ph(4)] by blast
qed

text \<open>An uncontended \<^verbatim>\<open>ClaimVersion\<close> publishes the successor of the highest version, touches no other
  file, and the published version becomes the active one; the claim returns within its attempt bound.\<close>

theorem claim_version_publishes:
  assumes "lfs_rel d" and "plain_name n" and "lfs_view d named_root = None"
    and "resolve_active_seq localfs_driver d n = Inr a" and "next_seq a < seq_limit"
  shows "\<exists>d'. claim_version localfs_driver d n body = (Inr (next_seq a, vpath n (next_seq a)), d')
    \<and> lfs_view d' = (lfs_view d)(vpath n (next_seq a) \<mapsto> body)
    \<and> resolve_active_seq localfs_driver d' n = Inr (Some (next_seq a))"
  using rlfs.claim_version_ok [OF assms(1) named_ok_clean [OF assms(2)] assms(3-5), of body] by blast

theorem claim_version_publishes_witness:
  "\<exists>d'. claim_version localfs_driver sample_fs ''cfg'' ''body'' = (Inr (1, vpath ''cfg'' 1), d')
    \<and> resolve_active_seq localfs_driver d' ''cfg'' = Inr (Some 1)"
  using claim_version_publishes [OF sample_fs_facts(1) sample_name sample_fs_facts(3) sample_active
      sample_next(2), of "''body''"]
  unfolding sample_next(1) by blast

text \<open>C28: pruning never removes or changes the active version of a name, whatever number of versions is to
  be kept and whichever removals fail.\<close>

theorem prune_spares_active:
  assumes "lfs_inv d" and "plain_name n" and "lfs_view d named_root = None"
    and "resolve_active_seq localfs_driver d n = Inr (Some m)"
  shows "lfs_view (snd (prune localfs_driver d n keep)) (vpath n m) = lfs_view d (vpath n m)
    \<and> lfs_view d (vpath n m) \<noteq> None"
proof -
  note n = named_ok_clean [OF assms(2)]
  have "m \<in> present (lfs_view d) n" "\<forall>x \<in> present (lfs_view d) n. x \<le> m"
    using lfs.resolve_active_ok [OF assms(1) n assms(3,4)] by auto
  then show ?thesis
    using lfs.prune_keeps_active [OF assms(1) n assms(3)] by (simp add: present_def)
qed

theorem prune_spares_active_witness:
  "\<exists>d. resolve_active_seq localfs_driver d ''cfg'' = Inr (Some 1)
    \<and> lfs_view (snd (prune localfs_driver d ''cfg'' 0)) (vpath ''cfg'' 1) \<noteq> None"
proof -
  note n = named_ok_clean [OF sample_name]
  obtain d where d: "lfs_view d = (lfs_view sample_fs)(vpath ''cfg'' 1 \<mapsto> ''b'')" "lfs_rel d"
      "resolve_active_seq localfs_driver d ''cfg'' = Inr (Some 1)"
    using rlfs.claim_version_ok [OF sample_fs_facts(1) n sample_fs_facts(3) sample_active sample_next(2),
        of "''b''"]
    unfolding sample_next(1) by blast
  have "lfs_view d named_root = None"
    by (simp add: d(1) sample_fs_facts(3) vpath_def root_slash_def named_root_def)
  from prune_spares_active [OF lfs_rel_inv [OF d(2)] sample_name this d(3), of 0] d(3)
  show ?thesis by metis
qed

end
