(* ===== verification/Manifest_Header.thy ===== *)
theory Manifest_Header
  imports Domain
begin

text \<open>
  The manifest file header (\<^verbatim>\<open>engine/artifact/header.go\<close>) and the structural checks that run before a
  manifest is serialised (\<^verbatim>\<open>engine/artifact/validate.go\<close>).  \<open>valid_utf8\<close> is Go's
  \<^verbatim>\<open>utf8.ValidString\<close>.
\<close>

datatype manifest_encoding = EncodingUnset | EncodingJSON | EncodingBinary | EncodingOther string

datatype manifest_crypto = CryptoUnset | CryptoPlain | CryptoSealed | CryptoParanoid
  | CryptoOther string

definition magic_json :: bytes where
  "magic_json = [CHR 0x00, CHR ''S'', CHR ''C'', CHR ''1'']"

definition magic_binary :: bytes where
  "magic_binary = [CHR 0x00, CHR ''S'', CHR ''C'', CHR ''2'']"

definition flag_plain :: char where "flag_plain = CHR 0x00"
definition flag_sealed :: char where "flag_sealed = CHR 0x01"
definition flag_paranoid :: char where "flag_paranoid = CHR 0x02"

record file_header =
  fh_encoding :: manifest_encoding
  fh_crypto :: manifest_crypto
  fh_key_id :: string

text \<open>UTF-8 validity, byte by byte: no overlong forms, no surrogates, nothing above U+10FFFF.\<close>

definition in_range :: "nat \<Rightarrow> nat \<Rightarrow> char \<Rightarrow> bool" where
  "in_range lo hi c = (lo \<le> (of_char c :: nat) \<and> (of_char c :: nat) \<le> hi)"

function valid_utf8 :: "string \<Rightarrow> bool" where
  "valid_utf8 [] = True"
| "valid_utf8 (c # s) =
     (if in_range 0 127 c then valid_utf8 s
      else if in_range 194 223 c then
        (case s of a # t \<Rightarrow> in_range 128 191 a \<and> valid_utf8 t | _ \<Rightarrow> False)
      else if in_range 224 239 c then
        (case s of a # b # t \<Rightarrow>
           in_range (if in_range 224 224 c then 160 else 128) (if in_range 237 237 c then 159 else 191) a
             \<and> in_range 128 191 b \<and> valid_utf8 t
         | _ \<Rightarrow> False)
      else if in_range 240 244 c then
        (case s of a # b # d # t \<Rightarrow>
           in_range (if in_range 240 240 c then 144 else 128) (if in_range 244 244 c then 143 else 191) a
             \<and> in_range 128 191 b \<and> in_range 128 191 d \<and> valid_utf8 t
         | _ \<Rightarrow> False)
      else False)"
  by pat_completeness auto
termination by (relation "measure length") auto

definition encoding_magic :: "manifest_encoding \<Rightarrow> bytes res" where
  "encoding_magic e = (case e of
      EncodingUnset \<Rightarrow> Inr magic_json
    | EncodingJSON \<Rightarrow> Inr magic_json
    | EncodingBinary \<Rightarrow> Inl ErrUnsupportedEncoding
    | EncodingOther _ \<Rightarrow> Inl ErrUnsupportedEncoding)"

definition magic_encoding :: "bytes \<Rightarrow> manifest_encoding res" where
  "magic_encoding magic =
     (if magic = magic_json then Inr EncodingJSON
      else if magic = magic_binary then Inl ErrUnsupportedEncoding
      else Inl (ErrMsg ''unknown magic''))"

definition crypto_flag :: "manifest_crypto \<Rightarrow> char res" where
  "crypto_flag c = (case c of
      CryptoUnset \<Rightarrow> Inr flag_plain
    | CryptoPlain \<Rightarrow> Inr flag_plain
    | CryptoSealed \<Rightarrow> Inr flag_sealed
    | CryptoParanoid \<Rightarrow> Inr flag_paranoid
    | CryptoOther _ \<Rightarrow> Inl ErrUnsupportedCrypto)"

definition crypto_from_flag :: "char \<Rightarrow> manifest_crypto res" where
  "crypto_from_flag f =
     (if f = flag_plain then Inr CryptoPlain
      else if f = flag_sealed then Inr CryptoSealed
      else if f = flag_paranoid then Inr CryptoParanoid
      else Inl ErrUnsupportedCrypto)"

definition write_header :: "file_header \<Rightarrow> bytes res" where
  "write_header h =
     (case encoding_magic (fh_encoding h) of
        Inl e \<Rightarrow> Inl e
      | Inr magic \<Rightarrow>
     (case crypto_flag (fh_crypto h) of
        Inl e \<Rightarrow> Inl e
      | Inr flag \<Rightarrow>
          if flag = flag_plain then
            (if fh_key_id h \<noteq> [] then Inl (ErrMsg ''KeyID set under Plain crypto'')
             else Inr (magic @ [flag]))
          else if length (fh_key_id h) > max_key_id_length then Inl ErrInvalidConfig
          else if \<not> valid_utf8 (fh_key_id h) then Inl ErrInvalidConfig
          else Inr (magic @ [flag] @ [char_of (length (fh_key_id h))] @ fh_key_id h)))"

definition read_header :: "bytes \<Rightarrow> (file_header \<times> nat) res" where
  "read_header data =
     (if length data < 5 then Inl (ErrMsg ''file too short'')
      else case magic_encoding (take 4 data) of
        Inl e \<Rightarrow> Inl e
      | Inr enc \<Rightarrow>
     (case crypto_from_flag (data ! 4) of
        Inl e \<Rightarrow> Inl e
      | Inr crypto \<Rightarrow>
          if crypto = CryptoPlain then
            Inr (\<lparr> fh_encoding = enc, fh_crypto = crypto, fh_key_id = [] \<rparr>, 5)
          else if length data < 6 then Inl (ErrMsg ''file truncated before KeyID length'')
          else let header_end = 6 + of_char (data ! 5) in
            if length data < header_end then Inl (ErrMsg ''file truncated inside KeyID'')
            else let key_id = take (header_end - 6) (drop 6 data) in
              if \<not> valid_utf8 key_id then Inl (ErrMsg ''KeyID is not valid UTF-8'')
              else Inr (\<lparr> fh_encoding = enc, fh_crypto = crypto, fh_key_id = key_id \<rparr>, header_end)))"

subsection \<open>Structural validation\<close>

fun check_handles :: "string list \<Rightarrow> string list \<Rightarrow> unit res" where
  "check_handles seen [] = Inr ()"
| "check_handles seen (r # rs) =
     (if r = [] then Inl ErrInvalidHandleRef
      else if r \<in> set seen then Inl ErrInvalidHandleRef
      else check_handles (r # seen) rs)"

definition check_handle_refs :: "manifest \<Rightarrow> unit res" where
  "check_handle_refs m = check_handles [] (handle_refs m)"

definition check_ref_limits :: "manifest \<Rightarrow> unit res" where
  "check_ref_limits m =
     (if length (blob_refs m) > max_blob_refs \<or> length (handle_refs m) > max_handle_refs
      then Inl ErrTooManyRefs
      else check_handle_refs m)"

definition validate_slot :: "manifest \<Rightarrow> unit res" where
  "validate_slot m = (let
       has_handle = artifact_id m \<noteq> [];
       has_name = name m \<noteq> [];
       has_identity_meta = identity_meta_hash m \<noteq> [] \<or> identity_nonce m \<noteq> [];
       coherent = (if blob_storage m = layout_inline \<and> blob_refs m \<noteq> []
                   then Inl ErrInvalidManifestSlot else Inr ())
     in
       if has_handle \<and> has_name then Inl ErrInvalidManifestSlot
       else if has_handle then
         (if \<not> has_identity_meta then Inl ErrInvalidManifestSlot else coherent)
       else if has_name then
         (if inline_blob m = [] then Inl ErrInvalidManifestSlot
          else if blob_storage m \<noteq> layout_inline then Inl ErrInvalidManifestSlot
          else if has_identity_meta then Inl ErrInvalidManifestSlot
          else coherent)
       else
         (if blob_refs m = [] then Inl ErrInvalidManifestSlot
          else if inline_blob m \<noteq> [] then Inl ErrInvalidManifestSlot
          else if has_identity_meta then Inl ErrInvalidManifestSlot
          else coherent))"

subsection \<open>Lemmas\<close>

lemmas flag_defs = flag_plain_def flag_sealed_def flag_paranoid_def

text \<open>The header with its defaults resolved, as the reader reports it.\<close>

definition normal_header :: "file_header \<Rightarrow> file_header" where
  "normal_header h = h \<lparr> fh_encoding := EncodingJSON,
     fh_crypto := (if fh_crypto h = CryptoUnset then CryptoPlain else fh_crypto h) \<rparr>"

lemma crypto_flag_roundtrip:
  "crypto_flag c = Inr f \<Longrightarrow>
    crypto_from_flag f = Inr (if c = CryptoUnset then CryptoPlain else c)"
  by (cases c) (auto simp: crypto_flag_def crypto_from_flag_def flag_defs)

lemma crypto_flag_plain_iff:
  "crypto_flag c = Inr f \<Longrightarrow> f = flag_plain \<longleftrightarrow> c = CryptoUnset \<or> c = CryptoPlain"
  by (cases c) (auto simp: crypto_flag_def flag_defs)

lemma crypto_from_flag_inv:
  "crypto_from_flag f = Inr c \<Longrightarrow> crypto_flag c = Inr f \<and> c \<noteq> CryptoUnset"
  by (auto simp: crypto_flag_def crypto_from_flag_def split: if_splits)

lemma write_header_okD:
  assumes "write_header h = Inr b"
  obtains f where "crypto_flag (fh_crypto h) = Inr f"
    "encoding_magic (fh_encoding h) = Inr magic_json"
    "b = magic_json @ [f] @ (if f = flag_plain then []
        else char_of (length (fh_key_id h)) # fh_key_id h)"
    "f = flag_plain \<Longrightarrow> fh_key_id h = []"
    "f \<noteq> flag_plain \<Longrightarrow> length (fh_key_id h) \<le> 255 \<and> valid_utf8 (fh_key_id h)"
  using assms
  by (auto simp: write_header_def max_key_id_length_def encoding_magic_def
      split: sum.splits if_splits manifest_encoding.splits)

lemma read_header_write:
  assumes "write_header h = Inr b"
  shows "read_header (b @ body) = Inr (normal_header h, length b)"
proof -
  obtain f where f: "crypto_flag (fh_crypto h) = Inr f"
    "b = magic_json @ [f] @ (if f = flag_plain then []
        else char_of (length (fh_key_id h)) # fh_key_id h)"
    "f = flag_plain \<Longrightarrow> fh_key_id h = []"
    "f \<noteq> flag_plain \<Longrightarrow> length (fh_key_id h) \<le> 255 \<and> valid_utf8 (fh_key_id h)"
    using assms by (rule write_header_okD) blast
  note r = crypto_flag_roundtrip [OF f(1)] crypto_flag_plain_iff [OF f(1)]
  have m: "take 4 (magic_json @ x) = magic_json" "(magic_json @ c # x) ! 4 = c"
    "(magic_json @ c # e # x) ! 5 = e" "drop 6 (magic_json @ c # e # x) = x"
    "length magic_json = 4" "magic_encoding magic_json = Inr EncodingJSON" for c e x
    by (simp_all add: magic_json_def magic_encoding_def)
  show ?thesis
  proof (cases "f = flag_plain")
    case True
    then show ?thesis
      using f(2,3) r by (auto simp: read_header_def m normal_header_def)
  next
    case False
    then have "length (fh_key_id h) mod 256 = length (fh_key_id h)" "valid_utf8 (fh_key_id h)"
      using f(4) by auto
    then show ?thesis
      using False f(2) r by (simp add: read_header_def m normal_header_def Let_def)
  qed
qed

lemma length_ge_Cons6:
  "6 \<le> length d \<Longrightarrow> \<exists>a b c e f g r. d = a # b # c # e # f # g # r"
  by (simp add: numeral_eq_Suc Suc_le_length_iff) blast

lemma take_drop_header:
  assumes "n + 6 \<le> length d"
  shows "take (6 + n) d = take 4 d @ [d ! 4, d ! 5] @ take n (drop 6 d)"
proof -
  obtain a b c e f g r where "d = a # b # c # e # f # g # r"
    using length_ge_Cons6 assms by (metis add_leE)
  then show ?thesis by (simp add: numeral_eq_Suc)
qed

lemma read_header_canonical:
  assumes "read_header d = Inr (h, off)"
  shows "off \<le> length d \<and> write_header h = Inr (take off d)"
proof -
  obtain en cr k where h: "h = \<lparr> fh_encoding = en, fh_crypto = cr, fh_key_id = k \<rparr>"
    by (cases h)
  have l: "\<not> length d < 5" using assms by (auto simp: read_header_def)
  have m: "take 4 d = magic_json" "fh_encoding h = EncodingJSON"
    using assms
    by (auto simp: h read_header_def magic_encoding_def Let_def split: if_splits sum.splits)
  obtain c where c: "crypto_from_flag (d ! 4) = Inr c" "fh_crypto h = c"
    using assms by (auto simp: h read_header_def Let_def split: if_splits sum.splits)
  note ci = crypto_from_flag_inv [OF c(1)]
  show ?thesis
  proof (cases "c = CryptoPlain")
    case True
    then have "off = 5" "fh_key_id h = []"
      using assms c by (auto simp: h read_header_def Let_def split: if_splits sum.splits)
    moreover have "take 5 d = magic_json @ [d ! 4]"
      using l m take_Suc_conv_app_nth [of 4 d] by (simp add: numeral_eq_Suc)
    ultimately show ?thesis
      using l m c ci True
      by (auto simp: write_header_def encoding_magic_def crypto_flag_def)
  next
    case False
    then have o: "off = 6 + of_char (d ! 5)" "off \<le> length d"
        "fh_key_id h = take (off - 6) (drop 6 d)" "valid_utf8 (fh_key_id h)"
      using assms c by (auto simp: h read_header_def Let_def split: if_splits sum.splits)
    then have "length (fh_key_id h) = of_char (d ! 5)" by simp
    moreover have "take off d = magic_json @ [d ! 4, d ! 5] @ fh_key_id h"
      using take_drop_header [of "of_char (d ! 5)" d] o m by simp
    moreover have "d ! 4 \<noteq> flag_plain"
      using ci False crypto_flag_plain_iff by blast
    moreover have "\<not> 255 < (of_char (d ! 5) :: nat)"
      using of_char_lt [of "d ! 5"] by linarith
    ultimately show ?thesis
      using o m c ci
      by (simp add: write_header_def encoding_magic_def max_key_id_length_def)
  qed
qed

lemma check_handles_ok:
  "check_handles seen rs = Inr () \<longleftrightarrow> [] \<notin> set rs \<and> distinct rs \<and> set seen \<inter> set rs = {}"
  by (induction seen rs rule: check_handles.induct) auto

lemma validate_slot_user:
  "validate_slot m = Inr () \<Longrightarrow> is_user m \<Longrightarrow>
     name m = [] \<and> (identity_meta_hash m \<noteq> [] \<or> identity_nonce m \<noteq> [])
     \<and> (blob_storage m = layout_inline \<longrightarrow> blob_refs m = [])"
  by (auto simp: validate_slot_def is_user_def Let_def split: if_splits)

text \<open>C29: writing a manifest file header and reading it back yields the header with its defaults
  resolved and the exact offset of the body, whatever body follows; conversely a header the reader
  accepts is exactly the bytes the writer produces for it, so the header format is canonical.\<close>

theorem header_roundtrip:
  "(\<forall>h b body. write_header h = Inr b \<longrightarrow> read_header (b @ body) = Inr (normal_header h, length b))
   \<and> (\<forall>d h off. read_header d = Inr (h, off) \<longrightarrow> write_header h = Inr (take off d))"
  using read_header_write read_header_canonical by blast

theorem header_roundtrip_witness:
  "read_header ([CHR 0x00, CHR ''S'', CHR ''C'', CHR ''1'', CHR 0x01, CHR 0x02] @ ''k1'' @ ''{}'')
     = Inr (\<lparr> fh_encoding = EncodingJSON, fh_crypto = CryptoSealed, fh_key_id = ''k1'' \<rparr>, 8)"
proof -
  let ?h = "\<lparr> fh_encoding = EncodingUnset, fh_crypto = CryptoSealed, fh_key_id = ''k1'' \<rparr>"
  have "write_header ?h =
      Inr ([CHR 0x00, CHR ''S'', CHR ''C'', CHR ''1'', CHR 0x01, CHR 0x02] @ ''k1'')"
    by code_simp
  from header_roundtrip [THEN conjunct1, rule_format, OF this, of "''{}''"] show ?thesis
    by (simp add: normal_header_def)
qed

text \<open>The slot check accepts a manifest exactly when it is one of the three kinds with the
  structure of its kind: a user artifact has identity metadata, a system artifact is inline with a
  payload and no identity metadata, a container has blobs, no inline payload and no identity
  metadata; and an inline manifest never lists blobs.\<close>

theorem validate_slot_iff:
  "validate_slot m = Inr () \<longleftrightarrow>
     \<not> (is_user m \<and> is_system m)
     \<and> (is_user m = (identity_meta_hash m \<noteq> [] \<or> identity_nonce m \<noteq> []))
     \<and> (if is_system m then inline_blob m \<noteq> [] \<and> blob_storage m = layout_inline else True)
     \<and> (if is_container m then blob_refs m \<noteq> [] \<and> inline_blob m = [] else True)
     \<and> (if blob_storage m = layout_inline then blob_refs m = [] else True)"
  by (auto simp: validate_slot_def is_user_def is_system_def is_container_def Let_def)

definition sample_container :: manifest where
  "sample_container = \<lparr> artifact_id = [], name = [], digest = [], identity_meta_hash = [],
     identity_nonce = [], session_id = ''s'', created_at = 1, content_hash = [], original_size = 0,
     hash_algo = ''sha256'', blob_refs = [''00aa'', ''00bb''], handle_refs = [],
     blob_storage = layout_target, pipeline = [], inline_blob = [], retention_until = 0,
     key_id = [], ext = [], usr = [] \<rparr>"

theorem validate_slot_iff_witness:
  "validate_slot sample_container = Inr ()
   \<and> validate_slot (sample_container \<lparr> blob_storage := layout_inline \<rparr>) \<noteq> Inr ()
   \<and> validate_slot (sample_container \<lparr> identity_nonce := ''n'' \<rparr>) \<noteq> Inr ()"
  unfolding validate_slot_iff
  by (simp add: sample_container_def is_user_def is_system_def is_container_def)

end
