(* ===== verification/Hashing.thy ===== *)
theory Hashing
  imports Prelude
begin

text \<open>
  \<^verbatim>\<open>engine/hashing/hashing.go\<close>: the hash registry, the textual form \<^verbatim>\<open><algo>-<hex>\<close> of a digest and
  the floating artifact handle; and Go's standard base64 encoding (\<^verbatim>\<open>encoding/base64\<close>), which the
  manifest body uses for its binary fields.

  A registry maps an algorithm name to the function from the bytes written to a hasher to its sum.
  The hash functions themselves are parameters of the model.
\<close>

type_synonym hash_fun = "bytes \<Rightarrow> bytes"
type_synonym hash_registry = "string \<Rightarrow> hash_fun option"

definition hash_register :: "string \<Rightarrow> hash_fun \<Rightarrow> hash_registry \<Rightarrow> hash_registry" where
  "hash_register algo fn r = r(algo \<mapsto> fn)"

definition new_hasher :: "hash_registry \<Rightarrow> string \<Rightarrow> hash_fun res" where
  "new_hasher r algo = (case r algo of None \<Rightarrow> Inl ErrUnsupportedAlgorithm | Some h \<Rightarrow> Inr h)"

definition hash_parse :: "string \<Rightarrow> (string \<times> bytes) res" where
  "hash_parse h =
     (let algo = takeWhile (\<lambda>c. c \<noteq> CHR ''-'') h; rest = dropWhile (\<lambda>c. c \<noteq> CHR ''-'') h in
      if rest = [] \<or> algo = [] \<or> tl rest = [] then Inl (ErrMsg ''invalid hash format'')
      else case hex_decode (tl rest) of
        None \<Rightarrow> Inl (ErrMsg ''invalid hash hex part'')
      | Some raw \<Rightarrow> Inr (algo, raw))"

definition hash_format :: "string \<Rightarrow> bytes \<Rightarrow> string" where
  "hash_format algo raw = algo @ ''-'' @ hex_encode raw"

definition naming_key_public :: bytes where
  "naming_key_public = ''scrinium/artifact-id/v1''"

definition handle_of :: "hash_registry \<Rightarrow> string \<Rightarrow> bytes \<Rightarrow> string \<Rightarrow> string \<Rightarrow> bytes \<Rightarrow> string res" where
  "handle_of r algo nk cd md nonce =
     (case hex_decode cd of
        None \<Rightarrow> Inl (ErrMsg ''decode cd'')
      | Some cd_raw \<Rightarrow>
     (case hash_parse md of
        Inl e \<Rightarrow> Inl e
      | Inr (_, md_raw) \<Rightarrow>
     (case new_hasher r algo of
        Inl e \<Rightarrow> Inl e
      | Inr h \<Rightarrow> Inr (hash_format algo (h (nk @ cd_raw @ md_raw @ nonce))))))"

subsection \<open>Base64\<close>

definition b64_char :: "nat \<Rightarrow> char" where
  "b64_char n = (if n < 26 then char_of (65 + n) else if n < 52 then char_of (71 + n)
     else if n < 62 then char_of (n - 4) else if n = 62 then CHR ''+'' else CHR ''/'')"

definition b64_index :: "char \<Rightarrow> nat option" where
  "b64_index c = (let k = of_char c :: nat in
     if 65 \<le> k \<and> k \<le> 90 then Some (k - 65)
     else if 97 \<le> k \<and> k \<le> 122 then Some (k - 71)
     else if 48 \<le> k \<and> k \<le> 57 then Some (k + 4)
     else if k = 43 then Some 62
     else if k = 47 then Some 63
     else None)"

fun b64_encode :: "bytes \<Rightarrow> string" where
  "b64_encode [] = []"
| "b64_encode [x] = (let a = of_char x in
     [b64_char (a div 4), b64_char (a mod 4 * 16), CHR ''='', CHR ''=''])"
| "b64_encode [x, y] = (let a = of_char x; b = of_char y in
     [b64_char (a div 4), b64_char (a mod 4 * 16 + b div 16), b64_char (b mod 16 * 4), CHR ''=''])"
| "b64_encode (x # y # z # r) = (let a = of_char x; b = of_char y; c = of_char z in
     b64_char (a div 4) # b64_char (a mod 4 * 16 + b div 16) #
     b64_char (b mod 16 * 4 + c div 64) # b64_char (c mod 64) # b64_encode r)"

fun b64_groups :: "string \<Rightarrow> bytes option" where
  "b64_groups [] = Some []"
| "b64_groups (p # q # r # s # t) =
     (case (b64_index p, b64_index q) of
        (Some i, Some j) \<Rightarrow>
          (if r = CHR ''='' then
             (if s = CHR ''='' \<and> t = [] then Some [char_of (i * 4 + j div 16)] else None)
           else case b64_index r of
             None \<Rightarrow> None
           | Some k \<Rightarrow>
               (if s = CHR ''='' then
                  (if t = [] then Some [char_of (i * 4 + j div 16), char_of (j mod 16 * 16 + k div 4)]
                   else None)
                else case (b64_index s, b64_groups t) of
                  (Some l, Some rest) \<Rightarrow>
                    Some (char_of (i * 4 + j div 16) # char_of (j mod 16 * 16 + k div 4) #
                          char_of (k mod 4 * 64 + l) # rest)
                | _ \<Rightarrow> None))
      | _ \<Rightarrow> None)"
| "b64_groups _ = None"

definition b64_decode :: "string \<Rightarrow> bytes option" where
  "b64_decode s = b64_groups (filter (\<lambda>c. c \<noteq> CHR 0x0A \<and> c \<noteq> CHR 0x0D) s)"

lemma b64_index_char [simp]: "n < 64 \<Longrightarrow> b64_index (b64_char n) = Some n"
  by (auto simp: b64_index_def b64_char_def Let_def)

lemma b64_char_neq: "b64_index c = None \<Longrightarrow> n < 64 \<Longrightarrow> b64_char n \<noteq> c"
  by (metis b64_index_char option.distinct(1))

lemma b64_index_None [simp]:
  "b64_index CHR ''='' = None" "b64_index CHR 0x0A = None" "b64_index CHR 0x0D = None"
  by (simp_all add: b64_index_def)

lemmas b64_char_plain [simp] = b64_index_None [THEN b64_char_neq]

lemma sixbit [simp]:
  "(of_char x :: nat) div 4 < 64" "(of_char x :: nat) mod 4 * 16 < 64"
  "(of_char x :: nat) mod 4 * 16 + of_char y div 16 < 64"
  "(of_char x :: nat) mod 16 * 4 < 64" "(of_char x :: nat) mod 16 * 4 + of_char y div 64 < 64"
proof -
  have h: "(of_char x :: nat) < 256" "(of_char y :: nat) < 256" by simp_all
  show "(of_char x :: nat) div 4 < 64" using h by linarith
  have "(of_char x :: nat) mod 4 < 4" "(of_char y :: nat) div 16 < 16" "(of_char x :: nat) mod 16 < 16"
    by simp_all
  moreover have "(of_char y :: nat) div 64 < 4"
    using h(2) by linarith
  ultimately show "(of_char x :: nat) mod 4 * 16 < 64" "(of_char x :: nat) mod 4 * 16 + of_char y div 16 < 64"
    "(of_char x :: nat) mod 16 * 4 < 64" "(of_char x :: nat) mod 16 * 4 + of_char y div 64 < 64"
    by linarith+
qed

lemma radix_split: "(y :: nat) < k \<Longrightarrow> (x * k + y) div k = x" "(y :: nat) < k \<Longrightarrow> (x * k + y) mod k = y"
  by (simp_all add: div_mult_self3)

lemma sixbit_join [simp]:
  "(of_char x :: nat) div 4 * 4 + (of_char x mod 4 * 16 + of_char y div 16) div 16 = of_char x"
  "(of_char x mod 4 * 16 + of_char y div 16) mod 16 * 16 + (of_char y mod 16 * 4 + of_char z div 64) div 4
     = (of_char y :: nat)"
  "(of_char x mod 4 * 16 + of_char y div 16) mod 16 * 16 + (of_char y mod 16 * 4) div 4 = (of_char y :: nat)"
  "(of_char y mod 16 * 4 + of_char z div 64) mod 4 * 64 + of_char z mod 64 = (of_char z :: nat)"
proof -
  have "(of_char y :: nat) div 16 < 16" by simp
  moreover have "(of_char z :: nat) div 64 < 4" using of_char_lt [of z] by linarith
  ultimately show
    "(of_char x :: nat) div 4 * 4 + (of_char x mod 4 * 16 + of_char y div 16) div 16 = of_char x"
    "(of_char x mod 4 * 16 + of_char y div 16) mod 16 * 16 + (of_char y mod 16 * 4 + of_char z div 64) div 4
      = (of_char y :: nat)"
    "(of_char x mod 4 * 16 + of_char y div 16) mod 16 * 16 + (of_char y mod 16 * 4) div 4 = (of_char y :: nat)"
    "(of_char y mod 16 * 4 + of_char z div 64) mod 4 * 64 + of_char z mod 64 = (of_char z :: nat)"
    by (simp_all only: radix_split nonzero_mult_div_cancel_right div_mult_mod_eq)
qed

lemma div64 [simp]: "(of_char z :: nat) div 64 div 4 = 0" "(of_char z :: nat) div 64 mod 4 = of_char z div 64"
proof -
  have "(of_char z :: nat) div 64 < 4" using of_char_lt [of z] by linarith
  then show "(of_char z :: nat) div 64 div 4 = 0" "(of_char z :: nat) div 64 mod 4 = of_char z div 64"
    by simp_all
qed

lemma b64_no_eol: "c \<in> set (b64_encode b) \<Longrightarrow> c \<noteq> CHR 0x0A \<and> c \<noteq> CHR 0x0D"
  by (induction b rule: b64_encode.induct) (auto simp: Let_def)

lemma b64_groups_encode: "b64_groups (b64_encode b) = Some b"
  by (induction b rule: b64_encode.induct) (simp_all add: Let_def)

lemma b64_decode_encode [codec_simps, simp]: "b64_decode (b64_encode b) = Some b"
  using b64_no_eol [of _ b] by (simp add: b64_decode_def b64_groups_encode cong: filter_cong)

lemma b64_encode_Nil [simp]: "b64_encode b = [] \<longleftrightarrow> b = []"
  by (induction b rule: b64_encode.induct) (auto simp: Let_def)

subsection \<open>Lemmas\<close>

lemma hash_parse_format:
  assumes "CHR ''-'' \<notin> set algo" and "algo \<noteq> []" and "raw \<noteq> []"
  shows "hash_parse (hash_format algo raw) = Inr (algo, raw)"
proof -
  have t: "takeWhile (\<lambda>c. c \<noteq> CHR ''-'') (algo @ CHR ''-'' # r) = algo" for r
    using assms(1) by (subst takeWhile_append2) auto
  have d: "dropWhile (\<lambda>c. c \<noteq> CHR ''-'') (algo @ CHR ''-'' # r) = CHR ''-'' # r" for r
    using assms(1) by (subst dropWhile_append2) auto
  have "hex_encode raw \<noteq> []"
    using assms(3) by (metis length_hex_encode length_0_conv mult_is_0 zero_neq_numeral)
  then show ?thesis
    using assms by (simp add: hash_parse_def hash_format_def t d Let_def)
qed

lemma handle_of_ok:
  assumes "r algo = Some h" "hash_parse md = Inr (a, md_raw)" "hex_decode cd = Some cd_raw"
  shows "handle_of r algo nk cd md nonce = Inr (hash_format algo (h (nk @ cd_raw @ md_raw @ nonce)))"
  using assms by (simp add: handle_of_def new_hasher_def)

end
