(* ===== verification/Manifest_Codec.thy ===== *)
theory Manifest_Codec
  imports Manifest_Header Hashing
begin

text \<open>
  The manifest codec: the wire structs of \<^verbatim>\<open>engine/artifact/body.go\<close>, the Sealed and Paranoid body
  encryption of \<^verbatim>\<open>crypto.go\<close>, the facade of \<^verbatim>\<open>manifest.go\<close>, the handle computation of
  \<^verbatim>\<open>handle.go\<close> and \<^verbatim>\<open>engine/internal/timefmt\<close>.

  Three things are parameters: the JSON text codec (\<open>json_codec\<close>: struct to text and back), the
  AES-GCM primitive (\<open>cipher\<close>) and the hash functions of the registry.  The theorems name what they
  use of them as hypotheses (\<open>json_faithful\<close>, \<open>aead_correct\<close>, \<open>key_committing\<close>).
  Random nonces are arguments.
\<close>

subsection \<open>Timestamps\<close>

text \<open>A timestamp field of the body: empty, a well-formed RFC 3339 text denoting an instant, or some
  other text.\<close>

datatype timestamp = TsEmpty | TsRFC3339 time | TsMalformed string

definition second :: nat where "second = 1000000000"

definition time_format :: "time \<Rightarrow> timestamp" where
  "time_format t = (if t = 0 then TsEmpty else TsRFC3339 (t - t mod second))"

definition time_parse :: "timestamp \<Rightarrow> time res" where
  "time_parse s = (case s of
      TsEmpty \<Rightarrow> Inr 0
    | TsRFC3339 t \<Rightarrow> Inr t
    | TsMalformed _ \<Rightarrow> Inl (ErrMsg ''parse time''))"

definition trunc_second :: "time \<Rightarrow> time" where
  "trunc_second t = t - t mod second"

lemma time_parse_format [simp]: "time_parse (time_format t) = Inr (trunc_second t)"
  by (simp add: time_parse_def time_format_def trunc_second_def)

subsection \<open>Wire structs\<close>

record json_stage =
  js_algorithm :: string
  js_hash :: string
  js_iv :: string
  js_key_id :: string

record json_sys =
  sys_artifact_id :: string
  sys_blob_refs :: "string list"
  sys_content_hash :: string
  sys_created_at :: timestamp
  sys_handle_refs :: "string list"
  sys_hash_algo :: string
  sys_identity_meta_hash :: string
  sys_identity_nonce :: string
  sys_blob_storage :: string
  sys_original_size :: "int option"
  sys_pipeline :: "json_stage list"
  sys_retention_until :: timestamp
  sys_schema_version :: int
  sys_session_id :: string

record json_body =
  jb_ext :: bytes
  jb_inline_blob :: string
  jb_sys :: json_sys
  jb_usr :: bytes

definition schema_version :: int where "schema_version = 1"

text \<open>The text codec: \<open>jc_marshal\<close> is \<^verbatim>\<open>json.Marshal\<close> of the struct, \<open>jc_decode\<close> is
  \<^verbatim>\<open>Decoder.Decode\<close> with unknown fields refused, paired with \<^verbatim>\<open>Decoder.More\<close>, and \<open>jc_string\<close> is
  \<^verbatim>\<open>json.Unmarshal\<close> into a string.\<close>

record json_codec =
  jc_marshal :: "json_body \<Rightarrow> bytes res"
  jc_decode :: "bytes \<Rightarrow> (json_body \<times> bool) option"
  jc_string :: "bytes \<Rightarrow> string option"

definition b64_field :: "bytes \<Rightarrow> string" where
  "b64_field b = (if b \<noteq> [] then b64_encode b else [])"

definition stage_to_json :: "pipeline_stage \<Rightarrow> json_stage" where
  "stage_to_json s = \<lparr> js_algorithm = ps_algorithm s, js_hash = ps_hash s,
     js_iv = b64_field (ps_iv s), js_key_id = ps_key_id s \<rparr>"

definition pipeline_to_json :: "pipeline_stage list \<Rightarrow> json_stage list" where
  "pipeline_to_json stages = map stage_to_json stages"

fun pipeline_from_json :: "json_stage list \<Rightarrow> pipeline_stage list res" where
  "pipeline_from_json [] = Inr []"
| "pipeline_from_json (s # rest) =
     (case (if js_iv s \<noteq> [] then b64_decode (js_iv s) else Some []) of
        None \<Rightarrow> Inl (ErrMsg ''pipeline iv base64'')
      | Some iv \<Rightarrow>
     (case pipeline_from_json rest of
        Inl e \<Rightarrow> Inl e
      | Inr ps \<Rightarrow> Inr (\<lparr> ps_algorithm = js_algorithm s, ps_hash = js_hash s, ps_iv = iv,
                          ps_key_id = js_key_id s \<rparr> # ps)))"

definition body_of :: "manifest \<Rightarrow> json_body" where
  "body_of m = \<lparr>
     jb_ext = ext m,
     jb_inline_blob = b64_field (inline_blob m),
     jb_sys = \<lparr>
       sys_artifact_id = artifact_id m,
       sys_blob_refs = blob_refs m,
       sys_content_hash = content_hash m,
       sys_created_at = time_format (created_at m),
       sys_handle_refs = handle_refs m,
       sys_hash_algo = hash_algo m,
       sys_identity_meta_hash = identity_meta_hash m,
       sys_identity_nonce = b64_field (identity_nonce m),
       sys_blob_storage = blob_storage m,
       sys_original_size = (if original_size m \<noteq> 0 then Some (original_size m) else None),
       sys_pipeline = pipeline_to_json (pipeline m),
       sys_retention_until = (if retention_until m \<noteq> 0 then time_format (retention_until m) else TsEmpty),
       sys_schema_version = schema_version,
       sys_session_id = session_id m \<rparr>,
     jb_usr = usr m \<rparr>"

definition marshal_body_json :: "json_codec \<Rightarrow> manifest \<Rightarrow> bytes res" where
  "marshal_body_json jc m = jc_marshal jc (body_of m)"

definition b64_opt :: "string \<Rightarrow> bytes option" where
  "b64_opt s = (if s \<noteq> [] then b64_decode s else Some [])"

definition manifest_of_body :: "json_body \<Rightarrow> manifest res" where
  "manifest_of_body b = (let sys = jb_sys b in
     if sys_schema_version sys \<noteq> schema_version then Inl ErrUnsupportedSchemaVersion
     else case pipeline_from_json (sys_pipeline sys) of
       Inl e \<Rightarrow> Inl e
     | Inr stages \<Rightarrow>
    (case b64_opt (sys_identity_nonce sys) of
       None \<Rightarrow> Inl (ErrMsg ''identity_nonce base64'')
     | Some nonce \<Rightarrow>
    (case b64_opt (jb_inline_blob b) of
       None \<Rightarrow> Inl (ErrMsg ''inline_blob base64'')
     | Some blob \<Rightarrow>
    (case time_parse (sys_created_at sys) of
       Inl e \<Rightarrow> Inl e
     | Inr created \<Rightarrow>
    (case time_parse (sys_retention_until sys) of
       Inl e \<Rightarrow> Inl e
     | Inr retention \<Rightarrow>
       Inr \<lparr> artifact_id = sys_artifact_id sys, name = [], digest = [],
         identity_meta_hash = sys_identity_meta_hash sys, identity_nonce = nonce,
         session_id = sys_session_id sys, created_at = created,
         content_hash = sys_content_hash sys,
         original_size = (case sys_original_size sys of None \<Rightarrow> 0 | Some n \<Rightarrow> n),
         hash_algo = sys_hash_algo sys, blob_refs = sys_blob_refs sys,
         handle_refs = sys_handle_refs sys, blob_storage = sys_blob_storage sys,
         pipeline = stages, inline_blob = blob, retention_until = retention, key_id = [],
         ext = jb_ext b, usr = jb_usr b \<rparr>)))))"

definition unmarshal_body_json :: "json_codec \<Rightarrow> bytes \<Rightarrow> manifest res" where
  "unmarshal_body_json jc body =
     (case jc_decode jc body of
        None \<Rightarrow> Inl (ErrMsg ''parse body'')
      | Some (b, trailing) \<Rightarrow>
          if trailing then Inl (ErrMsg ''trailing content after body'') else manifest_of_body b)"

subsection \<open>Body encryption\<close>

text \<open>AES-GCM as \<^verbatim>\<open>cipher.AEAD\<close> built from a key: \<open>c_seal key nonce plaintext aad\<close> and its
  partial inverse.\<close>

record cipher =
  c_seal :: "bytes \<Rightarrow> bytes \<Rightarrow> bytes \<Rightarrow> bytes \<Rightarrow> bytes"
  c_open :: "bytes \<Rightarrow> bytes \<Rightarrow> bytes \<Rightarrow> bytes \<Rightarrow> bytes option"

definition dek_len :: nat where "dek_len = 32"
definition nonce_len :: nat where "nonce_len = 12"
definition tag_len :: nat where "tag_len = 16"

definition new_gcm :: "bytes \<Rightarrow> unit res" where
  "new_gcm key = (if length key \<noteq> dek_len then Inl (ErrMsg ''aead: key length'') else Inr ())"

definition seal_body :: "cipher \<Rightarrow> bytes \<Rightarrow> bytes \<Rightarrow> bytes \<Rightarrow> bytes \<Rightarrow> bytes res" where
  "seal_body C nonce plaintext dek aad =
     (case new_gcm dek of
        Inl e \<Rightarrow> Inl e
      | Inr _ \<Rightarrow> Inr (nonce @ c_seal C dek nonce plaintext aad))"

definition min_ciphertext :: nat where "min_ciphertext = nonce_len + tag_len"

definition open_body :: "cipher \<Rightarrow> bytes \<Rightarrow> bytes \<Rightarrow> bytes \<Rightarrow> bytes res" where
  "open_body C ciphertext dek aad =
     (if length ciphertext < min_ciphertext then Inl (ErrMsg ''ciphertext too short'')
      else case new_gcm dek of
        Inl e \<Rightarrow> Inl e
      | Inr _ \<Rightarrow>
          (case c_open C dek (take nonce_len ciphertext) (drop nonce_len ciphertext) aad of
             None \<Rightarrow> Inl ErrDecryptionFailed
           | Some p \<Rightarrow> Inr p))"

fun try_decrypt :: "cipher \<Rightarrow> bytes \<Rightarrow> bytes list \<Rightarrow> bytes \<Rightarrow> bytes res" where
  "try_decrypt C ct [] aad = Inl ErrDecryptionFailed"
| "try_decrypt C ct (dek # deks) aad =
     (case open_body C ct dek aad of
        Inr p \<Rightarrow> Inr p
      | Inl _ \<Rightarrow> try_decrypt C ct deks aad)"

definition block_aad :: "bytes \<Rightarrow> bytes \<Rightarrow> bytes" where
  "block_aad header tag = header @ [CHR 0x00] @ tag"

definition seal_block :: "cipher \<Rightarrow> bytes \<Rightarrow> bytes \<Rightarrow> bytes \<Rightarrow> bytes \<Rightarrow> bytes \<Rightarrow> bytes res" where
  "seal_block C nonce plaintext dek header tag = seal_body C nonce plaintext dek (block_aad header tag)"

definition wrap_base64_as_json_string :: "bytes \<Rightarrow> bytes" where
  "wrap_base64_as_json_string raw = [CHR 0x22] @ b64_encode raw @ [CHR 0x22]"

definition open_sealed_field ::
    "json_codec \<Rightarrow> cipher \<Rightarrow> bytes \<Rightarrow> bytes list \<Rightarrow> bytes \<Rightarrow> bytes \<Rightarrow> bytes res" where
  "open_sealed_field jc C field candidates header tag =
     (case jc_string jc field of
        None \<Rightarrow> Inl ErrCorruptedManifest
      | Some encoded \<Rightarrow>
     (case b64_decode encoded of
        None \<Rightarrow> Inl ErrCorruptedManifest
      | Some ct \<Rightarrow> try_decrypt C ct candidates (block_aad header tag)))"

text \<open>The three nonces a Sealed body draws, and the one of a Paranoid body.\<close>

record nonces =
  n_ext :: bytes
  n_usr :: bytes
  n_inline :: bytes
  n_body :: bytes

definition encode_sealed ::
    "json_codec \<Rightarrow> cipher \<Rightarrow> nonces \<Rightarrow> manifest \<Rightarrow> bytes \<Rightarrow> bytes \<Rightarrow> bytes res" where
  "encode_sealed jc C ns m dek header =
     (case (if ext m \<noteq> [] then map_sum id wrap_base64_as_json_string
                (seal_block C (n_ext ns) (ext m) dek header ''ext'') else Inr []) of
        Inl e \<Rightarrow> Inl e
      | Inr e' \<Rightarrow>
     (case (if usr m \<noteq> [] then map_sum id wrap_base64_as_json_string
                (seal_block C (n_usr ns) (usr m) dek header ''usr'') else Inr []) of
        Inl e \<Rightarrow> Inl e
      | Inr u' \<Rightarrow>
     (case (if inline_blob m \<noteq> []
            then seal_block C (n_inline ns) (inline_blob m) dek header ''inline_blob'' else Inr []) of
        Inl e \<Rightarrow> Inl e
      | Inr b' \<Rightarrow> marshal_body_json jc (m \<lparr> ext := e', usr := u', inline_blob := b' \<rparr>))))"

definition decode_sealed ::
    "json_codec \<Rightarrow> cipher \<Rightarrow> bytes \<Rightarrow> bytes list \<Rightarrow> bytes \<Rightarrow> manifest res" where
  "decode_sealed jc C body candidates header =
     (case unmarshal_body_json jc body of
        Inl e \<Rightarrow> Inl e
      | Inr m \<Rightarrow>
     (case (if ext m \<noteq> [] then open_sealed_field jc C (ext m) candidates header ''ext'' else Inr []) of
        Inl e \<Rightarrow> Inl e
      | Inr e' \<Rightarrow>
     (case (if usr m \<noteq> [] then open_sealed_field jc C (usr m) candidates header ''usr'' else Inr []) of
        Inl e \<Rightarrow> Inl e
      | Inr u' \<Rightarrow>
     (case (if inline_blob m \<noteq> []
            then try_decrypt C (inline_blob m) candidates (block_aad header ''inline_blob'') else Inr []) of
        Inl e \<Rightarrow> Inl e
      | Inr b' \<Rightarrow> Inr (m \<lparr> ext := e', usr := u', inline_blob := b' \<rparr>)))))"

definition encode_paranoid ::
    "json_codec \<Rightarrow> cipher \<Rightarrow> nonces \<Rightarrow> manifest \<Rightarrow> bytes \<Rightarrow> bytes \<Rightarrow> bytes res" where
  "encode_paranoid jc C ns m dek header =
     (case marshal_body_json jc m of
        Inl e \<Rightarrow> Inl e
      | Inr plain \<Rightarrow> seal_body C (n_body ns) plain dek header)"

definition decode_paranoid ::
    "json_codec \<Rightarrow> cipher \<Rightarrow> bytes \<Rightarrow> bytes list \<Rightarrow> bytes \<Rightarrow> manifest res" where
  "decode_paranoid jc C body candidates header =
     (case try_decrypt C body candidates header of
        Inl e \<Rightarrow> Inl e
      | Inr plain \<Rightarrow> unmarshal_body_json jc plain)"

subsection \<open>The facade\<close>

definition is_plain :: "manifest_crypto \<Rightarrow> bool" where
  "is_plain c = (c = CryptoUnset \<or> c = CryptoPlain)"

definition encode :: "json_codec \<Rightarrow> manifest \<Rightarrow> manifest_encoding \<Rightarrow> manifest_crypto \<Rightarrow> bytes res" where
  "encode jc m enc crypto =
     (if \<not> is_plain crypto then Inl ErrUnsupportedCrypto
      else case check_ref_limits m of
        Inl e \<Rightarrow> Inl e
      | Inr _ \<Rightarrow>
     (case validate_slot m of
        Inl e \<Rightarrow> Inl e
      | Inr _ \<Rightarrow>
     (case write_header \<lparr> fh_encoding = enc, fh_crypto = crypto, fh_key_id = [] \<rparr> of
        Inl e \<Rightarrow> Inl e
      | Inr header \<Rightarrow>
     (case marshal_body_json jc m of
        Inl e \<Rightarrow> Inl e
      | Inr body \<Rightarrow> Inr (header @ body)))))"

definition encode_encrypted ::
    "json_codec \<Rightarrow> cipher \<Rightarrow> nonces \<Rightarrow> manifest \<Rightarrow> manifest_encoding \<Rightarrow> manifest_crypto \<Rightarrow> bytes \<Rightarrow> string
      \<Rightarrow> bytes res" where
  "encode_encrypted jc C ns m enc crypto dek kid =
     (if is_plain crypto then Inl (ErrMsg ''use Encode for Plain'')
      else if dek = [] then Inl (ErrMsg ''empty dek'')
      else case check_ref_limits m of
        Inl e \<Rightarrow> Inl e
      | Inr _ \<Rightarrow>
     (case validate_slot m of
        Inl e \<Rightarrow> Inl e
      | Inr _ \<Rightarrow>
     (case write_header \<lparr> fh_encoding = enc, fh_crypto = crypto, fh_key_id = kid \<rparr> of
        Inl e \<Rightarrow> Inl e
      | Inr header \<Rightarrow>
     (case (case crypto of
              CryptoSealed \<Rightarrow> encode_sealed jc C ns m dek header
            | CryptoParanoid \<Rightarrow> encode_paranoid jc C ns m dek header
            | _ \<Rightarrow> Inl ErrUnsupportedCrypto) of
        Inl e \<Rightarrow> Inl e
      | Inr body \<Rightarrow> Inr (header @ body)))))"

definition decode_encrypted_body ::
    "json_codec \<Rightarrow> cipher \<Rightarrow> manifest_crypto \<Rightarrow> bytes \<Rightarrow> bytes list \<Rightarrow> bytes \<Rightarrow> manifest res" where
  "decode_encrypted_body jc C crypto body candidates header =
     (case crypto of
        CryptoSealed \<Rightarrow> decode_sealed jc C body candidates header
      | CryptoParanoid \<Rightarrow> decode_paranoid jc C body candidates header
      | _ \<Rightarrow> Inl ErrUnsupportedCrypto)"

definition decode_plain :: "json_codec \<Rightarrow> bytes \<Rightarrow> manifest res" where
  "decode_plain jc data =
     (if length data > max_manifest_size then Inl ErrManifestTooLarge
      else case read_header data of
        Inl e \<Rightarrow> Inl e
      | Inr (header, off) \<Rightarrow>
          if fh_crypto header \<noteq> CryptoPlain then Inl ErrUnsupportedCrypto
          else unmarshal_body_json jc (drop off data))"

text \<open>A key provider maps a KeyID to the candidate keys; \<open>None\<close> is a nil provider.\<close>

type_synonym key_provider = "string \<Rightarrow> bytes list res"

definition decode_encrypted ::
    "json_codec \<Rightarrow> cipher \<Rightarrow> bytes \<Rightarrow> key_provider option \<Rightarrow> manifest res" where
  "decode_encrypted jc C data keys =
     (if length data > max_manifest_size then Inl ErrManifestTooLarge
      else case read_header data of
        Inl e \<Rightarrow> Inl e
      | Inr (header, off) \<Rightarrow>
          if fh_crypto header = CryptoPlain then unmarshal_body_json jc (drop off data)
          else case keys of
            None \<Rightarrow> Inl ErrKeyNotFound
          | Some get_keys \<Rightarrow>
         (case get_keys (fh_key_id header) of
            Inl e \<Rightarrow> Inl e
          | Inr candidates \<Rightarrow>
              if candidates = [] then Inl ErrKeyNotFound
              else decode_encrypted_body jc C (fh_crypto header) (drop off data) candidates
                     (take off data)))"

definition compute_manifest_digest ::
    "json_codec \<Rightarrow> cipher \<Rightarrow> hash_registry \<Rightarrow> nonces \<Rightarrow> manifest \<Rightarrow> string \<Rightarrow> manifest_encoding
      \<Rightarrow> manifest_crypto \<Rightarrow> bytes \<Rightarrow> string \<Rightarrow> (string \<times> bytes \<times> manifest) res" where
  "compute_manifest_digest jc C reg ns m0 algo enc crypto dek kid = (let m = m0 \<lparr> hash_algo := algo \<rparr> in
     case (if is_plain crypto then encode jc m enc crypto
           else encode_encrypted jc C ns m enc crypto dek kid) of
       Inl e \<Rightarrow> Inl e
     | Inr fb \<Rightarrow>
    (case new_hasher reg algo of
       Inl e \<Rightarrow> Inl e
     | Inr h \<Rightarrow> let d = hex_encode (h fb) in Inr (d, fb, m \<lparr> digest := d \<rparr>)))"

definition verify_manifest_digest :: "hash_registry \<Rightarrow> string \<Rightarrow> bytes \<Rightarrow> string \<Rightarrow> unit res" where
  "verify_manifest_digest reg d fb algo =
     (case new_hasher reg algo of
        Inl e \<Rightarrow> Inl e
      | Inr h \<Rightarrow> if hex_encode (h fb) \<noteq> d then Inl ErrCorruptedManifest else Inr ())"

definition identity_meta_canon_empty :: bytes where
  "identity_meta_canon_empty = ''scrinium/identity-meta/v1:{}''"

definition compute_handle ::
    "hash_registry \<Rightarrow> manifest \<Rightarrow> string \<Rightarrow> bytes \<Rightarrow> bytes \<Rightarrow> manifest res" where
  "compute_handle reg m algo nk nonce =
     (case new_hasher reg algo of
        Inl e \<Rightarrow> Inl e
      | Inr h \<Rightarrow> (let md = hash_format algo (h identity_meta_canon_empty) in
          case handle_of reg algo nk (content_hash m) md nonce of
            Inl e \<Rightarrow> Inl e
          | Inr hdl \<Rightarrow> Inr (m \<lparr> artifact_id := hdl, identity_meta_hash := md, identity_nonce := nonce \<rparr>)))"

definition parse_content_hash :: "hash_registry \<Rightarrow> string \<Rightarrow> string \<Rightarrow> (bytes \<times> hash_fun) res" where
  "parse_content_hash reg algo ch =
     (case hex_decode ch of
        None \<Rightarrow> Inl (ErrMsg ''decode ContentHash'')
      | Some raw \<Rightarrow>
     (case new_hasher reg algo of Inl e \<Rightarrow> Inl e | Inr h \<Rightarrow> Inr (raw, h)))"

subsection \<open>What is relied on of JSON and AES-GCM\<close>

text \<open>A body the JSON text can represent: text fields are UTF-8 (\<^verbatim>\<open>json.Marshal\<close> replaces other
  bytes), timestamps are not malformed text, the size fits an int64.\<close>

definition stage_utf8 :: "json_stage \<Rightarrow> bool" where
  "stage_utf8 s = list_all valid_utf8 [js_algorithm s, js_hash s, js_iv s, js_key_id s]"

definition json_representable :: "json_body \<Rightarrow> bool" where
  "json_representable b = (let s = jb_sys b in
     list_all valid_utf8 [sys_artifact_id s, sys_content_hash s, sys_hash_algo s,
       sys_identity_meta_hash s, sys_identity_nonce s, sys_blob_storage s, sys_session_id s,
       jb_inline_blob b]
     \<and> list_all valid_utf8 (sys_blob_refs s) \<and> list_all valid_utf8 (sys_handle_refs s)
     \<and> list_all stage_utf8 (sys_pipeline s)
     \<and> (\<forall>t. sys_created_at s \<noteq> TsMalformed t) \<and> (\<forall>t. sys_retention_until s \<noteq> TsMalformed t)
     \<and> (case sys_original_size s of None \<Rightarrow> True | Some n \<Rightarrow> - (2 ^ 63) \<le> n \<and> n < 2 ^ 63))"

text \<open>\<open>compact\<close> marks the raw JSON messages that marshalling leaves unchanged.\<close>

definition json_faithful :: "json_codec \<Rightarrow> (bytes \<Rightarrow> bool) \<Rightarrow> bool" where
  "json_faithful jc compact =
     ((\<forall>b t. json_representable b \<and> compact (jb_ext b) \<and> compact (jb_usr b)
         \<and> jc_marshal jc b = Inr t \<longrightarrow> jc_decode jc t = Some (b, False))
      \<and> compact []
      \<and> (\<forall>raw. compact (wrap_base64_as_json_string raw)
           \<and> jc_string jc (wrap_base64_as_json_string raw) = Some (b64_encode raw)))"

definition aead_correct :: "cipher \<Rightarrow> bool" where
  "aead_correct C = (\<forall>k n p a. c_open C k n (c_seal C k n p a) a = Some p
      \<and> length (c_seal C k n p a) = length p + tag_len)"

definition key_committing :: "cipher \<Rightarrow> bytes \<Rightarrow> bytes list \<Rightarrow> bool" where
  "key_committing C dek keys = (\<forall>k \<in> set keys. k \<noteq> dek \<longrightarrow>
      (\<forall>n p a. c_open C k n (c_seal C dek n p a) a = None))"

definition manifest_utf8 :: "manifest \<Rightarrow> bool" where
  "manifest_utf8 m =
     (list_all valid_utf8 [artifact_id m, content_hash m, hash_algo m, identity_meta_hash m,
        blob_storage m, session_id m]
      \<and> list_all valid_utf8 (blob_refs m) \<and> list_all valid_utf8 (handle_refs m)
      \<and> list_all (\<lambda>s. list_all valid_utf8 [ps_algorithm s, ps_hash s, ps_key_id s]) (pipeline m)
      \<and> - (2 ^ 63) \<le> original_size m \<and> original_size m < 2 ^ 63)"

text \<open>What survives serialisation: the digest is the hash of the file, the name and the key
  identifier have no field in the body, instants keep whole seconds.\<close>

definition persisted :: "manifest \<Rightarrow> manifest" where
  "persisted m = m \<lparr> name := [], digest := [], key_id := [],
     created_at := trunc_second (created_at m), retention_until := trunc_second (retention_until m) \<rparr>"

subsection \<open>Lemmas\<close>

lemma valid_utf8_ascii: "list_all (\<lambda>c. (of_char c :: nat) < 128) s \<Longrightarrow> valid_utf8 s"
  by (induction s) (auto simp: in_range_def)

lemma b64_char_ascii: "n < 64 \<Longrightarrow> (of_char (b64_char n) :: nat) < 128"
  by (auto simp: b64_char_def)

lemma b64_ascii: "list_all (\<lambda>c. (of_char c :: nat) < 128) (b64_encode b)"
  by (induction b rule: b64_encode.induct) (simp_all add: Let_def b64_char_ascii)

lemma valid_utf8_b64_field [simp]: "valid_utf8 (b64_field b)"
  using valid_utf8_ascii [OF b64_ascii] by (simp add: b64_field_def)

lemma b64_opt_field [simp]: "b64_opt (b64_field b) = Some b"
  by (simp add: b64_opt_def b64_field_def)

lemma pipeline_roundtrip [simp]: "pipeline_from_json (pipeline_to_json ps) = Inr ps"
proof (induction ps)
  case (Cons p ps)
  then show ?case
    by (cases p) (simp add: pipeline_to_json_def stage_to_json_def b64_field_def)
qed (simp add: pipeline_to_json_def)

lemma time_format_if [simp]: "(if t = 0 then TsEmpty else time_format t) = time_format t"
  by (simp add: time_format_def)

lemma time_parse_empty [simp]: "time_parse TsEmpty = Inr 0" "trunc_second 0 = 0"
  by (simp_all add: time_parse_def trunc_second_def)

lemma manifest_of_body_of: "manifest_of_body (body_of m) = Inr (persisted m)"
  by (cases m) (simp add: manifest_of_body_def body_of_def Let_def persisted_def)

lemma representable_body_of: "manifest_utf8 m \<Longrightarrow> json_representable (body_of m)"
  by (auto simp: json_representable_def body_of_def manifest_utf8_def Let_def pipeline_to_json_def
      list_all_iff stage_utf8_def stage_to_json_def time_format_def)

lemma unmarshal_marshal:
  assumes "json_faithful jc compact" "manifest_utf8 m" "compact (ext m)" "compact (usr m)"
    and "marshal_body_json jc m = Inr t"
  shows "unmarshal_body_json jc t = Inr (persisted m)"
proof -
  have "jc_decode jc t = Some (body_of m, False)"
    using assms representable_body_of [of m]
    by (auto simp: json_faithful_def marshal_body_json_def) (simp add: body_of_def)
  then show ?thesis
    by (simp add: unmarshal_body_json_def manifest_of_body_of)
qed

lemma open_seal_body:
  assumes "aead_correct C" "length nonce = nonce_len" "seal_body C nonce p dek aad = Inr ct"
  shows "open_body C ct dek aad = Inr p"
  using assms
  by (auto simp: seal_body_def open_body_def aead_correct_def min_ciphertext_def
      split: sum.splits)

lemma open_other_key:
  assumes "key_committing C dek keys" "k \<in> set keys" "k \<noteq> dek" "length nonce = nonce_len"
    "seal_body C nonce p dek aad = Inr ct"
  shows "\<exists>e. open_body C ct k aad = Inl e"
  using assms
  by (auto simp: seal_body_def open_body_def key_committing_def split: sum.splits option.splits)

lemma try_decrypt_seal:
  assumes "aead_correct C" "key_committing C dek keys" "dek \<in> set keys" "length nonce = nonce_len"
    "seal_body C nonce p dek aad = Inr ct"
  shows "try_decrypt C ct keys aad = Inr p"
  using assms(2,3)
proof (induction keys)
  case (Cons k keys)
  have kc: "key_committing C dek keys"
    using Cons.prems(1) by (auto simp: key_committing_def)
  show ?case
  proof (cases "k = dek")
    case True
    then show ?thesis using open_seal_body [OF assms(1,4,5)] by simp
  next
    case False
    obtain e where "open_body C ct k aad = Inl e"
      using open_other_key [OF Cons.prems(1) _ False assms(4,5)] by auto
    then show ?thesis
      using Cons False kc by simp
  qed
qed simp

lemma seal_body_nonempty: "aead_correct C \<Longrightarrow> seal_body C n p dek aad = Inr ct \<Longrightarrow> ct \<noteq> []"
  by (auto simp: seal_body_def aead_correct_def tag_len_def split: sum.splits)
     (metis add_is_0 list.size(3) zero_neq_numeral)

lemma wrap_nonempty [simp]: "wrap_base64_as_json_string r \<noteq> []"
  by (simp add: wrap_base64_as_json_string_def)

lemma open_sealed_field_wrap:
  assumes "json_faithful jc compact" "aead_correct C" "key_committing C dek keys" "dek \<in> set keys"
    "length nonce = nonce_len" "seal_block C nonce p dek header tag = Inr ct"
  shows "open_sealed_field jc C (wrap_base64_as_json_string ct) keys header tag = Inr p"
  using assms try_decrypt_seal [OF assms(2-5), of p "block_aad header tag" ct]
  by (simp add: open_sealed_field_def json_faithful_def seal_block_def)

lemma persisted_simps [simp]:
  "ext (persisted m) = ext m" "usr (persisted m) = usr m" "inline_blob (persisted m) = inline_blob m"
  "persisted (m \<lparr> ext := a \<rparr>) = persisted m \<lparr> ext := a \<rparr>"
  "persisted (m \<lparr> usr := a \<rparr>) = persisted m \<lparr> usr := a \<rparr>"
  "persisted (m \<lparr> inline_blob := a \<rparr>) = persisted m \<lparr> inline_blob := a \<rparr>"
  by (simp_all add: persisted_def)

lemma manifest_utf8_blocks [simp]:
  "manifest_utf8 (m \<lparr> ext := a \<rparr>) = manifest_utf8 m" "manifest_utf8 (m \<lparr> usr := a \<rparr>) = manifest_utf8 m"
  "manifest_utf8 (m \<lparr> inline_blob := a \<rparr>) = manifest_utf8 m"
  by (simp_all add: manifest_utf8_def)

definition nonces_ok :: "nonces \<Rightarrow> bool" where
  "nonces_ok ns = (length (n_ext ns) = nonce_len \<and> length (n_usr ns) = nonce_len
     \<and> length (n_inline ns) = nonce_len \<and> length (n_body ns) = nonce_len)"

lemma map_sum_eq_Inr [simp]: "map_sum id f r = Inr y \<longleftrightarrow> (\<exists>x. r = Inr x \<and> y = f x)"
  by (cases r) auto

lemma persisted_restore:
  "persisted m \<lparr> ext := ext m, usr := usr m, inline_blob := inline_blob m \<rparr> = persisted m"
  by (cases m) (simp add: persisted_def)

lemma decode_sealed_encode:
  assumes j: "json_faithful jc compact" and u: "manifest_utf8 m"
    and k: "aead_correct C" "key_committing C dek keys" "dek \<in> set keys" and n: "nonces_ok ns"
    and e: "encode_sealed jc C ns m dek header = Inr body"
  shows "decode_sealed jc C body keys header = Inr (persisted m)"
proof -
  obtain x y z where
    x: "if ext m \<noteq> [] then \<exists>c. seal_block C (n_ext ns) (ext m) dek header ''ext'' = Inr c
          \<and> x = wrap_base64_as_json_string c else x = []" and
    y: "if usr m \<noteq> [] then \<exists>c. seal_block C (n_usr ns) (usr m) dek header ''usr'' = Inr c
          \<and> y = wrap_base64_as_json_string c else y = []" and
    z: "if inline_blob m \<noteq> [] then seal_block C (n_inline ns) (inline_blob m) dek header
          ''inline_blob'' = Inr z else z = []" and
    b: "marshal_body_json jc (m \<lparr> ext := x, usr := y, inline_blob := z \<rparr>) = Inr body"
    using e by (auto simp: encode_sealed_def split: sum.splits if_splits)
  have n3: "length (n_ext ns) = nonce_len" "length (n_usr ns) = nonce_len"
    "length (n_inline ns) = nonce_len" using n by (auto simp: nonces_ok_def)
  have c: "compact x" "compact y"
    using x y j by (auto simp: json_faithful_def split: if_splits)
  have "unmarshal_body_json jc body = Inr (persisted m \<lparr> ext := x, usr := y, inline_blob := z \<rparr>)"
    using unmarshal_marshal [OF j _ _ _ b] u c by simp
  moreover have "(if x \<noteq> [] then open_sealed_field jc C x keys header ''ext'' else Inr []) = Inr (ext m)"
    using x open_sealed_field_wrap [OF j k n3(1)] by (cases "ext m = []") auto
  moreover have "(if y \<noteq> [] then open_sealed_field jc C y keys header ''usr'' else Inr []) = Inr (usr m)"
    using y open_sealed_field_wrap [OF j k n3(2)] by (cases "usr m = []") auto
  moreover have "(if z \<noteq> [] then try_decrypt C z keys (block_aad header ''inline_blob'') else Inr [])
      = Inr (inline_blob m)"
    using z try_decrypt_seal [OF k n3(3)] seal_body_nonempty [OF k(1)]
    by (cases "inline_blob m = []") (auto simp: seal_block_def)
  ultimately show ?thesis
    by (simp add: decode_sealed_def persisted_restore split del: if_split cong: if_cong)
qed

lemma decode_paranoid_encode:
  assumes "json_faithful jc compact" "manifest_utf8 m" "compact (ext m)" "compact (usr m)"
    "aead_correct C" "key_committing C dek keys" "dek \<in> set keys" "nonces_ok ns"
    "encode_paranoid jc C ns m dek header = Inr body"
  shows "decode_paranoid jc C body keys header = Inr (persisted m)"
proof -
  obtain t where t: "marshal_body_json jc m = Inr t" "seal_body C (n_body ns) t dek header = Inr body"
    using assms(9) by (auto simp: encode_paranoid_def split: sum.splits)
  then show ?thesis
    using try_decrypt_seal [OF assms(5-7) _ t(2)] assms(8) unmarshal_marshal [OF assms(1-4) t(1)]
    by (simp add: decode_paranoid_def nonces_ok_def)
qed

lemma decode_encode_plain:
  assumes "json_faithful jc compact" "manifest_utf8 m" "compact (ext m)" "compact (usr m)"
    "encode jc m enc crypto = Inr fb" "length fb \<le> max_manifest_size"
  shows "decode_encrypted jc C fb keys = Inr (persisted m) \<and> decode_plain jc fb = Inr (persisted m)"
proof -
  let ?h = "\<lparr> fh_encoding = enc, fh_crypto = crypto, fh_key_id = [] \<rparr>"
  obtain h t where f: "write_header ?h = Inr h" "marshal_body_json jc m = Inr t" "fb = h @ t"
      "is_plain crypto"
    using assms(5) by (auto simp: encode_def split: if_splits sum.splits)
  have "fh_crypto (normal_header ?h) = CryptoPlain"
    using f(4) by (auto simp: normal_header_def is_plain_def)
  then show ?thesis
    using f assms(6) read_header_write [OF f(1), of t] unmarshal_marshal [OF assms(1-4) f(2)]
    by (simp add: decode_encrypted_def decode_plain_def)
qed

lemma decode_encode_encrypted:
  assumes j: "json_faithful jc compact" "manifest_utf8 m" "compact (ext m)" "compact (usr m)"
    and k: "aead_correct C" "key_committing C dek cands" "dek \<in> set cands" "nonces_ok ns"
    and e: "encode_encrypted jc C ns m enc crypto dek kid = Inr fb"
    and g: "get_keys kid = Inr cands" and l: "length fb \<le> max_manifest_size"
  shows "decode_encrypted jc C fb (Some get_keys) = Inr (persisted m)"
proof -
  let ?h = "\<lparr> fh_encoding = enc, fh_crypto = crypto, fh_key_id = kid \<rparr>"
  obtain h t where f: "write_header ?h = Inr h" "fb = h @ t" "\<not> is_plain crypto"
      "(case crypto of CryptoSealed \<Rightarrow> encode_sealed jc C ns m dek h
          | CryptoParanoid \<Rightarrow> encode_paranoid jc C ns m dek h
          | _ \<Rightarrow> Inl ErrUnsupportedCrypto) = Inr t"
    using e by (auto simp: encode_encrypted_def split: if_splits sum.splits)
  have hdr: "fh_crypto (normal_header ?h) = crypto" "fh_key_id (normal_header ?h) = kid"
      "crypto \<noteq> CryptoPlain"
    using f(3) by (auto simp: normal_header_def is_plain_def)
  have "decode_encrypted_body jc C crypto t cands h = Inr (persisted m)"
    using f(4) decode_sealed_encode [OF j(1,2) k] decode_paranoid_encode [OF j k]
    by (auto simp: decode_encrypted_body_def split: manifest_crypto.splits)
  then show ?thesis
    using f(2) l hdr read_header_write [OF f(1), of t] g k(3)
    by (auto simp: decode_encrypted_def)
qed

text \<open>C13: a manifest file round-trips in every crypto mode.  When \<^verbatim>\<open>ComputeManifestDigest\<close> succeeds, the file
  bytes verify against the digest it returns, and decoding them with a key provider that knows the
  key gives back the manifest, up to the digest (held by the file name), the name and key identifier
  (which the body has no field for) and sub-second parts of the two instants.  The hypotheses are
  the contracts of \<^verbatim>\<open>encoding/json\<close> and AES-GCM and that the file is within the read limit.\<close>

theorem manifest_roundtrip:
  assumes "json_faithful jc compact" and "aead_correct C" and "key_committing C dek cands"
    and "dek \<in> set cands" and "nonces_ok ns" and "get_keys kid = Inr cands"
    and "manifest_utf8 (m \<lparr> hash_algo := algo \<rparr>)" and "compact (ext m)" and "compact (usr m)"
    and "compute_manifest_digest jc C reg ns m algo enc crypto dek kid = Inr (d, fb, m')"
    and "length fb \<le> max_manifest_size"
  shows "verify_manifest_digest reg d fb algo = Inr ()
    \<and> m' = m \<lparr> hash_algo := algo, digest := d \<rparr>
    \<and> decode_encrypted jc C fb (Some get_keys) = Inr (persisted m')"
proof -
  let ?m = "m \<lparr> hash_algo := algo \<rparr>"
  have e: "(if is_plain crypto then encode jc ?m enc crypto
           else encode_encrypted jc C ns ?m enc crypto dek kid) = Inr fb"
    and h: "verify_manifest_digest reg d fb algo = Inr ()" "m' = ?m \<lparr> digest := d \<rparr>"
    using assms(10)
    by (auto simp: compute_manifest_digest_def verify_manifest_digest_def Let_def split: sum.splits)
  have "decode_encrypted jc C fb (Some get_keys) = Inr (persisted ?m)"
  proof (cases "is_plain crypto")
    case True
    then have "encode jc ?m enc crypto = Inr fb" using e by simp
    then show ?thesis
      using decode_encode_plain [OF assms(1,7)] assms(8,9,11) by simp
  next
    case False
    then have "encode_encrypted jc C ns ?m enc crypto dek kid = Inr fb" using e by simp
    then show ?thesis
      using decode_encode_encrypted [of jc compact ?m C dek cands ns enc crypto kid fb get_keys]
        assms by simp
  qed
  then show ?thesis
    using h by (simp add: persisted_def)
qed

text \<open>A JSON codec for a finite table of bodies, an AEAD with a constant tag and a hash registry:
  concrete instances of the three parameters, which satisfy their contracts.\<close>

fun table_index :: "'a list \<Rightarrow> 'a \<Rightarrow> nat option" where
  "table_index [] x = None"
| "table_index (y # ys) x = (if x = y then Some 0 else map_option Suc (table_index ys x))"

lemma table_index_nth: "table_index ys x = Some i \<Longrightarrow> i < length ys \<and> ys ! i = x"
  by (induction ys arbitrary: i) (auto split: if_splits)

definition table_codec :: "json_body list \<Rightarrow> json_codec" where
  "table_codec bs = \<lparr>
     jc_marshal = (\<lambda>b. case table_index bs b of None \<Rightarrow> Inl (ErrMsg ''json'')
                       | Some i \<Rightarrow> Inr (replicate i CHR ''x'')),
     jc_decode = (\<lambda>t. if length t < length bs then Some (bs ! length t, False) else None),
     jc_string = (\<lambda>t. Some (butlast (tl t))) \<rparr>"

definition const_tag_cipher :: cipher where
  "const_tag_cipher = \<lparr>
     c_seal = (\<lambda>k n p a. p @ replicate 16 CHR ''t''),
     c_open = (\<lambda>k n c a. if length c < 16 then None else Some (take (length c - 16) c)) \<rparr>"

definition len_hash :: "hash_fun" where
  "len_hash b = [CHR ''h'', char_of (length b), char_of (length b div 256)]"

definition sample_registry :: hash_registry where
  "sample_registry = [''sha256'' \<mapsto> len_hash]"

lemma table_codec_faithful: "json_faithful (table_codec bs) (\<lambda>_. True)"
  by (auto simp: json_faithful_def table_codec_def wrap_base64_as_json_string_def
      dest: table_index_nth split: option.splits)

lemma const_tag_correct: "aead_correct const_tag_cipher"
  by (simp add: aead_correct_def const_tag_cipher_def tag_len_def)

definition sample_system :: manifest where
  "sample_system = sample_container \<lparr> name := ''store.config'', blob_refs := [],
     blob_storage := layout_inline, inline_blob := ''payload'', created_at := 1500000000 \<rparr>"

lemma table_codec_first [simp]: "jc_marshal (table_codec (b # bs)) b = Inr []"
  by (simp add: table_codec_def)

lemma sample_system_checks:
  "check_ref_limits sample_system = Inr ()" "validate_slot sample_system = Inr ()"
  "sample_system \<lparr> hash_algo := ''sha256'' \<rparr> = sample_system"
  "is_system sample_system" "ext sample_system = []" "usr sample_system = []"
  by (simp_all add: check_ref_limits_def check_handle_refs_def validate_slot_def is_system_def
      sample_system_def sample_container_def limit_defs)

lemma sample_system_utf8: "manifest_utf8 sample_system"
  by (simp add: manifest_utf8_def sample_system_def sample_container_def layout_inline_def in_range_def)

definition sample_nonces :: nonces where
  "sample_nonces = (let n = replicate 12 CHR ''n'' in
     \<lparr> n_ext = n, n_usr = n, n_inline = n, n_body = n \<rparr>)"

definition sample_dek :: bytes where
  "sample_dek = replicate 32 CHR ''k''"

theorem manifest_roundtrip_witness:
  "\<exists>d fb m'. compute_manifest_digest (table_codec [body_of sample_system]) const_tag_cipher
      sample_registry sample_nonces sample_system ''sha256'' EncodingJSON CryptoParanoid sample_dek ''k1''
      = Inr (d, fb, m')
    \<and> decode_encrypted (table_codec [body_of sample_system]) const_tag_cipher fb
        (Some (\<lambda>_. Inr [sample_dek])) = Inr (persisted m')"
proof -
  let ?jc = "table_codec [body_of sample_system]"
  have w: "write_header \<lparr> fh_encoding = EncodingJSON, fh_crypto = CryptoParanoid, fh_key_id = ''k1'' \<rparr>
      = Inr (magic_json @ [CHR 0x02, CHR 0x02] @ ''k1'')"
    by code_simp
  have p: "encode_paranoid ?jc const_tag_cipher sample_nonces sample_system sample_dek h
      = Inr (replicate 12 CHR ''n'' @ replicate 16 CHR ''t'')" for h
    by (simp add: encode_paranoid_def marshal_body_json_def seal_body_def new_gcm_def sample_dek_def
        dek_len_def const_tag_cipher_def sample_nonces_def Let_def)
  have d: "sample_dek \<noteq> []" by (simp add: sample_dek_def)
  obtain dg fb m' where c: "compute_manifest_digest ?jc const_tag_cipher
      sample_registry sample_nonces sample_system ''sha256'' EncodingJSON CryptoParanoid sample_dek ''k1''
      = Inr (dg, fb, m')" "length fb = 36"
    by (simp add: compute_manifest_digest_def sample_system_checks is_plain_def encode_encrypted_def
        w p d new_hasher_def sample_registry_def magic_json_def Let_def)
  have n: "nonces_ok sample_nonces" by (simp add: nonces_ok_def sample_nonces_def nonce_len_def Let_def)
  have k: "key_committing const_tag_cipher sample_dek [sample_dek]"
    by (simp add: key_committing_def)
  have "decode_encrypted ?jc const_tag_cipher fb (Some (\<lambda>_. Inr [sample_dek])) = Inr (persisted m')"
    using manifest_roundtrip [OF table_codec_faithful const_tag_correct k _ n _ _ _ _ c(1),
        of "\<lambda>_. Inr [sample_dek]"] c(2) sample_system_utf8
    by (simp add: max_manifest_size_def sample_system_checks)
  then show ?thesis using c(1) by blast
qed

text \<open>C30: the identity slot of a system artifact does not survive its file.  The body has no field for
  \<^verbatim>\<open>Manifest.Name\<close>, so a system manifest written and read back is classified as a container, although
  the slot check refused that very structure for a container on write.\<close>

theorem system_name_lost:
  assumes "json_faithful jc compact" and "manifest_utf8 m" and "compact (ext m)" and "compact (usr m)"
    and "is_system m" and "encode jc m enc crypto = Inr fb" and "length fb \<le> max_manifest_size"
  shows "\<exists>m'. decode_plain jc fb = Inr m' \<and> \<not> is_system m' \<and> is_container m'
    \<and> validate_slot m' = Inl ErrInvalidManifestSlot"
proof -
  have v: "validate_slot m = Inr ()"
    using assms(6) by (auto simp: encode_def split: if_splits sum.splits)
  have "artifact_id m = []" "inline_blob m \<noteq> []" "blob_refs m = []"
    using v assms(5) by (auto simp: validate_slot_def is_system_def Let_def split: if_splits)
  then have "is_container (persisted m)" "\<not> is_system (persisted m)"
      "validate_slot (persisted m) = Inl ErrInvalidManifestSlot"
    by (auto simp: is_container_def is_system_def persisted_def validate_slot_def Let_def)
  then show ?thesis
    using decode_encode_plain [OF assms(1-4,6,7)] by blast
qed

theorem system_name_lost_witness:
  "\<exists>fb m'. encode (table_codec [body_of sample_system]) sample_system EncodingJSON CryptoPlain = Inr fb
    \<and> is_system sample_system
    \<and> decode_plain (table_codec [body_of sample_system]) fb = Inr m' \<and> is_container m'"
proof -
  have w: "write_header \<lparr> fh_encoding = EncodingJSON, fh_crypto = CryptoPlain, fh_key_id = [] \<rparr>
      = Inr (magic_json @ [CHR 0x00])"
    by code_simp
  have c: "encode (table_codec [body_of sample_system]) sample_system EncodingJSON CryptoPlain
      = Inr (magic_json @ [CHR 0x00])"
    by (simp add: is_plain_def encode_def sample_system_checks w marshal_body_json_def)
  show ?thesis
    using system_name_lost [OF table_codec_faithful sample_system_utf8 _ _ _ c] c
    by (auto simp: max_manifest_size_def magic_json_def sample_system_checks)
qed

end
