(* ===== verification/System_Artifact.thy ===== *)
theory System_Artifact
  imports Named Manifest_Codec
begin

text \<open>
  The inline manifest behind a system artifact (\<^verbatim>\<open>engine/internal/named/manifest.go\<close>) and the loading
  of cells (\<^verbatim>\<open>cell.go\<close>).  \<open>codec_env\<close> gathers what is outside the repository: the JSON text codec, the
  AEAD primitive, the hash registry and the random nonces.
\<close>

record codec_env =
  ce_json :: json_codec
  ce_cipher :: cipher
  ce_hashes :: hash_registry
  ce_nonces :: nonces

definition inline_manifest :: "string \<Rightarrow> time \<Rightarrow> bytes \<Rightarrow> string \<Rightarrow> manifest" where
  "inline_manifest n now payload ch =
     \<lparr> artifact_id = [], name = n, digest = [], identity_meta_hash = [], identity_nonce = [],
       session_id = ''init'', created_at = now, content_hash = ch,
       original_size = int (length payload), hash_algo = [], blob_refs = [], handle_refs = [],
       blob_storage = layout_inline, pipeline = [], inline_blob = payload, retention_until = 0,
       key_id = [], ext = [], usr = [] \<rparr>"

definition build_inline_manifest ::
    "codec_env \<Rightarrow> time \<Rightarrow> string \<Rightarrow> bytes \<Rightarrow> string \<Rightarrow> manifest_crypto \<Rightarrow> bytes \<Rightarrow> string
      \<Rightarrow> (bytes \<times> manifest) res" where
  "build_inline_manifest E now n payload algo crypto dek kid =
     (case new_hasher (ce_hashes E) algo of
        Inl e \<Rightarrow> Inl e
      | Inr h \<Rightarrow>
     (case compute_manifest_digest (ce_json E) (ce_cipher E) (ce_hashes E) (ce_nonces E)
             (inline_manifest n now payload (hex_encode (h payload))) algo EncodingJSON crypto dek kid of
        Inl e \<Rightarrow> Inl e
      | Inr (_, fb, m) \<Rightarrow> Inr (fb, m)))"

definition verify_inline_payload :: "hash_registry \<Rightarrow> manifest \<Rightarrow> unit res" where
  "verify_inline_payload reg m =
     (case parse_content_hash reg (hash_algo m) (content_hash m) of
        Inl _ \<Rightarrow> Inl ErrCorruptedContent
      | Inr (want, h) \<Rightarrow> if h (inline_blob m) \<noteq> want then Inl ErrCorruptedContent else Inr ())"

definition load_with_keys :: "codec_env \<Rightarrow> 'd driver \<Rightarrow> 'd \<Rightarrow> path \<Rightarrow> key_provider option \<Rightarrow> manifest res" where
  "load_with_keys E D d p keys =
     (case d_get D d p of
        Inl e \<Rightarrow> Inl (if e = ErrNotExist then ErrArtifactNotFound else e)
      | Inr raw \<Rightarrow> let fb = take (max_manifest_size + 1) raw in
          if length fb > max_manifest_size then Inl ErrManifestTooLarge
          else case decode_encrypted (ce_json E) (ce_cipher E) fb keys of
            Inl e \<Rightarrow> Inl e
          | Inr m \<Rightarrow>
              if blob_storage m \<noteq> layout_inline then Inl (ErrMsg ''expected inline layout'')
              else case verify_inline_payload (ce_hashes E) m of
                Inl e \<Rightarrow> Inl e
              | Inr _ \<Rightarrow> Inr m)"

definition load_cell_with_keys :: "codec_env \<Rightarrow> 'd driver \<Rightarrow> 'd \<Rightarrow> string \<Rightarrow> key_provider option \<Rightarrow> manifest res" where
  "load_cell_with_keys E D d n keys = (case cell_path n of
      Inl e \<Rightarrow> Inl e
    | Inr p \<Rightarrow> load_with_keys E D d p keys)"

definition load_cell :: "codec_env \<Rightarrow> 'd driver \<Rightarrow> 'd \<Rightarrow> string \<Rightarrow> manifest res" where
  "load_cell E D d n = load_cell_with_keys E D d n None"

subsection \<open>Lemmas\<close>

lemma hex_utf8 [simp]: "valid_utf8 (hex_encode b)"
proof -
  have "list_all (\<lambda>c. (of_char c :: nat) < 128) (hex_encode b)"
    using hex_encode_lower [of _ b] by (fastforce simp: list_all_iff is_lower_hex_def Let_def)
  then show ?thesis by (rule valid_utf8_ascii)
qed

lemma layout_utf8 [simp]: "valid_utf8 layout_inline" "valid_utf8 layout_target"
  by code_simp+

lemma inline_manifest_utf8:
  assumes "valid_utf8 algo" "length payload < 2 ^ 63"
  shows "manifest_utf8 (inline_manifest n now payload (hex_encode b) \<lparr> hash_algo := algo \<rparr>)"
proof -
  have "valid_utf8 ''init''" "valid_utf8 []" by code_simp+
  then show ?thesis
    using assms by (simp add: manifest_utf8_def inline_manifest_def)
qed

definition env_faithful :: "codec_env \<Rightarrow> bool" where
  "env_faithful E = ((\<exists>compact. json_faithful (ce_json E) compact) \<and> aead_correct (ce_cipher E)
     \<and> nonces_ok (ce_nonces E))"

lemma build_inline_okD:
  assumes "build_inline_manifest E now n payload algo crypto dek kid = Inr (fb, m)"
  obtains h d where "ce_hashes E algo = Some h"
    "compute_manifest_digest (ce_json E) (ce_cipher E) (ce_hashes E) (ce_nonces E)
       (inline_manifest n now payload (hex_encode (h payload))) algo EncodingJSON crypto dek kid = Inr (d, fb, m)"
  using assms
  by (auto simp: build_inline_manifest_def new_hasher_def split: sum.splits option.splits prod.splits)

lemma decode_built_inline:
  assumes e: "env_faithful E" and b: "build_inline_manifest E now n payload algo crypto dek kid = Inr (fb, m)"
    and u: "valid_utf8 algo" "length payload < 2 ^ 63" "length fb \<le> max_manifest_size"
    and k: "is_plain crypto \<or> (\<exists>cands get. keys = Some get \<and> get kid = Inr cands \<and> dek \<in> set cands
              \<and> key_committing (ce_cipher E) dek cands)"
  shows "decode_encrypted (ce_json E) (ce_cipher E) fb keys = Inr (persisted m)
    \<and> inline_blob m = payload \<and> blob_storage m = layout_inline
    \<and> verify_inline_payload (ce_hashes E) (persisted m) = Inr ()"
proof -
  obtain h d where h: "ce_hashes E algo = Some h" and
    c: "compute_manifest_digest (ce_json E) (ce_cipher E) (ce_hashes E) (ce_nonces E)
       (inline_manifest n now payload (hex_encode (h payload))) algo EncodingJSON crypto dek kid = Inr (d, fb, m)"
    using b by (rule build_inline_okD)
  let ?m = "inline_manifest n now payload (hex_encode (h payload)) \<lparr> hash_algo := algo \<rparr>"
  obtain compact where j: "json_faithful (ce_json E) compact" using e by (auto simp: env_faithful_def)
  have cm: "compact (ext ?m)" "compact (usr ?m)" using j by (auto simp: json_faithful_def inline_manifest_def)
  have mm: "m = ?m \<lparr> digest := d \<rparr>" and
    en: "(if is_plain crypto then encode (ce_json E) ?m EncodingJSON crypto
         else encode_encrypted (ce_json E) (ce_cipher E) (ce_nonces E) ?m EncodingJSON crypto dek kid) = Inr fb"
    using c by (auto simp: compute_manifest_digest_def Let_def split: sum.splits)
  note mu = inline_manifest_utf8 [OF u(1,2), of n now "h payload"]
  have "decode_encrypted (ce_json E) (ce_cipher E) fb keys = Inr (persisted ?m)"
  proof (cases "is_plain crypto")
    case True
    then show ?thesis using decode_encode_plain [OF j mu cm _ u(3)] en by simp
  next
    case False
    then obtain cands get where g: "keys = Some get" "get kid = Inr cands" "dek \<in> set cands"
        "key_committing (ce_cipher E) dek cands" using k by blast
    have a: "aead_correct (ce_cipher E)" "nonces_ok (ce_nonces E)" using e by (auto simp: env_faithful_def)
    have "encode_encrypted (ce_json E) (ce_cipher E) (ce_nonces E) ?m EncodingJSON crypto dek kid = Inr fb"
      using en False by simp
    then show ?thesis
      using decode_encode_encrypted [of "ce_json E" compact ?m "ce_cipher E" dek cands "ce_nonces E"
          EncodingJSON crypto kid fb get] j mu cm a g u(3) by simp
  qed
  moreover have "persisted ?m = persisted m" by (simp add: mm persisted_def)
  moreover have "verify_inline_payload (ce_hashes E) (persisted m) = Inr ()"
    using h by (simp add: mm verify_inline_payload_def parse_content_hash_def new_hasher_def persisted_def
        inline_manifest_def)
  ultimately show ?thesis by (simp add: mm inline_manifest_def)
qed

lemma load_with_keys_ok:
  assumes "d_get D d p = Inr fb" "length fb \<le> max_manifest_size"
    "decode_encrypted (ce_json E) (ce_cipher E) fb keys = Inr m"
    "blob_storage m = layout_inline" "verify_inline_payload (ce_hashes E) m = Inr ()"
  shows "load_with_keys E D d p keys = Inr m"
  using assms by (simp add: load_with_keys_def Let_def)

lemma persisted_blob [simp]: "inline_blob (persisted m) = inline_blob m" "blob_storage (persisted m) = blob_storage m"
  by (simp_all add: persisted_def)

text \<open>C23: a system artifact written to a cell is read back.  When the inline manifest of a payload has been
  built in any crypto mode and written to the cell of a name on a working local filesystem, loading
  the cell verifies and returns exactly that payload.\<close>

theorem cell_roundtrip:
  assumes "env_faithful E" and "build_inline_manifest E now n payload algo crypto dek kid = Inr (fb, m)"
    and "valid_utf8 algo" and "length payload < 2 ^ 63" and "length fb \<le> max_manifest_size"
    and "is_plain crypto \<or> (\<exists>cands get. keys = Some get \<and> get kid = Inr cands \<and> dek \<in> set cands
              \<and> key_committing (ce_cipher E) dek cands)"
    and "plain_name n" and "lfs_rel d" and "write_cell localfs_driver d n fb False = (r, d')"
  shows "r = Inr () \<and> (\<exists>m'. load_cell_with_keys E localfs_driver d' n keys = Inr m' \<and> inline_blob m' = payload)"
proof -
  note n = named_okD [OF named_ok_clean [OF assms(7)]]
  note dec = decode_built_inline [OF assms(1-6)]
  obtain d2 where w: "d_put localfs_driver d (cpath n) (fb, None) False = (Inr (), d2)"
    "lfs_view d2 = (lfs_view d)(cpath n \<mapsto> fb)" "lfs_rel d2"
    using rlfs.put_total [OF assms(8) n(5), of False fb] by blast
  have r: "r = Inr ()" "d' = d2"
    using assms(9) w(1) by (simp_all add: write_cell_def cell_path_ok [OF n(2)])
  have "d_get localfs_driver d' (cpath n) = Inr fb"
    using rlfs.rel_get [OF w(3) n(5)] w(2) r(2) by simp
  then have "load_with_keys E localfs_driver d' (cpath n) keys = Inr (persisted m)"
    using load_with_keys_ok [of localfs_driver d' "cpath n" fb E keys "persisted m"] dec assms(5) by simp
  then show ?thesis
    using r(1) dec by (auto simp: load_cell_with_keys_def cell_path_ok [OF n(2)])
qed

text \<open>A concrete environment: the table codec over the bodies that are written.\<close>

definition table_env :: "json_body list \<Rightarrow> codec_env" where
  "table_env bs = \<lparr> ce_json = table_codec bs, ce_cipher = const_tag_cipher,
     ce_hashes = sample_registry, ce_nonces = sample_nonces \<rparr>"

lemma table_index_total: "x \<in> set ys \<Longrightarrow> \<exists>i. table_index ys x = Some i"
  by (induction ys) auto

lemma table_codec_total:
  assumes "b \<in> set bs"
  obtains t where "jc_marshal (table_codec bs) b = Inr t" "length t < length bs"
  using table_index_total [OF assms] table_index_nth [of bs b] by (auto simp: table_codec_def)

lemma sample_nonces_ok: "nonces_ok sample_nonces"
  by (simp add: nonces_ok_def sample_nonces_def nonce_len_def Let_def)

lemma table_env_faithful: "env_faithful (table_env bs)"
  using table_codec_faithful const_tag_correct sample_nonces_ok
  by (auto simp: env_faithful_def table_env_def)

lemma plain_header:
  "write_header \<lparr> fh_encoding = EncodingJSON, fh_crypto = CryptoPlain, fh_key_id = [] \<rparr>
    = Inr (magic_json @ [CHR 0x00])"
  by code_simp

lemma inline_manifest_slot:
  assumes "n \<noteq> []" "payload \<noteq> []"
  shows "validate_slot (inline_manifest n now payload ch \<lparr> hash_algo := algo \<rparr>) = Inr ()"
    "check_ref_limits (inline_manifest n now payload ch \<lparr> hash_algo := algo \<rparr>) = Inr ()"
  using assms by (simp_all add: inline_manifest_def validate_slot_def check_ref_limits_def
      check_handle_refs_def is_system_def limit_defs)

lemma table_env_builds:
  assumes "n \<noteq> []" "payload \<noteq> []"
    "body_of (inline_manifest n now payload (hex_encode (len_hash payload)) \<lparr> hash_algo := ''sha256'' \<rparr>) \<in> set bs"
  obtains fb m where "build_inline_manifest (table_env bs) now n payload ''sha256'' CryptoPlain [] [] = Inr (fb, m)"
    "length fb < 5 + length bs"
proof -
  obtain t where t: "jc_marshal (table_codec bs) (body_of (inline_manifest n now payload
      (hex_encode (len_hash payload)) \<lparr> hash_algo := ''sha256'' \<rparr>)) = Inr t" "length t < length bs"
    using assms(3) by (rule table_codec_total)
  have l: "length (magic_json @ [CHR 0x00] @ t) < 5 + length bs" using t(2) by (simp add: magic_json_def)
  show thesis
    by (rule that [OF _ l]) (simp add: build_inline_manifest_def table_env_def new_hasher_def
        sample_registry_def compute_manifest_digest_def is_plain_def encode_def plain_header
        inline_manifest_slot [OF assms(1,2)] marshal_body_json_def t(1) Let_def)
qed

definition sample_cell_env :: codec_env where
  "sample_cell_env = table_env
     [body_of (inline_manifest ''cfg'' 0 ''payload'' (hex_encode (len_hash ''payload'')) \<lparr> hash_algo := ''sha256'' \<rparr>)]"

theorem cell_roundtrip_witness:
  "\<exists>d' fb m m'. build_inline_manifest sample_cell_env 0 ''cfg'' ''payload'' ''sha256'' CryptoPlain [] [] = Inr (fb, m)
    \<and> write_cell localfs_driver sample_fs ''cfg'' fb False = (Inr (), d')
    \<and> load_cell_with_keys sample_cell_env localfs_driver d' ''cfg'' None = Inr m' \<and> inline_blob m' = ''payload''"
proof -
  let ?b = "body_of (inline_manifest ''cfg'' 0 ''payload'' (hex_encode (len_hash ''payload'')) \<lparr> hash_algo := ''sha256'' \<rparr>)"
  obtain fb m where b: "build_inline_manifest sample_cell_env 0 ''cfg'' ''payload'' ''sha256'' CryptoPlain [] []
      = Inr (fb, m)" "length fb < 5 + length [?b]"
    using table_env_builds [of "''cfg''" "''payload''" 0 "[?b]"] unfolding sample_cell_env_def by auto
  obtain r d' where w: "write_cell localfs_driver sample_fs ''cfg'' fb False = (r, d')" by fastforce
  have e: "env_faithful sample_cell_env" by (simp add: sample_cell_env_def table_env_faithful)
  have u: "valid_utf8 ''sha256''" by code_simp
  have l: "length fb \<le> max_manifest_size" using b(2) by (simp add: max_manifest_size_def)
  show ?thesis
    using cell_roundtrip [OF e b(1) u _ l _ sample_name sample_fs_facts(1) w, of None] b(1) w
    by (auto simp: is_plain_def)
qed

end
