(* ===== verification/Lease.thy ===== *)
theory Lease
  imports System_Artifact
begin

text \<open>
  The lease (\<^verbatim>\<open>engine/lease/lease.go\<close>): a cell acquired by exclusive create, overwritten by renewal and
  takeover.  \<open>acquire\<close> is the composition of its three driver interactions (plan, commit, verify), so
  that concurrent acquisitions can be interleaved between them (\<open>acq_step\<close>).

  Parameters: the JSON text of a lease record (\<open>le_marshal\<close>, \<open>le_unmarshal\<close>), SHA-256 (\<open>le_sha256\<close>), the
  codec environment of the manifest, and the random bytes of the nonce.
\<close>

record lease_record =
  r_host :: string
  r_acquired :: time
  r_expires :: time
  r_agent :: string
  r_nonce :: string
  r_store :: string

record record_wire =
  w_host :: string
  w_acquired :: timestamp
  w_expires :: timestamp
  w_agent :: string
  w_nonce :: string
  w_store :: string

record lease_env =
  le_codec :: codec_env
  le_sha256 :: hash_fun
  le_marshal :: "record_wire \<Rightarrow> bytes"
  le_unmarshal :: "bytes \<Rightarrow> record_wire option"

record lease =
  l_name :: string
  l_host :: string
  l_agent :: string
  l_ttl :: int
  l_nonce :: string
  l_store :: string

record lease_config =
  lc_name :: string
  lc_host :: string
  lc_agent :: string
  lc_ttl :: int
  lc_store :: string
  lc_force :: bool

definition marshal_record :: "lease_env \<Rightarrow> lease_record \<Rightarrow> bytes" where
  "marshal_record E r = le_marshal E \<lparr> w_host = r_host r, w_acquired = time_format (r_acquired r),
     w_expires = time_format (r_expires r), w_agent = r_agent r, w_nonce = r_nonce r, w_store = r_store r \<rparr>"

definition unmarshal_record :: "lease_env \<Rightarrow> bytes \<Rightarrow> lease_record res" where
  "unmarshal_record E b =
     (case le_unmarshal E b of
        None \<Rightarrow> Inl (ErrMsg ''json'')
      | Some w \<Rightarrow>
     (case time_parse (w_acquired w) of
        Inl e \<Rightarrow> Inl e
      | Inr a \<Rightarrow>
     (case time_parse (w_expires w) of
        Inl e \<Rightarrow> Inl e
      | Inr x \<Rightarrow> Inr \<lparr> r_host = w_host w, r_acquired = a, r_expires = x, r_agent = w_agent w,
                       r_nonce = w_nonce w, r_store = w_store w \<rparr>)))"

definition expired :: "lease_record \<Rightarrow> time \<Rightarrow> bool" where
  "expired r now = (\<not> now < r_expires r)"

definition lease_hash_algo :: string where "lease_hash_algo = ''sha256''"

definition lease_hashes :: "hash_fun \<Rightarrow> hash_registry" where
  "lease_hashes sha algo = (if algo = lease_hash_algo then Some sha else None)"

definition lease_codec :: "lease_env \<Rightarrow> codec_env" where
  "lease_codec E = (le_codec E) \<lparr> ce_hashes := lease_hashes (le_sha256 E) \<rparr>"

definition lease_record_of :: "lease \<Rightarrow> time \<Rightarrow> lease_record" where
  "lease_record_of l now = \<lparr> r_host = l_host l, r_acquired = now, r_expires = nat (int now + l_ttl l),
     r_agent = l_agent l, r_nonce = l_nonce l, r_store = l_store l \<rparr>"

text \<open>The manifest bytes of \<^verbatim>\<open>write\<close>.\<close>

definition lease_build :: "lease_env \<Rightarrow> lease \<Rightarrow> time \<Rightarrow> (bytes \<times> manifest) res" where
  "lease_build E l now = build_inline_manifest (lease_codec E) now (l_name l)
     (marshal_record E (lease_record_of l now)) lease_hash_algo CryptoPlain [] []"

definition lease_write :: "lease_env \<Rightarrow> 'd driver \<Rightarrow> 'd \<Rightarrow> lease \<Rightarrow> bool \<Rightarrow> unit res \<times> 'd" where
  "lease_write E D d l exclusive =
     (case lease_build E l (d_now D d) of
        Inl e \<Rightarrow> (Inl e, d)
      | Inr (fb, _) \<Rightarrow> write_cell D d (l_name l) fb exclusive)"

definition lease_read :: "lease_env \<Rightarrow> 'd driver \<Rightarrow> 'd \<Rightarrow> string \<Rightarrow> lease_record res" where
  "lease_read E D d n =
     (case load_cell (lease_codec E) D d n of
        Inl e \<Rightarrow> Inl (if e = ErrArtifactNotFound then e else ErrAlreadyExists)
      | Inr m \<Rightarrow>
     (case unmarshal_record E (inline_blob m) of
        Inl _ \<Rightarrow> Inl ErrAlreadyExists
      | Inr r \<Rightarrow> Inr r))"

definition is_not_found :: "err \<Rightarrow> bool" where
  "is_not_found e = (e = ErrArtifactNotFound \<or> e = ErrNotExist)"

subsection \<open>Acquire\<close>

datatype acquire_plan = PlanCreate | PlanTakeover lease_record

definition acquire_read :: "lease_env \<Rightarrow> 'd driver \<Rightarrow> 'd \<Rightarrow> lease_config \<Rightarrow> acquire_plan res" where
  "acquire_read E D d cfg =
     (case lease_read E D d (lc_name cfg) of
        Inl e \<Rightarrow> if e = ErrAlreadyExists \<or> is_not_found e then Inr PlanCreate else Inl e
      | Inr current \<Rightarrow>
          let now = d_now D d;
              foreign = classify_store_ownership (r_store current) (lc_store cfg) = OwnershipForeign
          in if \<not> foreign \<and> \<not> expired current now \<and> r_host current \<noteq> lc_host cfg \<and> \<not> lc_force cfg
             then Inl ErrLeaseHeld
             else Inr (PlanTakeover current))"

definition acquire_commit :: "lease_env \<Rightarrow> 'd driver \<Rightarrow> 'd \<Rightarrow> lease \<Rightarrow> acquire_plan \<Rightarrow> unit res \<times> 'd" where
  "acquire_commit E D d l p =
     (case p of
        PlanCreate \<Rightarrow> (case lease_write E D d l True of
            (Inl e, d') \<Rightarrow> (Inl (if e = ErrAlreadyExists then ErrLeaseHeld else e), d')
          | (Inr _, d') \<Rightarrow> (Inr (), d'))
      | PlanTakeover _ \<Rightarrow> lease_write E D d l False)"

definition acquire_verify ::
    "lease_env \<Rightarrow> 'd driver \<Rightarrow> 'd \<Rightarrow> lease \<Rightarrow> acquire_plan \<Rightarrow> (lease \<times> lease_record option) res" where
  "acquire_verify E D d l p =
     (case p of
        PlanCreate \<Rightarrow> Inr (l, None)
      | PlanTakeover current \<Rightarrow>
     (case lease_read E D d (l_name l) of
        Inl e \<Rightarrow> Inl e
      | Inr after \<Rightarrow>
          if r_nonce after \<noteq> l_nonce l then Inl ErrLeaseHeld
          else Inr (l, if r_host current \<noteq> l_host l then Some current else None)))"

definition new_nonce :: "bytes option \<Rightarrow> string res" where
  "new_nonce rnd = (case rnd of None \<Rightarrow> Inl (ErrMsg ''rand'') | Some b \<Rightarrow> Inr (b64_encode b))"

definition lease_of :: "lease_config \<Rightarrow> string \<Rightarrow> lease" where
  "lease_of cfg nonce = \<lparr> l_name = lc_name cfg, l_host = lc_host cfg, l_agent = lc_agent cfg,
     l_ttl = lc_ttl cfg, l_nonce = nonce, l_store = lc_store cfg \<rparr>"

definition acquire ::
    "lease_env \<Rightarrow> 'd driver \<Rightarrow> 'd \<Rightarrow> lease_config \<Rightarrow> bytes option \<Rightarrow> (lease \<times> lease_record option) res \<times> 'd" where
  "acquire E D d cfg rnd =
     (if lc_name cfg = [] \<or> lc_host cfg = [] \<or> lc_ttl cfg \<le> 0
      then (Inl (ErrMsg ''Name, HostID and TTL>0 are required''), d)
      else case validate_name (lc_name cfg) of
        Inl e \<Rightarrow> (Inl e, d)
      | Inr _ \<Rightarrow>
     (case new_nonce rnd of
        Inl e \<Rightarrow> (Inl e, d)
      | Inr nonce \<Rightarrow> let l = lease_of cfg nonce in
         (case acquire_read E D d cfg of
            Inl e \<Rightarrow> (Inl e, d)
          | Inr p \<Rightarrow>
         (case acquire_commit E D d l p of
            (Inl e, d') \<Rightarrow> (Inl e, d')
          | (Inr _, d') \<Rightarrow> (acquire_verify E D d' l p, d')))))"

subsection \<open>Renew, Release, Heartbeat\<close>

definition renew :: "lease_env \<Rightarrow> 'd driver \<Rightarrow> 'd \<Rightarrow> lease \<Rightarrow> unit res \<times> 'd" where
  "renew E D d l =
     (case lease_read E D d (l_name l) of
        Inl e \<Rightarrow> (Inl (if is_not_found e then ErrLeaseLost else e), d)
      | Inr current \<Rightarrow>
          if r_host current \<noteq> l_host l \<or> r_nonce current \<noteq> l_nonce l then (Inl ErrLeaseLost, d)
          else lease_write E D d l False)"

definition release :: "lease_env \<Rightarrow> 'd driver \<Rightarrow> 'd \<Rightarrow> lease \<Rightarrow> unit res \<times> 'd" where
  "release E D d l =
     (case lease_read E D d (l_name l) of
        Inl e \<Rightarrow> (if is_not_found e then Inr () else Inl e, d)
      | Inr current \<Rightarrow>
          if r_host current \<noteq> l_host l \<or> r_nonce current \<noteq> l_nonce l then (Inr (), d)
          else remove_cell D d (l_name l))"

text \<open>Each element of the list is a tick, with what the other processes did to the medium before it;
  the end of the list is the cancellation of the context.\<close>

fun heartbeat :: "lease_env \<Rightarrow> 'd driver \<Rightarrow> 'd \<Rightarrow> lease \<Rightarrow> ('d \<Rightarrow> 'd) list \<Rightarrow> err \<times> 'd" where
  "heartbeat E D d l [] = (ErrContext, d)"
| "heartbeat E D d l (f # fs) =
     (case renew E D (f d) l of
        (Inl e, d') \<Rightarrow> (e, d')
      | (Inr _, d') \<Rightarrow> heartbeat E D d' l fs)"

subsection \<open>Interleaved acquisitions\<close>

datatype acquirer = AIdle | APlanned acquire_plan | AWritten acquire_plan | AHeld | ARefused err

text \<open>Process \<open>i\<close>, one of \<open>N\<close>, acquires with configuration \<open>cf i\<close> and nonce \<open>nc i\<close>.  \<open>drift\<close> is what may
  happen to the driver state between the steps (time passing), \<open>win\<close> the instants at which steps run.\<close>

inductive acq_step ::
    "lease_env \<Rightarrow> 'd driver \<Rightarrow> nat \<Rightarrow> (nat \<Rightarrow> lease_config) \<Rightarrow> (nat \<Rightarrow> string) \<Rightarrow> ('d \<Rightarrow> 'd \<Rightarrow> bool)
      \<Rightarrow> (time \<Rightarrow> bool) \<Rightarrow> 'd \<times> (nat \<Rightarrow> acquirer) \<Rightarrow> 'd \<times> (nat \<Rightarrow> acquirer) \<Rightarrow> bool"
  for E D N cf nc drift win where
  acq_drift: "drift d d' \<Longrightarrow> acq_step E D N cf nc drift win (d, ph) (d', ph)"
| acq_plan: "i < N \<Longrightarrow> ph i = AIdle \<Longrightarrow> win (d_now D d) \<Longrightarrow> acquire_read E D d (cf i) = r \<Longrightarrow>
    acq_step E D N cf nc drift win (d, ph)
      (d, ph(i := (case r of Inl e \<Rightarrow> ARefused e | Inr p \<Rightarrow> APlanned p)))"
| acq_commit: "i < N \<Longrightarrow> ph i = APlanned p \<Longrightarrow> win (d_now D d) \<Longrightarrow>
    acquire_commit E D d (lease_of (cf i) (nc i)) p = (r, d') \<Longrightarrow>
    acq_step E D N cf nc drift win (d, ph)
      (d', ph(i := (case r of Inl e \<Rightarrow> ARefused e | Inr _ \<Rightarrow> AWritten p)))"
| acq_verify: "i < N \<Longrightarrow> ph i = AWritten p \<Longrightarrow> acquire_verify E D d (lease_of (cf i) (nc i)) p = r \<Longrightarrow>
    acq_step E D N cf nc drift win (d, ph)
      (d, ph(i := (case r of Inl e \<Rightarrow> ARefused e | Inr _ \<Rightarrow> AHeld)))"

inductive_cases acq_stepE: "acq_step E D N cf nc drift win s s'"

subsection \<open>What is relied on\<close>

definition wire_ok :: "record_wire \<Rightarrow> bool" where
  "wire_ok w = (list_all valid_utf8 [w_host w, w_agent w, w_nonce w, w_store w]
     \<and> (\<forall>t. w_acquired w \<noteq> TsMalformed t) \<and> (\<forall>t. w_expires w \<noteq> TsMalformed t))"

text \<open>The manifest codec and the JSON text of a lease record are faithful.\<close>

definition lease_env_ok :: "lease_env \<Rightarrow> bool" where
  "lease_env_ok E = (env_faithful (le_codec E)
     \<and> (\<forall>w. wire_ok w \<longrightarrow> le_unmarshal E (le_marshal E w) = Some w))"

text \<open>A lease record that can be encoded, within the limit the reader imposes.\<close>

definition lease_fits :: "lease_env \<Rightarrow> lease \<Rightarrow> time \<Rightarrow> bool" where
  "lease_fits E l now = (list_all valid_utf8 [l_host l, l_agent l, l_nonce l, l_store l]
     \<and> length (marshal_record E (lease_record_of l now)) < 2 ^ 63
     \<and> (case lease_build E l now of Inl _ \<Rightarrow> False | Inr (fb, _) \<Rightarrow> length fb \<le> max_manifest_size))"

definition stored_record :: "lease_record \<Rightarrow> lease_record" where
  "stored_record r = r \<lparr> r_acquired := trunc_second (r_acquired r), r_expires := trunc_second (r_expires r) \<rparr>"

lemma stored_record_simps [simp]:
  "r_host (stored_record r) = r_host r" "r_nonce (stored_record r) = r_nonce r"
  "r_store (stored_record r) = r_store r" "r_expires (stored_record r) = trunc_second (r_expires r)"
  "r_agent (stored_record r) = r_agent r"
  by (simp_all add: stored_record_def)

lemma lease_record_simps [simp]:
  "r_host (lease_record_of l t) = l_host l" "r_nonce (lease_record_of l t) = l_nonce l"
  "r_store (lease_record_of l t) = l_store l" "r_expires (lease_record_of l t) = nat (int t + l_ttl l)"
  "r_agent (lease_record_of l t) = l_agent l" "r_acquired (lease_record_of l t) = t"
  by (simp_all add: lease_record_of_def)

lemma lease_of_simps [simp]:
  "l_name (lease_of c k) = lc_name c" "l_host (lease_of c k) = lc_host c" "l_nonce (lease_of c k) = k"
  "l_store (lease_of c k) = lc_store c" "l_ttl (lease_of c k) = lc_ttl c" "l_agent (lease_of c k) = lc_agent c"
  by (simp_all add: lease_of_def)

lemma time_format_wf [simp]: "time_format t \<noteq> TsMalformed u"
  by (simp add: time_format_def)

lemma record_roundtrip:
  assumes "lease_env_ok E" "list_all valid_utf8 [r_host r, r_agent r, r_nonce r, r_store r]"
  shows "unmarshal_record E (marshal_record E r) = Inr (stored_record r)"
proof -
  let ?w = "\<lparr> w_host = r_host r, w_acquired = time_format (r_acquired r),
     w_expires = time_format (r_expires r), w_agent = r_agent r, w_nonce = r_nonce r, w_store = r_store r \<rparr>"
  have "wire_ok ?w" using assms(2) by (simp add: wire_ok_def)
  then have "le_unmarshal E (le_marshal E ?w) = Some ?w" using assms(1) by (simp add: lease_env_ok_def)
  then show ?thesis
    by (simp add: unmarshal_record_def marshal_record_def stored_record_def)
qed

lemma sha256_utf8 [simp]: "valid_utf8 lease_hash_algo"
  unfolding lease_hash_algo_def by code_simp

lemma lease_codec_faithful: "lease_env_ok E \<Longrightarrow> env_faithful (lease_codec E)"
  by (simp add: lease_env_ok_def env_faithful_def lease_codec_def)

text \<open>What \<^verbatim>\<open>write\<close> puts in the cell is what \<^verbatim>\<open>read\<close> finds there, with whole seconds.\<close>

lemma lease_read_file:
  assumes e: "lease_env_ok E" and f: "lease_fits E l now" and b: "lease_build E l now = Inr (fb, m)"
    and n: "validate_name (l_name l) = Inr ()" and g: "d_get D d (cpath (l_name l)) = Inr fb"
  shows "lease_read E D d (l_name l) = Inr (stored_record (lease_record_of l now))"
proof -
  have len: "length fb \<le> max_manifest_size" using f b by (simp add: lease_fits_def)
  note dec = decode_built_inline [OF lease_codec_faithful [OF e] b [unfolded lease_build_def] sha256_utf8 _ len,
      of None]
  have d: "decode_encrypted (ce_json (lease_codec E)) (ce_cipher (lease_codec E)) fb None = Inr (persisted m)"
      "inline_blob m = marshal_record E (lease_record_of l now)" "blob_storage m = layout_inline"
      "verify_inline_payload (ce_hashes (lease_codec E)) (persisted m) = Inr ()"
    using dec f by (simp_all add: lease_fits_def is_plain_def)
  have "load_cell (lease_codec E) D d (l_name l) = Inr (persisted m)"
    using load_with_keys_ok [OF g len d(1) _ d(4)] d(3)
    by (simp add: load_cell_def load_cell_with_keys_def cell_path_ok [OF n])
  moreover have "unmarshal_record E (inline_blob m) = Inr (stored_record (lease_record_of l now))"
    unfolding d(2) by (rule record_roundtrip [OF e]) (use f in \<open>simp add: lease_fits_def\<close>)
  ultimately show ?thesis by (simp add: lease_read_def)
qed

lemma lease_read_absent:
  assumes "validate_name n = Inr ()" "d_get D d (cpath n) = Inl ErrNotExist"
  shows "lease_read E D d n = Inl ErrArtifactNotFound"
  using assms by (simp add: lease_read_def load_cell_def load_cell_with_keys_def load_with_keys_def cell_path_ok)

lemma lease_read_errors: "lease_read E D d n = Inl e \<Longrightarrow> e = ErrArtifactNotFound \<or> e = ErrAlreadyExists"
  by (auto simp: lease_read_def split: sum.splits if_splits)

text \<open>A successful read comes from the bytes of the cell.\<close>

lemma lease_read_get:
  assumes "lease_read E D d n = Inr r" "validate_name n = Inr ()"
  obtains fb where "d_get D d (cpath n) = Inr fb"
  using assms by (cases "d_get D d (cpath n)")
    (auto simp: lease_read_def load_cell_def load_cell_with_keys_def load_with_keys_def cell_path_ok)

context driver_laws
begin

lemma lease_write_cases:
  assumes "inv d" "named_ok ok (l_name l)" "lease_write E D d l x = (r, d')"
  shows "inv d' \<and> ((view d' = view d \<and> r \<noteq> Inr ()) \<or>
    (\<exists>fb m. lease_build E l (d_now D d) = Inr (fb, m) \<and> view d' = (view d)(cpath (l_name l) \<mapsto> fb)
       \<and> (x \<longrightarrow> view d (cpath (l_name l)) = None)))"
proof (cases "lease_build E l (d_now D d)")
  case (Inl e)
  then show ?thesis using assms(1,3) by (auto simp: lease_write_def)
next
  case (Inr b)
  obtain fb m where b: "b = (fb, m)" by fastforce
  note n = named_okD [OF assms(2)]
  have p: "d_put D d (cpath (l_name l)) (fb, None) x = (r, d')"
    using assms(3) Inr b by (simp add: lease_write_def write_cell_def cell_path_ok [OF n(2)])
  have i: "inv d'" using inv_keep(1) [OF assms(1), of "cpath (l_name l)" "(fb, None)" x] p by simp
  show ?thesis
  proof (cases r)
    case r: (Inl e)
    show ?thesis
      using put_err [OF assms(1) n(5), of "(fb, None)" x e d'] p i Inr b unfolding r by auto
  next
    case r: (Inr u)
    show ?thesis
      using put_ok [OF assms(1) n(5), of "(fb, None)" x u d'] p i Inr b unfolding r by auto
  qed
qed

end

subsection \<open>Mutual exclusion of acquisitions on an empty slot\<close>

definition acq_setting ::
    "lease_env \<Rightarrow> nat \<Rightarrow> (nat \<Rightarrow> lease_config) \<Rightarrow> (nat \<Rightarrow> string) \<Rightarrow> string \<Rightarrow> (time \<Rightarrow> bool) \<Rightarrow> bool" where
  "acq_setting E N cf nc n win = (lease_env_ok E
     \<and> (\<forall>i < N. lc_name (cf i) = n \<and> \<not> lc_force (cf i))
     \<and> (\<forall>i < N. \<forall>j < N. lc_host (cf i) = lc_host (cf j) \<longrightarrow> i = j)
     \<and> (\<forall>i < N. \<forall>j < N. classify_store_ownership (lc_store (cf i)) (lc_store (cf j)) \<noteq> OwnershipForeign)
     \<and> (\<forall>i < N. \<forall>t. win t \<longrightarrow> lease_fits E (lease_of (cf i) (nc i)) t)
     \<and> (\<forall>i < N. \<forall>t t'. win t \<and> win t' \<longrightarrow> t' < trunc_second (nat (int t + lc_ttl (cf i)))))"

lemma acq_settingD:
  assumes "acq_setting E N cf nc n win" "i < N"
  shows "lease_env_ok E" "lc_name (cf i) = n" "\<not> lc_force (cf i)"
    "j < N \<Longrightarrow> lc_host (cf i) = lc_host (cf j) \<Longrightarrow> i = j"
    "j < N \<Longrightarrow> classify_store_ownership (lc_store (cf i)) (lc_store (cf j)) \<noteq> OwnershipForeign"
    "win t \<Longrightarrow> lease_fits E (lease_of (cf i) (nc i)) t"
    "win t \<Longrightarrow> win t' \<Longrightarrow> t' < trunc_second (nat (int t + lc_ttl (cf i)))"
  using assms unfolding acq_setting_def by blast+

fun before_commit :: "acquirer \<Rightarrow> bool" where
  "before_commit AIdle = True"
| "before_commit (APlanned p) = (p = PlanCreate)"
| "before_commit (ARefused e) = True"
| "before_commit _ = False"

fun past_commit :: "acquirer \<Rightarrow> bool" where
  "past_commit (AWritten p) = (p = PlanCreate)"
| "past_commit AHeld = True"
| "past_commit (ARefused e) = True"
| "past_commit _ = False"

definition acq_inv ::
    "lease_env \<Rightarrow> nat \<Rightarrow> (nat \<Rightarrow> lease_config) \<Rightarrow> (nat \<Rightarrow> string) \<Rightarrow> string \<Rightarrow> (time \<Rightarrow> bool) \<Rightarrow> (path \<rightharpoonup> bytes)
      \<Rightarrow> (nat \<Rightarrow> acquirer) \<Rightarrow> bool" where
  "acq_inv E N cf nc n win v ph =
     ((v (cpath n) = None \<and> (\<forall>j. before_commit (ph j)))
      \<or> (\<exists>i t fb m. i < N \<and> win t \<and> lease_build E (lease_of (cf i) (nc i)) t = Inr (fb, m) \<and> v (cpath n) = Some fb
           \<and> past_commit (ph i) \<and> (\<forall>j. j \<noteq> i \<longrightarrow> before_commit (ph j))))"

text \<open>A process that reads the lease of a live peer is refused or plans an exclusive create.\<close>

lemma acquire_read_live:
  assumes s: "acq_setting E N cf nc n win" and w: "win t" "win (d_now D d)" and ij: "i \<noteq> j" "i < N" "j < N"
    and b: "lease_build E (lease_of (cf i) (nc i)) t = Inr (fb, m)"
    and g: "\<And>b. d_get D d (cpath n) = Inr b \<Longrightarrow> b = fb" and n: "validate_name n = Inr ()"
    and r: "acquire_read E D d (cf j) = Inr p"
  shows "p = PlanCreate"
proof (cases "lease_read E D d n")
  case (Inl e)
  then show ?thesis using r acq_settingD(2) [OF s ij(3)] by (auto simp: acquire_read_def split: if_splits)
next
  case (Inr rec)
  let ?l = "lease_of (cf i) (nc i)"
  note si = acq_settingD [OF s ij(2)] and sj = acq_settingD [OF s ij(3)]
  have ln: "l_name ?l = n" using si(2) by simp
  have "d_get D d (cpath n) = Inr fb" using Inr lease_read_get [OF _ n] g by metis
  then have "lease_read E D d (l_name ?l) = Inr (stored_record (lease_record_of ?l t))"
    using lease_read_file [OF si(1) si(6) [OF w(1)] b, of D d] n unfolding ln by simp
  then have rec: "rec = stored_record (lease_record_of ?l t)" using Inr ln by simp
  have "\<not> expired rec (d_now D d)" using si(7) [OF w] by (simp add: rec expired_def)
  moreover have "lc_host (cf i) \<noteq> lc_host (cf j)" using si(4) [OF ij(3)] ij(1) by blast
  ultimately have "acquire_read E D d (cf j) = Inl ErrLeaseHeld"
    using si(5) [OF ij(3)] sj(2,3) Inr by (simp add: acquire_read_def rec)
  then show ?thesis using r by simp
qed

lemma acquire_read_empty:
  assumes "acquire_read E D d c = Inr p" "lc_name c = n" "validate_name n = Inr ()"
    "\<And>b. d_get D d (cpath n) \<noteq> Inr b"
  shows "p = PlanCreate"
proof (cases "lease_read E D d n")
  case (Inl e)
  then show ?thesis using assms(1,2) by (auto simp: acquire_read_def split: if_splits)
next
  case (Inr r)
  then show ?thesis using lease_read_get [OF Inr assms(3)] assms(4) by blast
qed

lemma acq_inv_free: "v (cpath n) = None \<Longrightarrow> (\<And>j. before_commit (ph j)) \<Longrightarrow> acq_inv E N cf nc n win v ph"
  by (simp add: acq_inv_def)

lemma acq_inv_owned:
  "i < N \<Longrightarrow> win t \<Longrightarrow> lease_build E (lease_of (cf i) (nc i)) t = Inr (fb, m) \<Longrightarrow> v (cpath n) = Some fb \<Longrightarrow>
    past_commit (ph i) \<Longrightarrow> (\<And>j. j \<noteq> i \<Longrightarrow> before_commit (ph j)) \<Longrightarrow> acq_inv E N cf nc n win v ph"
  unfolding acq_inv_def by blast

lemma acq_invE:
  assumes "acq_inv E N cf nc n win v ph"
  obtains (free) "v (cpath n) = None" "\<forall>j. before_commit (ph j)"
  | (owned) i t fb m where "i < N" "win t" "lease_build E (lease_of (cf i) (nc i)) t = Inr (fb, m)"
      "v (cpath n) = Some fb" "past_commit (ph i)" "\<forall>j. j \<noteq> i \<longrightarrow> before_commit (ph j)"
  using assms unfolding acq_inv_def by (elim disjE exE conjE)

lemma acq_inv_phase: "acq_inv E N cf nc n win v ph \<Longrightarrow> before_commit (ph k) \<or> past_commit (ph k)"
  unfolding acq_inv_def by metis

lemma acq_inv_before:
  assumes "acq_inv E N cf nc n win v ph" "\<not> past_commit (ph k)" "before_commit a"
  shows "acq_inv E N cf nc n win v (ph(k := a))"
  using assms(1)
proof (cases rule: acq_invE)
  case free
  then show ?thesis using assms(3) by (intro acq_inv_free) auto
next
  case (owned i t fb m)
  have "i \<noteq> k" using owned(5) assms(2) by auto
  then show ?thesis using owned assms(3) by (intro acq_inv_owned [of i N win t E cf nc fb m]) auto
qed

lemma acq_inv_write:
  assumes "acq_inv E N cf nc n win v ph" "v (cpath n) = None" "k < N" "win t"
    "lease_build E (lease_of (cf k) (nc k)) t = Inr (fb, m)" "past_commit a"
  shows "acq_inv E N cf nc n win (v(cpath n \<mapsto> fb)) (ph(k := a))"
  using assms(1)
proof (cases rule: acq_invE)
  case free
  then show ?thesis using assms(3-6) by (intro acq_inv_owned [of k N win t E cf nc fb m]) auto
qed (use assms(2) in simp)

lemma acq_inv_past:
  assumes "acq_inv E N cf nc n win v ph" "\<not> before_commit (ph k)" "past_commit a"
  shows "acq_inv E N cf nc n win v (ph(k := a))"
  using assms(1)
proof (cases rule: acq_invE)
  case free
  then show ?thesis using assms(2) by blast
next
  case (owned i t fb m)
  have "i = k" using owned(6) assms(2) by (cases "i = k") auto
  then show ?thesis using owned assms(3) by (intro acq_inv_owned [of i N win t E cf nc fb m]) auto
qed

context driver_laws
begin

lemma acquire_read_inv:
  assumes s: "acq_setting E N cf nc n win" and n: "named_ok ok n" and w: "win (d_now D d)"
    and i: "inv d" "acq_inv E N cf nc n win (view d) ph" and k: "ph k = AIdle" and kN: "k < N"
    and r: "acquire_read E D d (cf k) = Inr p"
  shows "p = PlanCreate"
  using i(2)
proof (cases rule: acq_invE)
  case free
  have "d_get D d (cpath n) \<noteq> Inr b" for b using get_ok [OF i(1) named_okD(5) [OF n]] free(1) by fastforce
  then show ?thesis
    using acquire_read_empty [OF r _ named_okD(2) [OF n]] s kN by (simp add: acq_setting_def)
next
  case (owned j t fb m)
  have "b = fb" if "d_get D d (cpath n) = Inr b" for b
    using get_ok [OF i(1) named_okD(5) [OF n] that] owned(4) by simp
  moreover have "j \<noteq> k" using owned(5) k by auto
  ultimately show ?thesis
    using acquire_read_live [OF s owned(2) w _ owned(1) kN owned(3) _ named_okD(2) [OF n] r] by blast
qed

lemma acq_commit_inv:
  assumes s: "acq_setting E N cf nc n win" and n: "named_ok ok n" and w: "win (d_now D d)"
    and i: "inv d" "acq_inv E N cf nc n win (view d) ph" and k: "ph k = APlanned PlanCreate" and kN: "k < N"
    and c: "acquire_commit E D d (lease_of (cf k) (nc k)) PlanCreate = (r, d')"
  shows "inv d' \<and> acq_inv E N cf nc n win (view d')
    (ph(k := (case r of Inl e \<Rightarrow> ARefused e | Inr _ \<Rightarrow> AWritten PlanCreate)))"
proof -
  let ?l = "lease_of (cf k) (nc k)" and ?a = "case r of Inl e \<Rightarrow> ARefused e | Inr _ \<Rightarrow> AWritten PlanCreate"
  have ln: "l_name ?l = n" using s kN by (simp add: acq_setting_def)
  obtain r0 where wr: "lease_write E D d ?l True = (r0, d')" and r: "r = Inr () \<longrightarrow> r0 = Inr ()"
    using c by (cases "lease_write E D d ?l True") (auto simp: acquire_commit_def split: sum.splits)
  have p: "past_commit ?a" by (cases r) simp_all
  consider "inv d'" "view d' = view d" "r0 \<noteq> Inr ()"
    | fb m where "inv d'" "lease_build E ?l (d_now D d) = Inr (fb, m)" "view d' = (view d)(cpath n \<mapsto> fb)"
        "view d (cpath n) = None"
    using lease_write_cases [OF i(1) _ wr] n unfolding ln by blast
  then show ?thesis
  proof cases
    case 1
    then have "before_commit ?a" using r by (cases r) auto
    then show ?thesis using 1 acq_inv_before [OF i(2), of k ?a] k by simp
  next
    case 2
    then show ?thesis using acq_inv_write [OF i(2) 2(4) kN w 2(2) p] by simp
  qed
qed

lemma acq_step_inv:
  assumes s: "acq_setting E N cf nc n win" and n: "named_ok ok n"
    and drift: "\<And>d d'. drift d d' \<Longrightarrow> inv d \<Longrightarrow> inv d' \<and> view d' = view d"
    and st: "acq_step E D N cf nc drift win (d, ph) (d', ph')"
    and i0: "inv d" "acq_inv E N cf nc n win (view d) ph"
  shows "inv d' \<and> acq_inv E N cf nc n win (view d') ph'"
  using st
proof cases
  case acq_drift
  then show ?thesis using drift i0 by auto
next
  case (acq_plan k r)
  then have k: "k < N" "ph k = AIdle" "win (d_now D d)" "acquire_read E D d (cf k) = r" "d' = d"
      "ph' = ph(k := (case r of Inl e \<Rightarrow> ARefused e | Inr p \<Rightarrow> APlanned p))" by simp_all
  have "before_commit (case r of Inl e \<Rightarrow> ARefused e | Inr p \<Rightarrow> APlanned p)"
    using acquire_read_inv [OF s n k(3) i0 k(2,1)] k(4) by (cases r) simp_all
  then show ?thesis using acq_inv_before [OF i0(2), of k] k i0(1) by simp
next
  case (acq_commit k p r)
  then have k: "k < N" "ph k = APlanned p" "win (d_now D d)" "acquire_commit E D d (lease_of (cf k) (nc k)) p = (r, d')"
      "ph' = ph(k := (case r of Inl e \<Rightarrow> ARefused e | Inr _ \<Rightarrow> AWritten p))" by simp_all
  have p: "p = PlanCreate" using acq_inv_phase [OF i0(2), of k] k(2) by simp
  show ?thesis using acq_commit_inv [OF s n k(3) i0 k(2) [unfolded p] k(1) k(4) [unfolded p]] unfolding k(5) p .
next
  case (acq_verify k p r)
  then have k: "k < N" "ph k = AWritten p" "acquire_verify E D d (lease_of (cf k) (nc k)) p = r" "d' = d"
      "ph' = ph(k := (case r of Inl e \<Rightarrow> ARefused e | Inr _ \<Rightarrow> AHeld))" by simp_all
  have "past_commit (case r of Inl e \<Rightarrow> ARefused e | Inr _ \<Rightarrow> AHeld)" by (cases r) simp_all
  then show ?thesis using acq_inv_past [OF i0(2), of k] k i0(1) by simp
qed

lemma acq_reach_inv:
  assumes "acq_setting E N cf nc n win" "named_ok ok n"
    and "\<And>d d'. drift d d' \<Longrightarrow> inv d \<Longrightarrow> inv d' \<and> view d' = view d"
    and "(acq_step E D N cf nc drift win)\<^sup>*\<^sup>* (d0, \<lambda>_. AIdle) (d, ph)" and "inv d0" "view d0 (cpath n) = None"
  shows "inv d \<and> acq_inv E N cf nc n win (view d) ph"
  using assms(4)
proof (induction "(d, ph)" arbitrary: d ph rule: rtranclp_induct)
  case base
  then show ?case using assms(5,6) by (auto intro: acq_inv_free)
next
  case (step y)
  then show ?case using acq_step_inv [OF assms(1-3)] by (cases y) blast
qed

end

subsection \<open>Acquisitions on a working driver\<close>

text \<open>The cell holds the record a lease wrote at an instant.\<close>

definition cell_holds :: "lease_env \<Rightarrow> lease \<Rightarrow> time \<Rightarrow> (path \<rightharpoonup> bytes) \<Rightarrow> bool" where
  "cell_holds E l t v = (lease_fits E l t \<and> (\<exists>fb m. lease_build E l t = Inr (fb, m) \<and> v (cpath (l_name l)) = Some fb))"

lemma lease_fits_build: "lease_fits E l t \<Longrightarrow> \<exists>fb m. lease_build E l t = Inr (fb, m)"
  by (auto simp: lease_fits_def split: sum.splits)

context reliable_driver
begin

lemma lease_write_rel:
  assumes "rel d" "named_ok ok (l_name l)" "lease_fits E l (d_now D d)" "\<not> x \<or> view d (cpath (l_name l)) = None"
  obtains d' fb where "lease_write E D d l x = (Inr (), d')" "rel d'" "view d' = (view d)(cpath (l_name l) \<mapsto> fb)"
    "cell_holds E l (d_now D d) (view d')" "d' = snd (d_put D d (cpath (l_name l)) (fb, None) x)"
proof -
  note n = named_okD [OF assms(2)]
  obtain fb m where b: "lease_build E l (d_now D d) = Inr (fb, m)" using lease_fits_build [OF assms(3)] by blast
  obtain d' where p: "d_put D d (cpath (l_name l)) (fb, None) x = (Inr (), d')"
      "view d' = (view d)(cpath (l_name l) \<mapsto> fb)" "rel d'"
    using put_total [OF assms(1) n(5) assms(4)] by blast
  show thesis
    by (rule that [of d' fb]) (use b p assms(3) in \<open>simp_all add: lease_write_def write_cell_def cell_path_ok [OF n(2)] cell_holds_def\<close>)
qed

lemma lease_read_rel:
  assumes "lease_env_ok E" "rel d" "named_ok ok (l_name l)" "cell_holds E l t (view d)"
  shows "lease_read E D d (l_name l) = Inr (stored_record (lease_record_of l t))"
proof -
  obtain fb m where b: "lease_fits E l t" "lease_build E l t = Inr (fb, m)" "view d (cpath (l_name l)) = Some fb"
    using assms(4) by (auto simp: cell_holds_def)
  have "d_get D d (cpath (l_name l)) = Inr fb" using rel_get [OF assms(2) named_okD(5) [OF assms(3)]] b(3) by simp
  then show ?thesis by (rule lease_read_file [OF assms(1) b(1,2) named_okD(2) [OF assms(3)]])
qed

lemma acquire_read_free:
  assumes "rel d" "named_ok ok (lc_name c)" "view d (cpath (lc_name c)) = None"
  shows "acquire_read E D d c = Inr PlanCreate"
proof -
  have "d_get D d (cpath (lc_name c)) = Inl ErrNotExist"
    using rel_get [OF assms(1) named_okD(5) [OF assms(2)]] assms(3) by simp
  then have "lease_read E D d (lc_name c) = Inl ErrArtifactNotFound"
    by (rule lease_read_absent [OF named_okD(2) [OF assms(2)]])
  then show ?thesis by (simp add: acquire_read_def is_not_found_def)
qed

lemma acquire_free:
  assumes "rel d" "named_ok ok (lc_name c)" "view d (cpath (lc_name c)) = None" "lc_host c \<noteq> []" "0 < lc_ttl c"
    "lease_fits E (lease_of c (b64_encode rb)) (d_now D d)"
  obtains d' fb where "acquire E D d c (Some rb) = (Inr (lease_of c (b64_encode rb), None), d')" "rel d'"
    "view d' = (view d)(cpath (lc_name c) \<mapsto> fb)" "cell_holds E (lease_of c (b64_encode rb)) (d_now D d) (view d')"
    "d' = snd (d_put D d (cpath (lc_name c)) (fb, None) True)"
proof -
  let ?l = "lease_of c (b64_encode rb)"
  have ne: "lc_name c \<noteq> []" using named_okD(2) [OF assms(2)] by (auto simp: validate_name_def)
  obtain d' fb where w: "lease_write E D d ?l True = (Inr (), d')" "rel d'" "view d' = (view d)(cpath (lc_name c) \<mapsto> fb)"
      "cell_holds E ?l (d_now D d) (view d')" "d' = snd (d_put D d (cpath (lc_name c)) (fb, None) True)"
    by (rule lease_write_rel [of d ?l E True]) (use assms in simp_all)
  show thesis
    by (rule that [OF _ w(2-5)]) (use w(1) assms(4,5) ne in \<open>simp add: acquire_def named_okD(2) [OF assms(2)] new_nonce_def
        acquire_read_free [OF assms(1-3)] acquire_commit_def acquire_verify_def\<close>)
qed

text \<open>A live lease of another host refuses the acquisition, and nothing is written.\<close>

lemma acquire_refused:
  assumes "lease_env_ok E" "rel d" "named_ok ok (lc_name c)" "cell_holds E l t (view d)" "l_name l = lc_name c"
    "d_now D d < trunc_second (nat (int t + l_ttl l))" "l_host l \<noteq> lc_host c" "\<not> lc_force c"
    "classify_store_ownership (l_store l) (lc_store c) \<noteq> OwnershipForeign" "lc_host c \<noteq> []" "0 < lc_ttl c"
  shows "acquire E D d c (Some rb) = (Inl ErrLeaseHeld, d)"
proof -
  have ne: "lc_name c \<noteq> []" using named_okD(2) [OF assms(3)] by (auto simp: validate_name_def)
  have "lease_read E D d (lc_name c) = Inr (stored_record (lease_record_of l t))"
    using lease_read_rel [OF assms(1,2) _ assms(4)] assms(3,5) by simp
  then have "acquire_read E D d c = Inl ErrLeaseHeld"
    using assms(6-9) by (simp add: acquire_read_def expired_def)
  then show ?thesis using ne assms(10,11) named_okD(2) [OF assms(3)] by (simp add: acquire_def new_nonce_def)
qed

lemma renew_ok:
  assumes "lease_env_ok E" "rel d" "named_ok ok (l_name l)" "cell_holds E l t (view d)" "lease_fits E l (d_now D d)"
  obtains d' fb where "renew E D d l = (Inr (), d')" "rel d'" "cell_holds E l (d_now D d) (view d')"
    "d' = snd (d_put D d (cpath (l_name l)) (fb, None) False)"
proof -
  obtain d' fb where w: "lease_write E D d l False = (Inr (), d')" "rel d'" "cell_holds E l (d_now D d) (view d')"
      "d' = snd (d_put D d (cpath (l_name l)) (fb, None) False)"
    by (rule lease_write_rel [of d l E False]) (use assms in simp_all)
  show thesis
    by (rule that [OF _ w(2-4)]) (use w(1) lease_read_rel [OF assms(1-4)] in \<open>simp add: renew_def\<close>)
qed

lemma release_ok:
  assumes "lease_env_ok E" "rel d" "named_ok ok (l_name l)" "cell_holds E l t (view d)"
  obtains d' where "release E D d l = (Inr (), d')" "rel d'" "view d' = (view d)(cpath (l_name l) := None)"
    "d' = snd (d_remove D d (cpath (l_name l)))"
proof -
  note n = named_okD [OF assms(3)]
  obtain d' where r: "d_remove D d (cpath (l_name l)) = (Inr (), d')"
    using rel_remove [OF assms(2) n(5)] by (metis prod.collapse)
  have v: "view d' = (view d)(cpath (l_name l) := None)" using remove_ok [OF rel_inv [OF assms(2)] n(5) r] .
  have "rel d'" using rel_keep(2) [OF assms(2) n(5)] r by (metis snd_conv)
  moreover have "release E D d l = (Inr (), d')"
    using lease_read_rel [OF assms] r by (simp add: release_def remove_cell_def cell_path_ok [OF n(2)])
  ultimately show thesis using that v r by simp
qed

lemma takeover_commit:
  assumes "rel d" "named_ok ok (l_name l)" "lease_fits E l (d_now D d)" "lease_env_ok E"
  obtains d' fb where "acquire_commit E D d l (PlanTakeover r) = (Inr (), d')" "rel d'"
    "cell_holds E l (d_now D d) (view d')" "d' = snd (d_put D d (cpath (l_name l)) (fb, None) False)"
    "acquire_verify E D d' l (PlanTakeover r) = Inr (l, if r_host r \<noteq> l_host l then Some r else None)"
proof -
  obtain d' fb where w: "lease_write E D d l False = (Inr (), d')" "rel d'" "cell_holds E l (d_now D d) (view d')"
      "d' = snd (d_put D d (cpath (l_name l)) (fb, None) False)"
    by (rule lease_write_rel [of d l E False]) (use assms in simp_all)
  show thesis
    by (rule that [OF _ w(2-4)]) (use w(1) lease_read_rel [OF assms(4) w(2) assms(2) w(3)] in
        \<open>simp_all add: acquire_commit_def acquire_verify_def\<close>)
qed

text \<open>An expired lease is taken over, and its record is reported as the previous holder's.\<close>

lemma acquire_expired:
  assumes "lease_env_ok E" "rel d" "named_ok ok (lc_name c)" "cell_holds E l t (view d)" "l_name l = lc_name c"
    "trunc_second (nat (int t + l_ttl l)) \<le> d_now D d" "l_host l \<noteq> lc_host c" "lc_host c \<noteq> []" "0 < lc_ttl c"
    "lease_fits E (lease_of c (b64_encode rb)) (d_now D d)"
  obtains d' where "acquire E D d c (Some rb)
      = (Inr (lease_of c (b64_encode rb), Some (stored_record (lease_record_of l t))), d')"
proof -
  let ?r = "stored_record (lease_record_of l t)"
  have ne: "lc_name c \<noteq> []" using named_okD(2) [OF assms(3)] by (auto simp: validate_name_def)
  have "lease_read E D d (lc_name c) = Inr ?r"
    using lease_read_rel [OF assms(1,2) _ assms(4)] assms(3,5) by simp
  then have p: "acquire_read E D d c = Inr (PlanTakeover ?r)"
    using assms(6) by (simp add: acquire_read_def expired_def Let_def)
  obtain d' where "acquire_commit E D d (lease_of c (b64_encode rb)) (PlanTakeover ?r) = (Inr (), d')"
      "acquire_verify E D d' (lease_of c (b64_encode rb)) (PlanTakeover ?r)
        = Inr (lease_of c (b64_encode rb), if r_host ?r \<noteq> l_host (lease_of c (b64_encode rb)) then Some ?r else None)"
    by (rule takeover_commit [of d "lease_of c (b64_encode rb)" E ?r]) (use assms in simp_all)
  then show thesis using that [of d'] p ne assms(7-9) named_okD(2) [OF assms(3)] by (simp add: acquire_def new_nonce_def)
qed

text \<open>A lease that is no longer its holder's is neither renewed nor removed.\<close>

lemma displaced:
  assumes "lease_env_ok E" "rel d" "named_ok ok (l_name l)" "cell_holds E l' t (view d)" "l_name l' = l_name l"
    "l_host l' \<noteq> l_host l \<or> l_nonce l' \<noteq> l_nonce l"
  shows "renew E D d l = (Inl ErrLeaseLost, d)" "release E D d l = (Inr (), d)"
  using lease_read_rel [OF assms(1,2) _ assms(4)] assms(3,5,6) by (auto simp: renew_def release_def)

end

lemma lfs_put_clock: "lfs_rel d \<Longrightarrow> clean_path p \<Longrightarrow> lf_clock (snd (lfs_put d p r x)) = lf_clock d"
  by (simp add: lfs_put_rel tick_def set_files_def split: option.splits)

lemma lfs_remove_clock: "lf_clock (snd (lfs_remove d p)) = lf_clock d"
  by (simp add: lfs_remove_def tick_def set_files_def split: option.splits sum.splits)

text \<open>Time passing on the local filesystem.\<close>

definition at_tick :: "nat \<Rightarrow> localfs \<Rightarrow> localfs" where
  "at_tick k d = d \<lparr> lf_tick := k \<rparr>"

lemma at_tick_simps [simp]:
  "lfs_rel (at_tick k d) = lfs_rel d" "lfs_view (at_tick k d) = lfs_view d" "lf_clock (at_tick k d) = lf_clock d"
  "lf_now (at_tick k d) = lf_clock d k"
  by (simp_all add: at_tick_def lfs_rel_def lfs_inv_def lfs_view_def abs_path_def lf_now_def fun_eq_iff)

definition lfs_elapse :: "localfs \<Rightarrow> localfs \<Rightarrow> bool" where
  "lfs_elapse d d' = (\<exists>k. d' = d \<lparr> lf_tick := k \<rparr>)"

lemma lfs_elapse_frame: "lfs_elapse d d' \<Longrightarrow> lfs_inv d \<Longrightarrow> lfs_inv d' \<and> lfs_view d' = lfs_view d"
  unfolding lfs_elapse_def
  by (elim exE) (simp add: lfs_inv_def lfs_view_def abs_path_def fun_eq_iff)

text \<open>C12: at most one of any number of hosts that compete for an empty lease slot obtains it, whatever the
  interleaving of their reads, writes and checks and whichever system calls of the local filesystem
  fail, as long as the competition is over before a lease written during it could expire.  The cell
  then holds the record of the winner.\<close>

theorem lease_exclusive:
  assumes "acq_setting E N cf nc n win" and "plain_name n"
    and "lfs_inv d0" and "lfs_view d0 (cpath n) = None"
    and "(acq_step E localfs_driver N cf nc lfs_elapse win)\<^sup>*\<^sup>* (d0, \<lambda>_. AIdle) (d, ph)"
    and "ph i = AHeld"
  shows "(\<forall>j. ph j = AHeld \<longrightarrow> j = i)
    \<and> (\<exists>t fb m. win t \<and> lease_build E (lease_of (cf i) (nc i)) t = Inr (fb, m) \<and> lfs_view d (cpath n) = Some fb)"
proof -
  have "acq_inv E N cf nc n win (lfs_view d) ph"
    using lfs.acq_reach_inv [OF assms(1) named_ok_clean [OF assms(2)] lfs_elapse_frame assms(5,3,4)] by blast
  then show ?thesis
  proof (cases rule: acq_invE)
    case free
    then show ?thesis using assms(6) by (metis before_commit.simps(5))
  next
    case (owned k t fb m)
    have "k = i" using owned(6) assms(6) by (metis before_commit.simps(5))
    moreover have "j = k" if "ph j = AHeld" for j using owned(6) that by (metis before_commit.simps(5))
    ultimately show ?thesis using owned(2-4) by blast
  qed
qed

text \<open>A concrete environment: hexadecimal fields separated by slashes for the text of a record, the
  table codec for the manifests of given leases at given instants.\<close>

definition ts_text :: "timestamp \<Rightarrow> string" where
  "ts_text t = (case t of TsEmpty \<Rightarrow> [] | TsRFC3339 n \<Rightarrow> CHR ''R'' # show_nat n | TsMalformed s \<Rightarrow> CHR ''M'' # s)"

definition text_ts :: "string \<Rightarrow> timestamp" where
  "text_ts s = (case s of [] \<Rightarrow> TsEmpty | c # r \<Rightarrow> if c = CHR ''R'' then TsRFC3339 (dec_val r) else TsMalformed r)"

definition wire_text :: "record_wire \<Rightarrow> bytes" where
  "wire_text w = join CHR ''/'' (map hex_encode [w_host w, ts_text (w_acquired w), ts_text (w_expires w),
     w_agent w, w_nonce w, w_store w])"

definition text_wire :: "bytes \<Rightarrow> record_wire option" where
  "text_wire b = (case map hex_decode (split_on CHR ''/'' b) of
      [Some h, Some a, Some x, Some g, Some n, Some s] \<Rightarrow> Some \<lparr> w_host = h, w_acquired = text_ts a,
        w_expires = text_ts x, w_agent = g, w_nonce = n, w_store = s \<rparr>
    | _ \<Rightarrow> None)"

lemma text_ts_text [simp]: "text_ts (ts_text t) = t"
  by (cases t) (simp_all add: text_ts_def ts_text_def)

lemma text_wire_text: "text_wire (wire_text w) = Some w"
proof -
  let ?ss = "map hex_encode [w_host w, ts_text (w_acquired w), ts_text (w_expires w), w_agent w, w_nonce w, w_store w]"
  have "CHR ''/'' \<notin> set (hex_encode b)" for b using hex_encode_lower lower_hex_not_sep by blast
  then have "split_on CHR ''/'' (join CHR ''/'' ?ss) = ?ss" by (intro split_join) simp_all
  then have "map hex_decode (split_on CHR ''/'' (wire_text w)) = map hex_decode ?ss" by (simp only: wire_text_def)
  then show ?thesis by (simp add: text_wire_def)
qed

definition lease_body :: "lease \<times> time \<Rightarrow> json_body" where
  "lease_body lt = (let l = fst lt; r = lease_record_of l (snd lt);
      p = wire_text \<lparr> w_host = r_host r, w_acquired = time_format (r_acquired r),
        w_expires = time_format (r_expires r), w_agent = r_agent r, w_nonce = r_nonce r, w_store = r_store r \<rparr>
    in body_of (inline_manifest (l_name l) (snd lt) p (hex_encode (len_hash p)) \<lparr> hash_algo := ''sha256'' \<rparr>))"

definition lock_env :: "(lease \<times> time) list \<Rightarrow> lease_env" where
  "lock_env ls = \<lparr> le_codec = table_env (map lease_body ls), le_sha256 = len_hash,
     le_marshal = wire_text, le_unmarshal = text_wire \<rparr>"

lemma lock_env_ok: "lease_env_ok (lock_env ls)"
  by (simp add: lease_env_ok_def lock_env_def table_env_faithful text_wire_text)

lemma lock_env_codec: "lease_codec (lock_env ls) = table_env (map lease_body ls)"
proof -
  have "lease_hashes len_hash = sample_registry"
    by (auto simp: lease_hashes_def lease_hash_algo_def sample_registry_def fun_eq_iff)
  then show ?thesis by (simp add: lease_codec_def lock_env_def table_env_def)
qed

lemma marshal_nonempty: "marshal_record (lock_env ls) r \<noteq> []"
  by (simp add: marshal_record_def lock_env_def wire_text_def)

lemma lock_env_fits:
  assumes "(l, t) \<in> set ls" "length ls < 100" "l_name l \<noteq> []"
    "list_all valid_utf8 [l_host l, l_agent l, l_nonce l, l_store l]"
    "length (marshal_record (lock_env ls) (lease_record_of l t)) < 2 ^ 63"
  shows "lease_fits (lock_env ls) l t"
proof -
  let ?p = "marshal_record (lock_env ls) (lease_record_of l t)"
  have "body_of (inline_manifest (l_name l) t ?p (hex_encode (len_hash ?p)) \<lparr> hash_algo := ''sha256'' \<rparr>) = lease_body (l, t)"
    by (simp only: lease_body_def marshal_record_def lock_env_def Let_def lease_env.simps fst_conv snd_conv)
  then have "body_of (inline_manifest (l_name l) t ?p (hex_encode (len_hash ?p)) \<lparr> hash_algo := ''sha256'' \<rparr>)
      \<in> set (map lease_body ls)" using assms(1) by (metis image_eqI set_map)
  then obtain fb m where b: "build_inline_manifest (table_env (map lease_body ls)) t (l_name l) ?p ''sha256'' CryptoPlain [] []
      = Inr (fb, m)" "length fb < 5 + length (map lease_body ls)"
    using table_env_builds [OF assms(3) marshal_nonempty] by blast
  have "lease_build (lock_env ls) l t = Inr (fb, m)"
    using b(1) unfolding lease_build_def lock_env_codec lease_hash_algo_def .
  then show ?thesis
    using b(2) assms(2,4,5) by (simp add: lease_fits_def max_manifest_size_def)
qed

definition lock_config :: "string \<Rightarrow> lease_config" where
  "lock_config h = \<lparr> lc_name = ''cfg'', lc_host = h, lc_agent = [], lc_ttl = 1000000000, lc_store = [], lc_force = False \<rparr>"

definition lock_a :: lease where "lock_a = lease_of (lock_config ''a'') (b64_encode ''x'')"
definition lock_b :: lease where "lock_b = lease_of (lock_config ''b'') (b64_encode ''y'')"

abbreviation "lock2 \<equiv> lock_env [(lock_a, 0), (lock_b, 0)]"

lemma billion_text: "length (show_nat 1000000000) \<le> 10"
  by (rule length_show_nat) simp_all

lemma lock_fits: "lease_fits lock2 lock_a 0" "lease_fits lock2 lock_b 0"
proof -
  have n: "list_all valid_utf8 [''a'', [], b64_encode ''x'', []]" "list_all valid_utf8 [''b'', [], b64_encode ''y'', []]"
    by code_simp+
  have l: "length (b64_encode ''x'') = 4" "length (b64_encode ''y'') = 4" by code_simp+
  have "length (marshal_record lock2 (lease_record_of lock_a 0)) < 2 ^ 63"
    "length (marshal_record lock2 (lease_record_of lock_b 0)) < 2 ^ 63"
    using billion_text l by (simp_all add: marshal_record_def lock_env_def wire_text_def lock_a_def lock_b_def
        lock_config_def time_format_def ts_text_def second_def del: hex_encode_simps)
  then show "lease_fits lock2 lock_a 0" "lease_fits lock2 lock_b 0"
    using n by (auto intro!: lock_env_fits simp: lock_a_def lock_b_def lock_config_def)
qed

lemma rtranclp_step3: "R a b \<Longrightarrow> R b c \<Longrightarrow> R c e \<Longrightarrow> R\<^sup>*\<^sup>* a e"
  by (meson converse_rtranclp_into_rtranclp rtranclp.rtrancl_refl)

definition lock_fs :: localfs where
  "lock_fs = sample_fs \<lparr> lf_clock := (\<lambda>_. 0) \<rparr>"

definition lock_configs :: "nat \<Rightarrow> lease_config" where
  "lock_configs i = (if i = 0 then lock_config ''a'' else lock_config ''b'')"

definition lock_nonces :: "nat \<Rightarrow> string" where
  "lock_nonces i = (if i = 0 then b64_encode ''x'' else b64_encode ''y'')"

lemma lock_fs_facts: "lfs_rel lock_fs" "lfs_inv lock_fs" "lfs_view lock_fs p = None" "d_now localfs_driver lock_fs = 0"
  by (simp_all add: lock_fs_def sample_fs_def lfs_rel_def lfs_inv_def lfs_view_def lf_now_def)

lemma trunc_billion: "trunc_second 1000000000 = 1000000000"
  by (simp add: trunc_second_def second_def)

lemma lock_setting: "acq_setting lock2 2 lock_configs lock_nonces ''cfg'' (\<lambda>t. t = 0)"
  using lock_fits lock_env_ok
  by (auto simp: acq_setting_def lock_configs_def lock_nonces_def lock_a_def lock_b_def lock_config_def
      classify_store_ownership_def trunc_billion numeral_2_eq_2 less_Suc_eq)

theorem lease_exclusive_witness:
  "\<exists>d ph. (acq_step lock2 localfs_driver 2 lock_configs lock_nonces lfs_elapse (\<lambda>t. t = 0))\<^sup>*\<^sup>*
      (lock_fs, \<lambda>_. AIdle) (d, ph) \<and> ph 0 = AHeld \<and> (\<forall>j. ph j = AHeld \<longrightarrow> j = 0)"
proof -
  let ?step = "acq_step lock2 localfs_driver 2 lock_configs lock_nonces lfs_elapse (\<lambda>t. t = 0)"
  let ?idle = "\<lambda>_. AIdle" and ?l = "lease_of (lock_configs 0) (lock_nonces 0)"
  have l: "?l = lock_a" by (simp add: lock_a_def lock_configs_def lock_nonces_def)
  have nm: "named_ok clean_path (lc_name (lock_configs 0))" "l_name lock_a = ''cfg''"
    using named_ok_clean [OF sample_name] by (simp_all add: lock_configs_def lock_config_def lock_a_def)
  have r: "acquire_read lock2 localfs_driver lock_fs (lock_configs 0) = Inr PlanCreate"
    by (rule rlfs.acquire_read_free [OF lock_fs_facts(1) nm(1) lock_fs_facts(3)])
  obtain d' where w: "lease_write lock2 localfs_driver lock_fs ?l True = (Inr (), d')"
    by (rule rlfs.lease_write_rel [of lock_fs ?l lock2 True])
       (use lock_fs_facts nm lock_fits(1) in \<open>simp_all add: l named_ok_clean [OF sample_name]\<close>)
  have c: "acquire_commit lock2 localfs_driver lock_fs ?l PlanCreate = (Inr (), d')"
    using w by (simp add: acquire_commit_def)
  have "?step (lock_fs, ?idle) (lock_fs, ?idle(0 := APlanned PlanCreate))"
    using acq_plan [where i = 0 and N = 2 and ph = ?idle and cf = lock_configs, OF _ _ _ r] lock_fs_facts(4) by simp
  moreover have "?step (lock_fs, ?idle(0 := APlanned PlanCreate)) (d', ?idle(0 := AWritten PlanCreate))"
    using acq_commit [where i = 0 and N = 2 and ph = "?idle(0 := APlanned PlanCreate)" and cf = lock_configs
        and nc = lock_nonces, OF _ _ _ c] lock_fs_facts(4) by simp
  moreover have "?step (d', ?idle(0 := AWritten PlanCreate)) (d', ?idle(0 := AHeld))"
    using acq_verify [of 0 2 "?idle(0 := AWritten PlanCreate)" PlanCreate lock2 localfs_driver d' lock_configs lock_nonces
        "Inr (?l, None)"] by (simp add: acquire_verify_def)
  ultimately have run: "?step\<^sup>*\<^sup>* (lock_fs, ?idle) (d', ?idle(0 := AHeld))" by (rule rtranclp_step3)
  have "\<forall>j. (?idle(0 := AHeld)) j = AHeld \<longrightarrow> j = (0 :: nat)"
    by (rule lease_exclusive [OF lock_setting sample_name lock_fs_facts(2,3) run, THEN conjunct1]) simp
  then show ?thesis
    using run by (intro exI [of _ d'] exI [of _ "?idle(0 := AHeld)"] conjI) (assumption, simp_all only: fun_upd_same)
qed

text \<open>The instant at which a lease taken or renewed at \<open>t\<close> runs out.\<close>

definition lease_until :: "lease_config \<Rightarrow> time \<Rightarrow> time" where
  "lease_until c t = trunc_second (nat (int t + lc_ttl c))"

text \<open>C22: the life of a lease on a working filesystem whose clock moves arbitrarily.  An empty slot is acquired.  Until
  the lease runs out another host is refused and writes nothing.  A renewal at any later instant counts from that instant:
  the other host is now refused until the renewed lease runs out, also past the original expiry, and from then on
  its acquisition succeeds and reports the previous holder.  A release lets the other host acquire at once.\<close>

theorem lease_lifecycle:
  assumes "lease_env_ok E" and "plain_name n" and "lfs_rel d" and "lfs_view d (cpath n) = None"
    and "lc_name a = n" and "lc_name b = n" and "lc_host a \<noteq> lc_host b" and "lc_host a \<noteq> []" and "lc_host b \<noteq> []"
    and "0 < lc_ttl a" and "0 < lc_ttl b" and "\<not> lc_force b"
    and "classify_store_ownership (lc_store a) (lc_store b) \<noteq> OwnershipForeign"
    and "lease_fits E (lease_of a (b64_encode ra)) (lf_now d)" and "lease_fits E (lease_of a (b64_encode ra)) (lf_clock d k1)"
    and "lease_fits E (lease_of b (b64_encode rb)) (lf_clock d k2)" and "lease_fits E (lease_of b (b64_encode rb)) (lf_clock d k3)"
    and "lease_until a (lf_clock d k1) \<le> lf_clock d k2"
  shows "\<exists>l d1 d2 d3 d4 d5.
      acquire E localfs_driver d a (Some ra) = (Inr (l, None), d1)
    \<and> (\<forall>k. lf_clock d k < lease_until a (lf_now d) \<longrightarrow>
         acquire E localfs_driver (at_tick k d1) b (Some rb) = (Inl ErrLeaseHeld, at_tick k d1))
    \<and> renew E localfs_driver (at_tick k1 d1) l = (Inr (), d2)
    \<and> (\<forall>k. lf_clock d k < lease_until a (lf_clock d k1) \<longrightarrow>
         acquire E localfs_driver (at_tick k d2) b (Some rb) = (Inl ErrLeaseHeld, at_tick k d2))
    \<and> acquire E localfs_driver (at_tick k2 d2) b (Some rb)
        = (Inr (lease_of b (b64_encode rb), Some (stored_record (lease_record_of l (lf_clock d k1)))), d3)
    \<and> release E localfs_driver d2 l = (Inr (), d4)
    \<and> acquire E localfs_driver (at_tick k3 d4) b (Some rb) = (Inr (lease_of b (b64_encode rb), None), d5)"
proof -
  let ?D = localfs_driver and ?l = "lease_of a (b64_encode ra)"
  have nm: "named_ok clean_path (lc_name a)" "named_ok clean_path (lc_name b)" "named_ok clean_path (l_name ?l)"
    using named_ok_clean [OF assms(2)] assms(5,6) by simp_all
  note cl = named_okD(5) [OF named_ok_clean [OF assms(2)]]
  have refused: "acquire E ?D (at_tick k d') b (Some rb) = (Inl ErrLeaseHeld, at_tick k d')"
    if "lfs_rel d'" "cell_holds E ?l t (lfs_view d')" "lf_clock d' k < lease_until a t" for k d' t
    by (rule rlfs.acquire_refused [of E "at_tick k d'" b ?l t]) (use nm(2) that assms in \<open>simp_all add: lease_until_def\<close>)
  obtain d1 fb where d1: "acquire E ?D d a (Some ra) = (Inr (?l, None), d1)" "lfs_rel d1"
      "cell_holds E ?l (lf_now d) (lfs_view d1)" "d1 = snd (lfs_put d (cpath n) (fb, None) True)"
    by (rule rlfs.acquire_free [of d a E ra]) (use assms nm in simp_all)
  have c1: "lf_clock d1 = lf_clock d" using lfs_put_clock [OF assms(3) cl] d1(4) by simp
  obtain d2 fb2 where d2: "renew E ?D (at_tick k1 d1) ?l = (Inr (), d2)" "lfs_rel d2"
      "cell_holds E ?l (lf_clock d k1) (lfs_view d2)" "d2 = snd (lfs_put (at_tick k1 d1) (cpath n) (fb2, None) False)"
    by (rule rlfs.renew_ok [of E "at_tick k1 d1" ?l "lf_now d"]) (use assms d1 c1 nm in simp_all)
  have c2: "lf_clock d2 = lf_clock d" using lfs_put_clock [of "at_tick k1 d1", OF _ cl] d1(2) d2(4) c1 by simp
  obtain d3 where d3: "acquire E ?D (at_tick k2 d2) b (Some rb)
      = (Inr (lease_of b (b64_encode rb), Some (stored_record (lease_record_of ?l (lf_clock d k1)))), d3)"
    by (rule rlfs.acquire_expired [of E "at_tick k2 d2" b ?l "lf_clock d k1" rb])
       (use assms d2(2,3) c2 nm in \<open>simp_all add: lease_until_def\<close>)
  obtain d4 where d4: "release E ?D d2 ?l = (Inr (), d4)" "lfs_rel d4" "lfs_view d4 = (lfs_view d2)(cpath n := None)"
      "d4 = snd (lfs_remove d2 (cpath n))"
    by (rule rlfs.release_ok [OF assms(1) d2(2) nm(3) d2(3)]) (use assms in simp_all)
  have c4: "lf_clock d4 = lf_clock d" using lfs_remove_clock d4(4) c2 by simp
  obtain d5 fb5 where "acquire E ?D (at_tick k3 d4) b (Some rb) = (Inr (lease_of b (b64_encode rb), None), d5)"
    by (rule rlfs.acquire_free [of "at_tick k3 d4" b E rb]) (use assms nm d4 c4 in simp_all)
  then show ?thesis
    using d1(1) refused [OF d1(2,3)] d2(1) refused [OF d2(2,3)] d3 d4(1) unfolding c1 c2 by blast
qed

text \<open>Host \<^verbatim>\<open>a\<close> takes the lock at second 0 for one second and renews it at second 1: host \<^verbatim>\<open>b\<close> is refused at
  second 1, when the original lease has run out, and takes the lock over at second 2.\<close>

definition lock_seconds :: localfs where
  "lock_seconds = sample_fs \<lparr> lf_clock := (\<lambda>k. k * 1000000000) \<rparr>"

lemma lock_seconds_facts: "lfs_rel lock_seconds" "lfs_view lock_seconds p = None" "lf_now lock_seconds = 0"
  "lf_clock lock_seconds k = k * 1000000000"
  by (simp_all add: lock_seconds_def sample_fs_def lfs_rel_def lfs_inv_def lfs_view_def lf_now_def)

abbreviation "lock4 \<equiv> lock_env [(lock_a, 0), (lock_a, 1000000000), (lock_b, 2000000000)]"

lemma lock4_fits: "lease_fits lock4 lock_a 0" "lease_fits lock4 lock_a 1000000000" "lease_fits lock4 lock_b 2000000000"
proof -
  have n: "list_all valid_utf8 [''a'', [], b64_encode ''x'', []]" "list_all valid_utf8 [''b'', [], b64_encode ''y'', []]"
    by code_simp+
  have l: "length (b64_encode ''x'') = 4" "length (b64_encode ''y'') = 4" by code_simp+
  have t: "length (show_nat 2000000000) \<le> 10" "length (show_nat 3000000000) \<le> 10" by (rule length_show_nat, simp, simp)+
  have "length (marshal_record lock4 (lease_record_of lock_a 0)) < 2 ^ 63"
    "length (marshal_record lock4 (lease_record_of lock_a 1000000000)) < 2 ^ 63"
    "length (marshal_record lock4 (lease_record_of lock_b 2000000000)) < 2 ^ 63"
    using billion_text l t by (simp_all add: marshal_record_def lock_env_def wire_text_def lock_a_def lock_b_def
        lock_config_def time_format_def ts_text_def second_def del: hex_encode_simps)
  then show "lease_fits lock4 lock_a 0" "lease_fits lock4 lock_a 1000000000" "lease_fits lock4 lock_b 2000000000"
    using n by (auto intro!: lock_env_fits simp: lock_a_def lock_b_def lock_config_def)
qed

lemma lock_until: "lease_until (lock_config h) 0 = 1000000000" "lease_until (lock_config h) 1000000000 = 2000000000"
  by (simp_all add: lease_until_def lock_config_def trunc_second_def second_def)

theorem lease_lifecycle_witness:
  "lease_until (lock_config ''a'') (lf_now lock_seconds) \<le> lf_clock lock_seconds 1 \<and> (\<exists>l d1 d2 d3 d4 d5.
      acquire lock4 localfs_driver lock_seconds (lock_config ''a'') (Some ''x'') = (Inr (l, None), d1)
    \<and> acquire lock4 localfs_driver (at_tick 0 d1) (lock_config ''b'') (Some ''y'') = (Inl ErrLeaseHeld, at_tick 0 d1)
    \<and> renew lock4 localfs_driver (at_tick 1 d1) l = (Inr (), d2)
    \<and> acquire lock4 localfs_driver (at_tick 1 d2) (lock_config ''b'') (Some ''y'') = (Inl ErrLeaseHeld, at_tick 1 d2)
    \<and> acquire lock4 localfs_driver (at_tick 2 d2) (lock_config ''b'') (Some ''y'')
        = (Inr (lock_b, Some (stored_record (lease_record_of l 1000000000))), d3)
    \<and> release lock4 localfs_driver d2 l = (Inr (), d4)
    \<and> acquire lock4 localfs_driver (at_tick 2 d4) (lock_config ''b'') (Some ''y'') = (Inr (lock_b, None), d5))"
proof -
  let ?a = "lock_config ''a''" and ?b = "lock_config ''b''"
  have f: "lease_fits lock4 (lease_of ?a (b64_encode ''x'')) (lf_now lock_seconds)"
      "lease_fits lock4 (lease_of ?a (b64_encode ''x'')) (lf_clock lock_seconds 1)"
      "lease_fits lock4 (lease_of ?b (b64_encode ''y'')) (lf_clock lock_seconds 2)"
      "lease_until ?a (lf_clock lock_seconds 1) \<le> lf_clock lock_seconds 2"
    using lock4_fits lock_until [of "''a''"] by (simp_all add: lock_a_def lock_b_def lock_seconds_facts)
  have c: "lc_name ?a = ''cfg''" "lc_name ?b = ''cfg''" "lc_host ?a \<noteq> lc_host ?b" "lc_host ?a \<noteq> []" "lc_host ?b \<noteq> []"
      "0 < lc_ttl ?a" "0 < lc_ttl ?b" "\<not> lc_force ?b" "classify_store_ownership (lc_store ?a) (lc_store ?b) \<noteq> OwnershipForeign"
    by (simp_all add: lock_config_def classify_store_ownership_def)
  have k: "lf_clock lock_seconds 0 < lease_until ?a (lf_now lock_seconds)"
      "lf_clock lock_seconds 1 < lease_until ?a (lf_clock lock_seconds 1)" "lf_clock lock_seconds 1 = 1000000000"
      "lease_until ?a (lf_now lock_seconds) \<le> lf_clock lock_seconds 1"
    using lock_until [of "''a''"] by (simp_all add: lock_seconds_facts)
  from lease_lifecycle [OF lock_env_ok sample_name lock_seconds_facts(1,2) c f(1-3,3,4)]
  show ?thesis using k unfolding lock_b_def by (elim exE conjE) (intro conjI exI, assumption, (assumption | erule allE, erule mp | simp)+)
qed

text \<open>C25: a displaced holder does no harm.  When the cell holds the record of another lease, \<^verbatim>\<open>Renew\<close>
  reports ErrLeaseLost, \<^verbatim>\<open>Release\<close> is a no-op, and the heartbeat ends with ErrLeaseLost at its next
  tick; none of the three touches the medium.\<close>

theorem lease_displaced:
  assumes "lease_env_ok E" and "lfs_rel d" and "plain_name (l_name l)" and "l_name l' = l_name l"
    and "lease_fits E l' t" and "lease_build E l' t = Inr (fb, m)" and "lfs_view d (cpath (l_name l)) = Some fb"
    and "l_host l' \<noteq> l_host l \<or> l_nonce l' \<noteq> l_nonce l"
  shows "renew E localfs_driver d l = (Inl ErrLeaseLost, d)
    \<and> release E localfs_driver d l = (Inr (), d)
    \<and> heartbeat E localfs_driver d l (id # fs) = (ErrLeaseLost, d)"
proof -
  have "cell_holds E l' t (lfs_view d)" using assms(4-7) by (simp add: cell_holds_def)
  note r = rlfs.displaced [OF assms(1,2) named_ok_clean [OF assms(3)] this assms(4,8)]
  show ?thesis by (simp add: r)
qed

theorem lease_displaced_witness:
  "\<exists>d. lfs_view d (cpath ''cfg'') \<noteq> None \<and> renew lock2 localfs_driver d lock_b = (Inl ErrLeaseLost, d)
     \<and> release lock2 localfs_driver d lock_b = (Inr (), d)"
proof -
  have nm: "l_name lock_a = ''cfg''" "l_name lock_b = ''cfg''" "l_host lock_a \<noteq> l_host lock_b"
    by (simp_all add: lock_a_def lock_b_def lock_config_def)
  obtain d' fb where w: "lease_write lock2 localfs_driver lock_fs lock_a False = (Inr (), d')" "lfs_rel d'"
      "cell_holds lock2 lock_a 0 (lfs_view d')"
    by (rule rlfs.lease_write_rel [of lock_fs lock_a lock2 False])
       (use lock_fs_facts lock_fits nm in \<open>simp_all add: named_ok_clean [OF sample_name]\<close>)
  obtain fb m where h: "lease_build lock2 lock_a 0 = Inr (fb, m)" "lfs_view d' (cpath (l_name lock_b)) = Some fb"
    using w(3) nm by (auto simp: cell_holds_def)
  have pn: "plain_name (l_name lock_b)" using sample_name nm by simp
  have sn: "l_name lock_a = l_name lock_b" using nm by simp
  have df: "l_host lock_a \<noteq> l_host lock_b \<or> l_nonce lock_a \<noteq> l_nonce lock_b" using nm by simp
  note ld = lease_displaced [OF lock_env_ok w(2) pn sn lock_fits(1) h(1,2) df]
  show ?thesis using ld h(2) nm by auto
qed

text \<open>C26: the read-back check does not settle a concurrent takeover.  Two hosts that both read an expired
  lease before either writes can both complete their acquisition, the first by verifying its nonce
  before the second overwrites the cell: from one expired record there is a run of the two
  acquisitions at whose end both believe to hold the lease.\<close>

theorem lease_takeover_race:
  assumes "lease_env_ok E" and "plain_name n" and "lfs_rel d" and "l_name l0 = n"
    and "lease_fits E l0 t0" and "lease_build E l0 t0 = Inr (fb, m)" and "lfs_view d (cpath n) = Some fb"
    and "trunc_second (nat (int t0 + l_ttl l0)) \<le> lf_now d"
    and "lc_name (cf 0) = n" and "lc_name (cf 1) = n" and "lc_host (cf 0) \<noteq> lc_host (cf 1)"
    and "\<And>k. lease_fits E (lease_of (cf 0) (nc 0)) (lf_clock d k)"
    and "\<And>k. lease_fits E (lease_of (cf 1) (nc 1)) (lf_clock d k)"
  shows "\<exists>d' ph. (acq_step E localfs_driver 2 cf nc (=) (\<lambda>_. True))\<^sup>*\<^sup>* (d, \<lambda>_. AIdle) (d', ph)
    \<and> ph 0 = AHeld \<and> ph 1 = AHeld"
proof -
  let ?D = localfs_driver and ?l = "\<lambda>i. lease_of (cf i) (nc i)" and ?idle = "\<lambda>_ :: nat. AIdle"
  let ?step = "acq_step E ?D 2 cf nc (=) (\<lambda>_. True)"
  let ?r = "stored_record (lease_record_of l0 t0)"
  note cl = named_okD(5) [OF named_ok_clean [OF assms(2)]]
  have "cell_holds E l0 t0 (lfs_view d)" using assms(4-7) by (simp add: cell_holds_def)
  then have rd: "lease_read E ?D d n = Inr ?r"
    using rlfs.lease_read_rel [OF assms(1,3), of l0] named_ok_clean [OF assms(2)] assms(4) by simp
  have plan: "acquire_read E ?D d (cf i) = Inr (PlanTakeover ?r)" if "lc_name (cf i) = n" for i
    using rd that assms(8) by (simp add: acquire_read_def expired_def)
  obtain d1 fb1 where a: "acquire_commit E ?D d (?l 0) (PlanTakeover ?r) = (Inr (), d1)" "lfs_rel d1"
      "d1 = snd (lfs_put d (cpath n) (fb1, None) False)"
      "acquire_verify E ?D d1 (?l 0) (PlanTakeover ?r) = Inr (?l 0, if r_host ?r \<noteq> l_host (?l 0) then Some ?r else None)"
    by (rule rlfs.takeover_commit [OF assms(3), of "?l 0" E ?r])
       (use assms named_ok_clean [OF assms(2)] in \<open>simp_all add: lf_now_def\<close>)
  have "lf_clock d1 = lf_clock d" using lfs_put_clock [OF assms(3) cl] a(3) by simp
  then obtain d2 where b: "acquire_commit E ?D d1 (?l 1) (PlanTakeover ?r) = (Inr (), d2)"
      "acquire_verify E ?D d2 (?l 1) (PlanTakeover ?r) = Inr (?l 1, if r_host ?r \<noteq> l_host (?l 1) then Some ?r else None)"
    using rlfs.takeover_commit [OF a(2), of "?l 1" E ?r] assms named_ok_clean [OF assms(2)]
    by (metis lease_of_simps(1) lf_now_def localfs_driver_simps(10))
  let ?p = "PlanTakeover ?r"
  define ph1 where "ph1 = ?idle(0 := APlanned ?p)"
  define ph2 where "ph2 = ph1(1 := APlanned ?p)"
  define ph3 where "ph3 = ph2(0 := AWritten ?p)"
  define ph4 where "ph4 = ph3(0 := AHeld)"
  define ph5 where "ph5 = ph4(1 := AWritten ?p)"
  define ph6 where "ph6 = ph5(1 := AHeld)"
  note phs = ph1_def ph2_def ph3_def ph4_def ph5_def ph6_def
  have s1: "?step (d, ?idle) (d, ph1)"
    using acq_plan [where ph = ?idle and i = 0 and N = 2 and cf = cf, OF _ _ _ plan] assms(9) by (simp add: phs)
  have s2: "?step (d, ph1) (d, ph2)"
    using acq_plan [where ph = ph1 and i = 1 and N = 2 and cf = cf, OF _ _ _ plan] assms(10) by (simp add: phs)
  have s3: "?step (d, ph2) (d1, ph3)"
    using acq_commit [where ph = ph2 and i = 0 and N = 2 and cf = cf and nc = nc, OF _ _ _ a(1)] by (simp add: phs)
  have s4: "?step (d1, ph3) (d1, ph4)"
    using acq_verify [where ph = ph3 and i = 0 and N = 2 and cf = cf and nc = nc, OF _ _ a(4)] by (simp add: phs)
  have s5: "?step (d1, ph4) (d2, ph5)"
    using acq_commit [where ph = ph4 and i = 1 and N = 2 and cf = cf and nc = nc, OF _ _ _ b(1)] by (simp add: phs)
  have s6: "?step (d2, ph5) (d2, ph6)"
    using acq_verify [where ph = ph5 and i = 1 and N = 2 and cf = cf and nc = nc, OF _ _ b(2)] by (simp add: phs)
  have "?step\<^sup>*\<^sup>* (d, ?idle) (d2, ph6)"
    by (rule rtranclp_trans [OF rtranclp_step3 [of ?step, OF s1 s2 s3] rtranclp_step3 [of ?step, OF s4 s5 s6]])
  moreover have "ph6 0 = AHeld" "ph6 1 = AHeld" by (simp_all add: phs)
  ultimately show ?thesis by blast
qed

text \<open>The state of a lock whose lease \<^verbatim>\<open>a\<close> has expired: a lifetime under a second ends, once rounded, at
  the instant it was taken.\<close>

definition brief_lease :: lease where
  "brief_lease = lock_a \<lparr> l_ttl := 1, l_host := ''c'' \<rparr>"

abbreviation "lock3 \<equiv> lock_env [(lock_a, 0), (lock_b, 0), (brief_lease, 0)]"

lemma lock3_fits: "lease_fits lock3 lock_a 0" "lease_fits lock3 lock_b 0" "lease_fits lock3 brief_lease 0"
proof -
  have n: "list_all valid_utf8 [''a'', [], b64_encode ''x'', []]" "list_all valid_utf8 [''b'', [], b64_encode ''y'', []]"
    "list_all valid_utf8 [''c'', [], b64_encode ''x'', []]"
    by code_simp+
  have l: "length (b64_encode ''x'') = 4" "length (b64_encode ''y'') = 4" by code_simp+
  have t: "length (show_nat 0) \<le> 1" by (rule length_show_nat) simp_all
  have "length (marshal_record lock3 (lease_record_of lock_a 0)) < 2 ^ 63"
    "length (marshal_record lock3 (lease_record_of lock_b 0)) < 2 ^ 63"
    "length (marshal_record lock3 (lease_record_of brief_lease 0)) < 2 ^ 63"
    using billion_text l t by (simp_all add: marshal_record_def lock_env_def wire_text_def lock_a_def lock_b_def brief_lease_def
        lock_config_def time_format_def ts_text_def second_def del: hex_encode_simps)
  then show "lease_fits lock3 lock_a 0" "lease_fits lock3 lock_b 0" "lease_fits lock3 brief_lease 0"
    using n by (auto intro!: lock_env_fits simp: lock_a_def lock_b_def lock_config_def brief_lease_def)
qed

theorem lease_takeover_race_witness:
  "\<exists>d d' ph. (acq_step lock3 localfs_driver 2 lock_configs lock_nonces (=) (\<lambda>_. True))\<^sup>*\<^sup>* (d, \<lambda>_. AIdle) (d', ph)
    \<and> ph 0 = AHeld \<and> ph 1 = AHeld"
proof -
  have nm: "l_name brief_lease = ''cfg''" by (simp add: brief_lease_def lock_a_def lock_config_def)
  obtain d fb where w: "lfs_rel d" "cell_holds lock3 brief_lease 0 (lfs_view d)"
      "d = snd (lfs_put lock_fs (cpath ''cfg'') (fb, None) False)"
    by (rule rlfs.lease_write_rel [of lock_fs brief_lease lock3 False])
       (use lock_fs_facts lock3_fits nm in \<open>simp_all add: named_ok_clean [OF sample_name]\<close>)
  have c: "lf_clock d k = 0" for k
    using lfs_put_clock [OF lock_fs_facts(1) named_okD(5) [OF named_ok_clean [OF sample_name]]] w(3)
    by (simp add: lock_fs_def)
  obtain fb m where h: "lease_build lock3 brief_lease 0 = Inr (fb, m)" "lfs_view d (cpath ''cfg'') = Some fb"
    using w(2) nm by (auto simp: cell_holds_def)
  have x: "trunc_second (nat (int 0 + l_ttl brief_lease)) \<le> lf_now d"
    by (simp add: brief_lease_def trunc_second_def second_def)
  have "\<exists>d' ph. (acq_step lock3 localfs_driver 2 lock_configs lock_nonces (=) (\<lambda>_. True))\<^sup>*\<^sup>* (d, \<lambda>_. AIdle) (d', ph)
    \<and> ph 0 = AHeld \<and> ph 1 = AHeld"
    by (rule lease_takeover_race [OF lock_env_ok sample_name w(1) nm lock3_fits(3) h x])
       (use lock3_fits in \<open>simp_all add: c lock_configs_def lock_nonces_def lock_config_def lock_a_def lock_b_def\<close>)
  then show ?thesis by blast
qed

text \<open>C27: a cell that cannot be decoded blocks its lease for good.  \<^verbatim>\<open>read\<close> routes it to the exclusive
  create, which the existing file always refuses, so no acquisition succeeds, not even with Force, and
  the file stays as it is.\<close>

theorem lease_corrupt_stuck:
  assumes "plain_name (lc_name c)" and "lfs_inv d" and "lfs_view d (cpath (lc_name c)) \<noteq> None"
    and "lease_read E localfs_driver d (lc_name c) = Inl ErrAlreadyExists"
    and "acquire E localfs_driver d c rnd = (r, d')"
  shows "(\<exists>e. r = Inl e) \<and> lfs_view d' = lfs_view d"
proof -
  note n = named_ok_clean [OF assms(1)]
  have p: "acquire_read E localfs_driver d c = Inr PlanCreate" using assms(4) by (simp add: acquire_read_def)
  have "fst (lease_write E localfs_driver d l True) \<noteq> Inr () \<and> lfs_view (snd (lease_write E localfs_driver d l True)) = lfs_view d"
    if "l_name l = lc_name c" for l
    using lfs.lease_write_cases [OF assms(2), of l E True "fst (lease_write E localfs_driver d l True)"
        "snd (lease_write E localfs_driver d l True)"] n that assms(3) by auto
  then have "fst (acquire_commit E localfs_driver d l PlanCreate) \<noteq> Inr ()
      \<and> lfs_view (snd (acquire_commit E localfs_driver d l PlanCreate)) = lfs_view d" if "l_name l = lc_name c" for l
    using that by (force simp: acquire_commit_def split: prod.splits sum.splits)
  from this [of "lease_of c _"] show ?thesis
    using assms(5) p by (auto simp: acquire_def Let_def split: if_splits sum.splits prod.splits)
       (metis fst_conv snd_conv old.unit.exhaust)+
qed

theorem lease_corrupt_stuck_witness:
  "\<exists>d e d'. lfs_view d (cpath ''cfg'') = Some ''junk''
     \<and> acquire lock2 localfs_driver d (lock_config ''a'' \<lparr> lc_force := True \<rparr>) (Some ''x'') = (Inl e, d')
     \<and> lfs_view d' = lfs_view d"
proof -
  let ?c = "lock_config ''a'' \<lparr> lc_force := True \<rparr>"
  have cn: "lc_name ?c = ''cfg''" by (simp add: lock_config_def)
  note n = named_okD [OF named_ok_clean [OF sample_name]]
  obtain d where p: "lfs_view d = (lfs_view lock_fs)(cpath ''cfg'' \<mapsto> ''junk'')" "lfs_rel d"
    using rlfs.put_total [OF lock_fs_facts(1) n(5), of False "''junk''"] by blast
  have g: "d_get localfs_driver d (cpath ''cfg'') = Inr ''junk''" using rlfs.rel_get [OF p(2) n(5)] p(1) by simp
  have "case read_header ''junk'' of Inl e \<Rightarrow> e \<noteq> ErrArtifactNotFound | Inr _ \<Rightarrow> False" by code_simp
  then obtain e where h: "read_header ''junk'' = Inl e" "e \<noteq> ErrArtifactNotFound" by (auto split: sum.splits)
  have "lease_read lock2 localfs_driver d ''cfg'' = Inl ErrAlreadyExists"
    using g by (simp add: lease_read_def load_cell_def load_cell_with_keys_def cell_path_ok [OF n(2)] load_with_keys_def
        decode_encrypted_def h max_manifest_size_def Let_def)
  moreover obtain r d' where a: "acquire lock2 localfs_driver d ?c (Some ''x'') = (r, d')" by fastforce
  ultimately have "(\<exists>e. r = Inl e) \<and> lfs_view d' = lfs_view d"
    using lease_corrupt_stuck [of ?c d lock2 "Some ''x''" r d'] sample_name rlfs.rel_inv [OF p(2)] p(1) cn by simp
  moreover have "lfs_view d (cpath ''cfg'') = Some ''junk''" using p(1) by simp
  ultimately show ?thesis using a by blast
qed

end
