(* ===== verification/Segaead.thy ===== *)
theory Segaead
  imports Manifest_Codec Driver_Spec
begin

text \<open>
  The segmented AEAD blob format (\<^verbatim>\<open>engine/pipeline/internal/segaead\<close>): the header codec, the sealing
  reader and the opening reader.  Both readers produce their output lazily, one frame at a time, behind
  the same \<^verbatim>\<open>Read\<close> loop (\<open>fill_loop\<close>, \<open>frame_read\<close>); the locale \<open>framed_stream\<close> says what a fill step has to
  provide for that loop to deliver one well-defined byte stream whatever the buffer sizes, and both
  readers are interpretations of it.

  Parameters: the AEAD (\<open>cipher\<close>), HMAC-SHA256 and SHA-256 of the convergent mode, and the random IVs.
\<close>

subsection \<open>Readers\<close>

text \<open>A source is the bytes it still has and the error it ends with (\<open>None\<close> for a clean end).
  \<open>read_full n\<close> is \<^verbatim>\<open>io.ReadFull\<close> into a buffer of \<open>n\<close> bytes.\<close>

definition read_full :: "nat \<Rightarrow> reader \<Rightarrow> (bytes \<times> err option) \<times> reader" where
  "read_full n r = (case r of (b, e) \<Rightarrow>
     if n \<le> length b then ((take n b, None), (drop n b, e))
     else let x = (case e of Some x \<Rightarrow> x | None \<Rightarrow> ErrEOF) in
       ((b, Some (if x = ErrEOF \<and> b \<noteq> [] then ErrUnexpectedEOF else x)), ([], e)))"

record frame_reader =
  fr_src :: reader
  fr_pending :: bytes
  fr_done :: bool
  fr_err :: "err option"

text \<open>The loop of \<^verbatim>\<open>Read\<close>: fill until something is pending, the source is done or a fill failed.  The
  result is the error to return, if any.  The fuel bounds the number of fills.\<close>

fun fill_loop ::
    "('a frame_reader_scheme \<Rightarrow> unit res \<times> 'a frame_reader_scheme) \<Rightarrow> nat \<Rightarrow> 'a frame_reader_scheme
      \<Rightarrow> err option \<times> 'a frame_reader_scheme" where
  "fill_loop fill k st =
     (if fr_pending st \<noteq> [] then (None, st)
      else case fr_err st of
        Some e \<Rightarrow> (Some e, st)
      | None \<Rightarrow>
          if fr_done st then (Some ErrEOF, st)
          else case k of
            0 \<Rightarrow> (Some (ErrMsg ''fuel''), st)
          | Suc k' \<Rightarrow>
             (case fill st of
                (Inl e, st') \<Rightarrow>
                  if fr_pending st' = [] then (Some e, st' \<lparr> fr_err := Some e \<rparr>)
                  else fill_loop fill k' (st' \<lparr> fr_err := Some e \<rparr>)
              | (Inr _, st') \<Rightarrow> fill_loop fill k' st'))"

declare fill_loop.simps [simp del]

text \<open>\<^verbatim>\<open>Read\<close> into a buffer of \<open>n\<close> bytes; \<open>note_out\<close> is what the reader records of the bytes it hands out.\<close>

definition frame_read ::
    "('a frame_reader_scheme \<Rightarrow> unit res \<times> 'a frame_reader_scheme)
      \<Rightarrow> (nat \<Rightarrow> 'a frame_reader_scheme \<Rightarrow> 'a frame_reader_scheme) \<Rightarrow> 'a frame_reader_scheme \<Rightarrow> nat
      \<Rightarrow> (bytes \<times> err option) \<times> 'a frame_reader_scheme" where
  "frame_read fill note_out st n =
     (case fill_loop fill (length (fst (fr_src st)) + 2) st of
        (Some e, st') \<Rightarrow> (([], Some e), st')
      | (None, st') \<Rightarrow>
          let b = take n (fr_pending st') in
          ((b, None), note_out (length b) (st' \<lparr> fr_pending := drop n (fr_pending st') \<rparr>)))"

text \<open>A consumer that calls \<^verbatim>\<open>Read\<close> with the given buffer sizes until an error (\<^verbatim>\<open>io.EOF\<close> included).\<close>

fun drain ::
    "('s \<Rightarrow> nat \<Rightarrow> (bytes \<times> err option) \<times> 's) \<Rightarrow> 's \<Rightarrow> nat list \<Rightarrow> bytes \<times> err option" where
  "drain rd st [] = ([], None)"
| "drain rd st (n # ns) =
     (case rd st n of
        ((b, Some e), st') \<Rightarrow> (b, Some e)
      | ((b, None), st') \<Rightarrow> (case drain rd st' ns of (c, e) \<Rightarrow> (b @ c, e)))"

subsection \<open>Header\<close>

datatype iv_mode = IVModeRandom | IVModeConvergent

definition iv_mode_byte :: "iv_mode \<Rightarrow> char" where
  "iv_mode_byte m = (case m of IVModeRandom \<Rightarrow> CHR 0x00 | IVModeConvergent \<Rightarrow> CHR 0x01)"

definition iv_mode_of :: "char \<Rightarrow> iv_mode option" where
  "iv_mode_of c = (if c = CHR 0x00 then Some IVModeRandom else if c = CHR 0x01 then Some IVModeConvergent else None)"

definition seg_magic :: bytes where "seg_magic = [CHR 0x00, CHR ''S'', CHR ''B'', CHR ''1'']"
definition seg_version :: char where "seg_version = CHR 0x01"
definition iv_len :: nat where "iv_len = 12"
definition fixed_header_len :: nat where "fixed_header_len = 4 + 1 + 1 + 4 + 2"
definition frame_header_len :: nat where "frame_header_len = iv_len + 4"
definition max_seg_key_id_len :: nat where "max_seg_key_id_len = 255"
definition max_segment_size :: nat where "max_segment_size = 64 * 2 ^ 20"
definition max_aead_overhead :: nat where "max_aead_overhead = 64"
definition max_ciphertext_len :: nat where "max_ciphertext_len = max_segment_size + max_aead_overhead"
definition default_segment_size :: nat where "default_segment_size = 2 ^ 20"

record seg_header =
  sh_mode :: iv_mode
  sh_segment_size :: nat
  sh_key_id :: string

definition encode_header :: "seg_header \<Rightarrow> bytes res" where
  "encode_header h =
     (if length (sh_key_id h) > max_seg_key_id_len then Inl ErrKeyIDTooLong
      else Inr (seg_magic @ [seg_version, iv_mode_byte (sh_mode h)] @ be32 (sh_segment_size h)
             @ be16 (length (sh_key_id h)) @ sh_key_id h))"

definition decode_fixed_header :: "bytes \<Rightarrow> (iv_mode \<times> nat \<times> nat) res" where
  "decode_fixed_header b =
     (if length b < fixed_header_len then Inl ErrTruncated
      else if take 4 b \<noteq> seg_magic then Inl ErrBadMagic
      else if b ! 4 \<noteq> seg_version then Inl ErrUnsupportedVersion
      else case iv_mode_of (b ! 5) of
        None \<Rightarrow> Inl ErrBadMode
      | Some mode \<Rightarrow>
          let seg = un_be (take 4 (drop 6 b)) in
          if seg > max_segment_size then Inl ErrSegmentTooLarge
          else Inr (mode, seg, un_be (take 2 (drop 10 b))))"

subsection \<open>Sealing\<close>

record iv_source =
  iv_random :: "nat \<Rightarrow> bytes option"
  iv_hmac :: "bytes \<Rightarrow> bytes \<Rightarrow> bytes"
  iv_sha256 :: "bytes \<Rightarrow> bytes"

definition be64 :: "nat \<Rightarrow> bytes" where
  "be64 n = be32 (n div 2 ^ 32 mod 2 ^ 32) @ be32 (n mod 2 ^ 32)"

definition convergent_iv :: "iv_source \<Rightarrow> bytes \<Rightarrow> string \<Rightarrow> bytes \<Rightarrow> nat \<Rightarrow> bytes" where
  "convergent_iv V dek kid plain idx = take iv_len (iv_hmac V dek (iv_sha256 V plain @ kid @ be64 idx))"

definition random_iv :: "iv_source \<Rightarrow> nat \<Rightarrow> bytes res" where
  "random_iv V idx = (case iv_random V idx of None \<Rightarrow> Inl (ErrMsg ''random IV'') | Some iv \<Rightarrow> Inr iv)"

record seal_params =
  sp_mode :: iv_mode
  sp_dek :: bytes
  sp_key_id :: string
  sp_segment_size :: int

record seal_reader = frame_reader +
  sr_mode :: iv_mode
  sr_dek :: bytes
  sr_key_id :: string
  sr_seg_size :: nat
  sr_index :: nat
  sr_written :: nat

definition seal :: "reader \<Rightarrow> seal_params \<Rightarrow> seal_reader res" where
  "seal src p =
     (if sp_mode p = IVModeConvergent \<and> sp_dek p = [] then Inl (ErrMsg ''convergent mode requires a DEK'')
      else let seg = (if sp_segment_size p \<le> 0 then default_segment_size else nat (sp_segment_size p)) in
        if seg > max_segment_size then Inl ErrSegmentTooLarge
        else case encode_header \<lparr> sh_mode = sp_mode p, sh_segment_size = seg, sh_key_id = sp_key_id p \<rparr> of
          Inl e \<Rightarrow> Inl e
        | Inr hdr \<Rightarrow> Inr \<lparr> fr_src = src, fr_pending = hdr, fr_done = False, fr_err = None,
            sr_mode = sp_mode p, sr_dek = sp_dek p, sr_key_id = sp_key_id p, sr_seg_size = seg,
            sr_index = 0, sr_written = 0 \<rparr>)"

definition segment_iv :: "iv_source \<Rightarrow> iv_mode \<Rightarrow> bytes \<Rightarrow> string \<Rightarrow> bytes \<Rightarrow> nat \<Rightarrow> bytes res" where
  "segment_iv V mode dek kid plain idx = (case mode of
      IVModeRandom \<Rightarrow> random_iv V idx
    | IVModeConvergent \<Rightarrow> Inr (convergent_iv V dek kid plain idx))"

definition frame_of :: "cipher \<Rightarrow> bytes \<Rightarrow> bytes \<Rightarrow> bytes \<Rightarrow> bytes" where
  "frame_of C dek iv plain = (let ct = c_seal C dek iv plain [] in iv @ be32 (length ct mod 2 ^ 32) @ ct)"

definition seal_segment :: "cipher \<Rightarrow> iv_source \<Rightarrow> seal_reader \<Rightarrow> bytes \<Rightarrow> unit res \<times> seal_reader" where
  "seal_segment C V st plain =
     (case segment_iv V (sr_mode st) (sr_dek st) (sr_key_id st) plain (sr_index st) of
        Inl e \<Rightarrow> (Inl e, st)
      | Inr iv \<Rightarrow> (Inr (), st \<lparr> fr_pending := fr_pending st @ frame_of C (sr_dek st) iv plain,
                             sr_index := (sr_index st + 1) mod 2 ^ 64 \<rparr>))"

definition seal_fill :: "cipher \<Rightarrow> iv_source \<Rightarrow> seal_reader \<Rightarrow> unit res \<times> seal_reader" where
  "seal_fill C V st =
     (case read_full (sr_seg_size st) (fr_src st) of
        ((b, None), src) \<Rightarrow>
          let st' = st \<lparr> fr_src := src \<rparr> in
          if b = [] then (Inr (), st') else seal_segment C V st' b
      | ((b, Some e), src) \<Rightarrow>
          let st' = st \<lparr> fr_src := src \<rparr> in
          if e = ErrUnexpectedEOF then
            let st'' = st' \<lparr> fr_done := True \<rparr> in
            if b = [] then (Inr (), st'') else seal_segment C V st'' b
          else if e = ErrEOF then (Inr (), st' \<lparr> fr_done := True \<rparr>)
          else (Inl e, st'))"

text \<open>\<^verbatim>\<open>SealReader.Read\<close>, which also counts the bytes handed out.\<close>

definition seal_read :: "cipher \<Rightarrow> iv_source \<Rightarrow> seal_reader \<Rightarrow> nat \<Rightarrow> (bytes \<times> err option) \<times> seal_reader" where
  "seal_read C V st n = frame_read (seal_fill C V) (\<lambda>k st. st \<lparr> sr_written := sr_written st + k \<rparr>) st n"

subsection \<open>Opening\<close>

record open_reader = frame_reader +
  or_keys :: "bytes list"
  or_header_done :: bool

definition seg_open :: "reader \<Rightarrow> bytes list \<Rightarrow> open_reader res" where
  "seg_open src keys =
     (if keys = [] then Inl (ErrMsg ''no AEAD candidates'')
      else Inr \<lparr> fr_src = src, fr_pending = [], fr_done = False, fr_err = None,
                 or_keys = keys, or_header_done = False \<rparr>)"

definition header_read_err :: "err \<Rightarrow> err" where
  "header_read_err e = (if e = ErrEOF \<or> e = ErrUnexpectedEOF then ErrTruncated else e)"

definition read_blob_header :: "open_reader \<Rightarrow> unit res \<times> open_reader" where
  "read_blob_header st =
     (case read_full fixed_header_len (fr_src st) of
        ((_, Some e), src) \<Rightarrow> (Inl (header_read_err e), st \<lparr> fr_src := src \<rparr>)
      | ((fixed, None), src) \<Rightarrow>
     (case decode_fixed_header fixed of
        Inl e \<Rightarrow> (Inl e, st \<lparr> fr_src := src \<rparr>)
      | Inr (_, _, klen) \<Rightarrow>
          if klen > 0 then
            (case read_full klen src of
               ((_, Some e), src') \<Rightarrow> (Inl (header_read_err e), st \<lparr> fr_src := src' \<rparr>)
             | ((_, None), src') \<Rightarrow> (Inr (), st \<lparr> fr_src := src' \<rparr>))
          else (Inr (), st \<lparr> fr_src := src \<rparr>)))"

text \<open>The first candidate that authenticates wins.\<close>

fun open_segment :: "cipher \<Rightarrow> bytes list \<Rightarrow> bytes \<Rightarrow> bytes \<Rightarrow> bytes res" where
  "open_segment C [] iv ct = Inl ErrSegmentAuth"
| "open_segment C (k # ks) iv ct = (case c_open C k iv ct [] of Some p \<Rightarrow> Inr p | None \<Rightarrow> open_segment C ks iv ct)"

definition read_segment :: "cipher \<Rightarrow> open_reader \<Rightarrow> unit res \<times> open_reader" where
  "read_segment C st =
     (case read_full frame_header_len (fr_src st) of
        ((b, Some e), src) \<Rightarrow>
          let st' = st \<lparr> fr_src := src \<rparr> in
          if e = ErrEOF \<and> b = [] then (Inr (), st' \<lparr> fr_done := True \<rparr>)
          else if e = ErrEOF \<or> e = ErrUnexpectedEOF then (Inl ErrTruncated, st')
          else (Inl e, st')
      | ((fh, None), src) \<Rightarrow>
          let iv = take iv_len fh; ct_len = un_be (drop iv_len fh) in
          if ct_len > max_ciphertext_len then (Inl ErrSegmentTooLarge, st \<lparr> fr_src := src \<rparr>)
          else case read_full ct_len src of
            ((_, Some e), src') \<Rightarrow> (Inl ErrTruncated, st \<lparr> fr_src := src' \<rparr>)
          | ((ct, None), src') \<Rightarrow>
             (case open_segment C (or_keys st) iv ct of
                Inl e \<Rightarrow> (Inl e, st \<lparr> fr_src := src' \<rparr>)
              | Inr p \<Rightarrow> (Inr (), st \<lparr> fr_src := src', fr_pending := fr_pending st @ p \<rparr>)))"

definition open_fill :: "cipher \<Rightarrow> open_reader \<Rightarrow> unit res \<times> open_reader" where
  "open_fill C st =
     (if \<not> or_header_done st then
        (case read_blob_header st of
           (Inl e, st') \<Rightarrow> (Inl e, st')
         | (Inr _, st') \<Rightarrow> (Inr (), st' \<lparr> or_header_done := True \<rparr>))
      else read_segment C st)"

definition open_read :: "cipher \<Rightarrow> open_reader \<Rightarrow> nat \<Rightarrow> (bytes \<times> err option) \<times> open_reader" where
  "open_read C st n = frame_read (open_fill C) (\<lambda>_ st. st) st n"

subsection \<open>The stream behind a framed reader\<close>

locale framed_stream =
  fixes fill :: "'a frame_reader_scheme \<Rightarrow> unit res \<times> 'a frame_reader_scheme"
    and note_out :: "nat \<Rightarrow> 'a frame_reader_scheme \<Rightarrow> 'a frame_reader_scheme"
    and rest :: "'a frame_reader_scheme \<Rightarrow> bytes \<times> err"
    and good :: "'a frame_reader_scheme \<Rightarrow> bool"
  assumes fill_ok: "good st \<Longrightarrow> fr_pending st = [] \<Longrightarrow> fr_err st = None \<Longrightarrow> \<not> fr_done st \<Longrightarrow>
      fill st = (Inr u, st') \<Longrightarrow>
      good st' \<and> fr_err st' = None \<and> rest st = (fr_pending st' @ fst (rest st'), snd (rest st'))
      \<and> (fr_pending st' \<noteq> [] \<or> fr_done st' \<or> length (fst (fr_src st')) < length (fst (fr_src st)))"
    and fill_err: "good st \<Longrightarrow> fr_pending st = [] \<Longrightarrow> fr_err st = None \<Longrightarrow> \<not> fr_done st \<Longrightarrow>
      fill st = (Inl e, st') \<Longrightarrow> fr_pending st' = [] \<and> rest st = ([], e)"
    and done_rest: "good st \<Longrightarrow> fr_done st \<Longrightarrow> rest st = ([], ErrEOF)"
    and pending_frame: "good (st \<lparr> fr_pending := b \<rparr>) = good st" "rest (st \<lparr> fr_pending := b \<rparr>) = rest st"
    and note_frame: "good (note_out k st) = good st" "rest (note_out k st) = rest st"
      "fr_pending (note_out k st) = fr_pending st" "fr_err (note_out k st) = fr_err st"
begin

definition total :: "'a frame_reader_scheme \<Rightarrow> bytes \<times> err" where
  "total st = (fr_pending st @ fst (rest st), snd (rest st))"

lemma fill_loop_spec:
  assumes "good st" "fr_err st = None" "length (fst (fr_src st)) < k"
  shows "case fill_loop fill k st of
      (None, st') \<Rightarrow> good st' \<and> fr_err st' = None \<and> fr_pending st' \<noteq> [] \<and> total st' = total st
    | (Some e, _) \<Rightarrow> total st = ([], e)"
  using assms
proof (induction k arbitrary: st)
  case (Suc k)
  show ?case
  proof (cases "fr_pending st \<noteq> [] \<or> fr_done st")
    case True
    then show ?thesis
      using Suc.prems done_rest by (subst fill_loop.simps) (auto simp: total_def)
  next
    case False
    then have f: "fr_pending st = []" "\<not> fr_done st" by simp_all
    obtain r st' where fl: "fill st = (r, st')" by fastforce
    show ?thesis
    proof (cases r)
      case (Inl e)
      then show ?thesis
        using fill_err [OF Suc.prems(1) f(1) Suc.prems(2) f(2)] fl f Suc.prems(2)
        by (subst fill_loop.simps) (simp add: total_def)
    next
      case (Inr u)
      note ok = fill_ok [OF Suc.prems(1) f(1) Suc.prems(2) f(2) fl [unfolded Inr]]
      have t: "total st = total st'" using ok f(1) by (simp add: total_def)
      have step: "fill_loop fill (Suc k) st = fill_loop fill k st'"
        using fl Inr f Suc.prems(2) by (subst fill_loop.simps) simp
      show ?thesis
      proof (cases "fr_pending st' \<noteq> [] \<or> fr_done st'")
        case True
        then show ?thesis
          unfolding step using ok t done_rest [of st'] by (subst fill_loop.simps) (auto simp: total_def)
      next
        case False
        then have "length (fst (fr_src st')) < k" using ok Suc.prems(3) by auto
        moreover have "good st'" "fr_err st' = None" using ok by blast+
        ultimately show ?thesis unfolding step t by (intro Suc.IH)
      qed
    qed
  qed
qed simp

lemma frame_read_spec:
  assumes "good st" "fr_err st = None" "0 < n"
  shows "case frame_read fill note_out st n of
      ((b, None), st') \<Rightarrow> good st' \<and> fr_err st' = None \<and> b \<noteq> [] \<and> length b \<le> n
        \<and> total st = (b @ fst (total st'), snd (total st'))
    | ((b, Some e), _) \<Rightarrow> b = [] \<and> total st = ([], e)"
proof -
  obtain r st' where l: "fill_loop fill (length (fst (fr_src st)) + 2) st = (r, st')" by fastforce
  note sp = fill_loop_spec [OF assms(1,2), of "length (fst (fr_src st)) + 2", unfolded l]
  show ?thesis
  proof (cases r)
    case None
    then have o: "good st'" "fr_err st' = None" "fr_pending st' \<noteq> []" "total st' = total st" using sp by auto
    have "fst (total st) = take n (fr_pending st') @ drop n (fr_pending st') @ fst (rest st')"
      unfolding o(4) [symmetric] by (simp add: total_def flip: append_assoc)
    moreover have "snd (total st) = snd (rest st')" unfolding o(4) [symmetric] by (simp add: total_def)
    ultimately have "total st = (take n (fr_pending st') @ drop n (fr_pending st') @ fst (rest st'), snd (rest st'))"
      by (simp add: prod_eq_iff)
    then show ?thesis
      using l None assms(3) o(1-3) by (simp add: frame_read_def Let_def note_frame pending_frame total_def)
  next
    case (Some e)
    then show ?thesis using sp l by (simp add: frame_read_def)
  qed
qed

text \<open>Whatever the buffer sizes, a consumer sees a prefix of one byte stream, and all of it followed by
  its final status once it has called often enough.\<close>

lemma drain_spec:
  assumes "good st" "fr_err st = None" "\<forall>n \<in> set ns. 0 < n" "drain (frame_read fill note_out) st ns = (out, e)"
  shows "(e = None \<and> (\<exists>t. fst (total st) = out @ t) \<and> length ns \<le> length out)
    \<or> (e = Some (snd (total st)) \<and> out = fst (total st))"
  using assms
proof (induction ns arbitrary: st out e)
  case (Cons n ns)
  obtain b x st' where r: "frame_read fill note_out st n = ((b, x), st')" by (metis prod.exhaust)
  note sp = frame_read_spec [OF Cons.prems(1,2), of n, unfolded r]
  show ?case
  proof (cases x)
    case None
    then have o: "good st'" "fr_err st' = None" "b \<noteq> []" "total st = (b @ fst (total st'), snd (total st'))"
      using sp Cons.prems(3) by auto
    obtain c y where d: "drain (frame_read fill note_out) st' ns = (c, y)" by fastforce
    have oc: "out = b @ c" "e = y" using Cons.prems(4) r None d by auto
    have b: "1 \<le> length b" using o(3) by (cases b) simp_all
    consider t where "y = None" "fst (total st') = c @ t" "length ns \<le> length c"
      | "y = Some (snd (total st'))" "c = fst (total st')"
      using Cons.IH [OF o(1,2) _ d] Cons.prems(3) by auto
    then show ?thesis
    proof cases
      case (1 t)
      then have "fst (total st) = out @ t" "length (n # ns) \<le> length out" using o(4) oc b by simp_all
      then show ?thesis using 1(1) oc by blast
    next
      case 2
      then show ?thesis using o(4) oc by simp
    qed
  next
    case (Some er)
    then show ?thesis using sp Cons.prems r by auto
  qed
qed simp

lemma drain_all:
  assumes "good st" "fr_err st = None" "\<forall>n \<in> set ns. 0 < n" "length (fst (total st)) < length ns"
  shows "drain (frame_read fill note_out) st ns = (fst (total st), Some (snd (total st)))"
proof -
  obtain out e where d: "drain (frame_read fill note_out) st ns = (out, e)" by fastforce
  show ?thesis using drain_spec [OF assms(1-3) d] d assms(4) by auto
qed

end

subsection \<open>Reference definitions\<close>

text \<open>The segments of a plaintext.\<close>

function chunks :: "nat \<Rightarrow> 'a list \<Rightarrow> 'a list list" where
  "chunks n xs = (if n = 0 \<or> xs = [] then [] else take n xs # chunks n (drop n xs))"
  by auto

termination chunks
  by (relation "measure (length \<circ> snd)") auto

declare chunks.simps [simp del]

lemma chunks_simps [simp]: "chunks n [] = []" "n \<noteq> 0 \<Longrightarrow> xs \<noteq> [] \<Longrightarrow> chunks n xs = take n xs # chunks n (drop n xs)"
  by (simp_all add: chunks.simps)

lemma concat_chunks: "n \<noteq> 0 \<Longrightarrow> concat (chunks n xs) = xs"
proof (induction n xs rule: chunks.induct)
  case (1 n xs)
  then show ?case by (cases "xs = []") simp_all
qed

lemma chunks_bounds: "n \<noteq> 0 \<Longrightarrow> c \<in> set (chunks n xs) \<Longrightarrow> c \<noteq> [] \<and> length c \<le> n"
proof (induction n xs rule: chunks.induct)
  case (1 n xs)
  then show ?case by (cases "xs = []") auto
qed

text \<open>Sealing a list of segments from a given index on: the frames, and how the stream ends.\<close>

fun seal_segments ::
    "cipher \<Rightarrow> iv_source \<Rightarrow> iv_mode \<Rightarrow> bytes \<Rightarrow> string \<Rightarrow> nat \<Rightarrow> bytes list \<Rightarrow> err \<Rightarrow> bytes \<times> err" where
  "seal_segments C V mode dek kid idx [] fin = ([], fin)"
| "seal_segments C V mode dek kid idx (c # cs) fin =
     (case segment_iv V mode dek kid c idx of
        Inl e \<Rightarrow> ([], e)
      | Inr iv \<Rightarrow> (case seal_segments C V mode dek kid ((idx + 1) mod 2 ^ 64) cs fin of
          (out, e) \<Rightarrow> (frame_of C dek iv c @ out, e)))"

text \<open>Ends of a source the sealing reader takes for the end of the plaintext.\<close>

definition eof_like :: "err option \<Rightarrow> bool" where
  "eof_like e = (e = None \<or> e = Some ErrEOF \<or> e = Some ErrUnexpectedEOF)"

definition whole_segments :: "nat \<Rightarrow> 'a list \<Rightarrow> 'a list" where
  "whole_segments n xs = take (length xs div n * n) xs"

definition seal_rest :: "cipher \<Rightarrow> iv_source \<Rightarrow> seal_reader \<Rightarrow> bytes \<times> err" where
  "seal_rest C V st =
     (if fr_done st then ([], ErrEOF)
      else let seg = sr_seg_size st; sealed = seal_segments C V (sr_mode st) (sr_dek st) (sr_key_id st) (sr_index st) in
        case fr_src st of (b, e) \<Rightarrow>
          if eof_like e then sealed (chunks seg b) ErrEOF
          else sealed (chunks seg (whole_segments seg b)) (the e))"

definition seal_good :: "seal_reader \<Rightarrow> bool" where
  "seal_good st = (0 < sr_seg_size st \<and> sr_seg_size st \<le> max_segment_size)"

lemma whole_segments_short [simp]: "length xs < n \<Longrightarrow> whole_segments n xs = []"
  by (simp add: whole_segments_def)

lemma whole_segments_step:
  assumes "n \<le> length xs" "0 < n"
  shows "whole_segments n xs \<noteq> []" "take n (whole_segments n xs) = take n xs"
    "drop n (whole_segments n xs) = whole_segments n (drop n xs)"
proof -
  obtain k where k: "length xs div n = Suc k" using assms by (metis div_greater_zero_iff gr0_implies_Suc)
  have "length (drop n xs) div n = k" "xs \<noteq> []" using k assms by (auto simp: div_if)
  then show "whole_segments n xs \<noteq> []" "take n (whole_segments n xs) = take n xs"
    "drop n (whole_segments n xs) = whole_segments n (drop n xs)"
    using k assms by (simp_all add: whole_segments_def drop_take min_def)
qed

lemma frame_of_nonempty [simp]: "frame_of C dek iv p \<noteq> []"
  by (simp add: frame_of_def Let_def be32_def)

text \<open>A full segment is read and sealed.\<close>

lemma seal_rest_step:
  assumes "seal_good st" "\<not> fr_done st" "fr_src st = (b, e)" "sr_seg_size st \<le> length b"
  shows "seal_rest C V st = (case segment_iv V (sr_mode st) (sr_dek st) (sr_key_id st) (take (sr_seg_size st) b) (sr_index st) of
      Inl er \<Rightarrow> ([], er)
    | Inr iv \<Rightarrow> (let r = seal_rest C V (st \<lparr> fr_src := (drop (sr_seg_size st) b, e), sr_index := (sr_index st + 1) mod 2 ^ 64 \<rparr>)
        in (frame_of C (sr_dek st) iv (take (sr_seg_size st) b) @ fst r, snd r)))"
proof -
  have n: "0 < sr_seg_size st" using assms(1) by (simp add: seal_good_def)
  then have b: "b \<noteq> []" using assms(4) by auto
  show ?thesis
    using assms(2,3) n b whole_segments_step [OF assms(4) n]
    by (simp add: seal_rest_def Let_def split: sum.splits prod.splits)
qed

lemma seal_fill_full:
  assumes "seal_good st" "fr_src st = (b, e)" "sr_seg_size st \<le> length b"
  shows "seal_fill C V st = seal_segment C V (st \<lparr> fr_src := (drop (sr_seg_size st) b, e) \<rparr>) (take (sr_seg_size st) b)"
proof -
  have "0 < sr_seg_size st" "b \<noteq> []" using assms by (auto simp: seal_good_def)
  then show ?thesis using assms(2,3) by (simp add: seal_fill_def read_full_def)
qed

lemma seal_fill_short:
  assumes "seal_good st" "\<not> fr_done st" "fr_src st = (b, e)" "length b < sr_seg_size st"
  shows "seal_fill C V st =
    (if eof_like e then
       (if b = [] then (Inr (), st \<lparr> fr_src := ([], e), fr_done := True \<rparr>)
        else seal_segment C V (st \<lparr> fr_src := ([], e), fr_done := True \<rparr>) b)
     else (Inl (the e), st \<lparr> fr_src := ([], e) \<rparr>))"
  using assms by (auto simp: seal_fill_def read_full_def Let_def eof_like_def split: option.splits)

lemma seal_rest_short:
  assumes "seal_good st" "\<not> fr_done st" "fr_src st = (b, e)" "length b < sr_seg_size st"
  shows "seal_rest C V st = (if eof_like e then
      seal_segments C V (sr_mode st) (sr_dek st) (sr_key_id st) (sr_index st) (if b = [] then [] else [b]) ErrEOF
    else ([], the e))"
  using assms by (auto simp: seal_rest_def Let_def)

interpretation sealing: framed_stream "seal_fill C V" "\<lambda>k st. st \<lparr> sr_written := sr_written st + k \<rparr>" "seal_rest C V" seal_good
  for C V
proof
  fix st u st' e
  assume g: "seal_good st" and p: "fr_pending st = []" and ne: "fr_err st = None" and nd: "\<not> fr_done st"
  obtain b x where src: "fr_src st = (b, x)" by fastforce
  {
    assume f: "seal_fill C V st = (Inr u, st')"
    show "seal_good st' \<and> fr_err st' = None \<and> seal_rest C V st = (fr_pending st' @ fst (seal_rest C V st'), snd (seal_rest C V st'))
      \<and> (fr_pending st' \<noteq> [] \<or> fr_done st' \<or> length (fst (fr_src st')) < length (fst (fr_src st)))"
    proof (cases "sr_seg_size st \<le> length b")
      case True
      then show ?thesis
        using f g p ne nd src seal_rest_step [OF g nd src True, of C V] unfolding seal_fill_full [OF g src True]
        by (auto simp: seal_segment_def seal_good_def seal_rest_def Let_def split: sum.splits)
    next
      case False
      then show ?thesis
        using f g p ne nd src seal_rest_short [OF g nd src, of C V] seal_fill_short [OF g nd src, of C V]
        by (auto simp: seal_segment_def seal_good_def seal_rest_def Let_def split: sum.splits if_splits)
    qed
  next
    assume f: "seal_fill C V st = (Inl e, st')"
    show "fr_pending st' = [] \<and> seal_rest C V st = ([], e)"
    proof (cases "sr_seg_size st \<le> length b")
      case True
      then show ?thesis
        using f g p ne nd src seal_rest_step [OF g nd src True, of C V] unfolding seal_fill_full [OF g src True]
        by (auto simp: seal_segment_def split: sum.splits)
    next
      case False
      then show ?thesis
        using f g p ne nd src seal_rest_short [OF g nd src, of C V] seal_fill_short [OF g nd src, of C V]
        by (auto simp: seal_segment_def split: sum.splits if_splits)
    qed
  }
qed (simp_all add: seal_rest_def seal_good_def)

text \<open>The next frame of a source: its end (with an error, or clean), or an IV, a ciphertext and what follows.\<close>

definition next_frame :: "bytes \<Rightarrow> err option \<Rightarrow> err option + (bytes \<times> bytes \<times> bytes)" where
  "next_frame b e =
     (case read_full frame_header_len (b, e) of
        ((h, Some x), _) \<Rightarrow>
          Inl (if x = ErrEOF \<and> h = [] then None else if x = ErrEOF \<or> x = ErrUnexpectedEOF then Some ErrTruncated else Some x)
      | ((fh, None), (b1, _)) \<Rightarrow>
          if un_be (drop iv_len fh) > max_ciphertext_len then Inl (Some ErrSegmentTooLarge)
          else case read_full (un_be (drop iv_len fh)) (b1, e) of
            ((_, Some x), _) \<Rightarrow> Inl (Some ErrTruncated)
          | ((ct, None), (b2, _)) \<Rightarrow> Inr (take iv_len fh, ct, b2))"

lemma next_frame_shrinks: "next_frame b e = Inr (iv, ct, b2) \<Longrightarrow> length b2 < length b"
  by (auto simp: next_frame_def read_full_def frame_header_len_def iv_len_def Let_def split: if_splits)

text \<open>Opening the frames of a source: the plaintext, and how the stream ends.\<close>

function open_frames :: "cipher \<Rightarrow> bytes list \<Rightarrow> bytes \<Rightarrow> err option \<Rightarrow> bytes \<times> err" where
  "open_frames C keys b e =
     (case next_frame b e of
        Inl None \<Rightarrow> ([], ErrEOF)
      | Inl (Some x) \<Rightarrow> ([], x)
      | Inr (iv, ct, b2) \<Rightarrow>
         (case open_segment C keys iv ct of
            Inl er \<Rightarrow> ([], er)
          | Inr p \<Rightarrow> (case open_frames C keys b2 e of (out, fin) \<Rightarrow> (p @ out, fin))))"
  by pat_completeness auto

termination open_frames
  by (relation "measure (\<lambda>(C, keys, b, e). length b)") (auto dest: next_frame_shrinks)

declare open_frames.simps [simp del]

definition open_rest :: "cipher \<Rightarrow> open_reader \<Rightarrow> bytes \<times> err" where
  "open_rest C st =
     (if fr_done st then ([], ErrEOF)
      else if or_header_done st then open_frames C (or_keys st) (fst (fr_src st)) (snd (fr_src st))
      else case read_blob_header st of
        (Inl e, _) \<Rightarrow> ([], e)
      | (Inr _, st') \<Rightarrow> open_frames C (or_keys st) (fst (fr_src st')) (snd (fr_src st')))"

lemma read_full_shape: "\<exists>h x b'. read_full n (b, e) = ((h, x), (b', e))"
  by (cases "n \<le> length b") (simp_all add: read_full_def Let_def)

lemma read_segment_conv:
  assumes "fr_src st = (b, e)"
  shows "\<exists>src. read_segment C st = (case next_frame b e of
      Inl None \<Rightarrow> (Inr (), st \<lparr> fr_src := src, fr_done := True \<rparr>)
    | Inl (Some x) \<Rightarrow> (Inl x, st \<lparr> fr_src := src \<rparr>)
    | Inr (iv, ct, b2) \<Rightarrow>
       (case open_segment C (or_keys st) iv ct of
          Inl er \<Rightarrow> (Inl er, st \<lparr> fr_src := src \<rparr>)
        | Inr p \<Rightarrow> (Inr (), st \<lparr> fr_src := (b2, e), fr_pending := fr_pending st @ p \<rparr>)))"
proof -
  obtain h x b1 where r1: "read_full frame_header_len (b, e) = ((h, x), (b1, e))"
    using read_full_shape by metis
  show ?thesis
  proof (cases "x = None \<and> \<not> un_be (drop iv_len h) > max_ciphertext_len")
    case True
    obtain ct y b2 where r2: "read_full (un_be (drop iv_len h)) (b1, e) = ((ct, y), (b2, e))"
      using read_full_shape by metis
    show ?thesis
      by (rule exI [of _ "(b2, e)"])
         (use assms True r1 r2 in \<open>simp add: read_segment_def next_frame_def Let_def split: option.split sum.split\<close>)
  next
    case False
    then show ?thesis
      by (intro exI [of _ "(b1, e)"])
         (use assms r1 in \<open>auto simp: read_segment_def next_frame_def Let_def split: option.split\<close>)
  qed
qed

lemma read_full_src: "read_full n r = ((b, None), r') \<Longrightarrow> length b = n \<and> length (fst r') + n = length (fst r)"
  by (auto simp: read_full_def Let_def split: prod.splits if_splits)

lemma read_blob_header_cases:
  assumes "read_blob_header st = (r, st')"
  obtains src where "st' = st \<lparr> fr_src := src \<rparr>" "r = Inr () \<Longrightarrow> length (fst src) < length (fst (fr_src st))"
proof -
  obtain f x s1 where a: "read_full fixed_header_len (fr_src st) = ((f, x), s1)" by (metis prod.exhaust)
  have pos: "0 < fixed_header_len" by (simp add: fixed_header_len_def)
  show thesis
  proof (cases "x = None \<and> (\<exists>m z k. decode_fixed_header f = Inr (m, z, k) \<and> 0 < k)")
    case True
    then obtain m z k where d: "x = None" "decode_fixed_header f = Inr (m, z, k)" "0 < k" by blast
    obtain g y s2 where c: "read_full k s1 = ((g, y), s2)" by (metis prod.exhaust)
    have "st' = st \<lparr> fr_src := s2 \<rparr>" "r = Inr () \<Longrightarrow> y = None"
      using assms a c d by (auto simp: read_blob_header_def split: option.splits)
    then show thesis
      using that [of s2] read_full_src [of fixed_header_len "fr_src st" f s1] read_full_src [of k s1 g s2] a c d pos
      by fastforce
  next
    case False
    then have "st' = st \<lparr> fr_src := s1 \<rparr>" "r = Inr () \<Longrightarrow> x = None"
      using assms a by (auto simp: read_blob_header_def split: option.splits sum.splits if_splits)
    then show thesis
      using that [of s1] read_full_src [of fixed_header_len "fr_src st" f s1] a pos by fastforce
  qed
qed

lemma read_blob_header_pending:
  "read_blob_header (st \<lparr> fr_pending := b \<rparr>) = map_prod id (\<lambda>st. st \<lparr> fr_pending := b \<rparr>) (read_blob_header st)"
  by (simp add: read_blob_header_def split: prod.split sum.split option.split)

lemma open_rest_header:
  assumes "\<not> fr_done st" "\<not> or_header_done st" "read_blob_header st = (Inr u, st')"
  shows "open_rest C st = open_rest C (st' \<lparr> or_header_done := True \<rparr>)"
  using assms by (auto simp: open_rest_def elim!: read_blob_header_cases)

lemma open_rest_segments:
  assumes "or_header_done st" "\<not> fr_done st" "fr_src st = (b, e)"
  shows "open_rest C st = open_frames C (or_keys st) b e"
  using assms by (simp add: open_rest_def)

interpretation unsealing: framed_stream "open_fill C" "\<lambda>_ st. st" "open_rest C" "\<lambda>_. True"
  for C
proof
  fix st :: open_reader and u st' e
  assume p: "fr_pending st = []" and ne: "fr_err st = None" and nd: "\<not> fr_done st"
  obtain b x where src: "fr_src st = (b, x)" by fastforce
  obtain r1 s1 where h: "read_blob_header st = (r1, s1)" by fastforce
  obtain sr where rs: "read_segment C st = (case next_frame b x of
      Inl None \<Rightarrow> (Inr (), st \<lparr> fr_src := sr, fr_done := True \<rparr>)
    | Inl (Some y) \<Rightarrow> (Inl y, st \<lparr> fr_src := sr \<rparr>)
    | Inr (iv, ct, b2) \<Rightarrow>
       (case open_segment C (or_keys st) iv ct of
          Inl er \<Rightarrow> (Inl er, st \<lparr> fr_src := sr \<rparr>)
        | Inr p \<Rightarrow> (Inr (), st \<lparr> fr_src := (b2, x), fr_pending := fr_pending st @ p \<rparr>)))"
    using read_segment_conv [OF src] by blast
  {
    assume f: "open_fill C st = (Inr u, st')"
    show "True \<and> fr_err st' = None \<and> open_rest C st = (fr_pending st' @ fst (open_rest C st'), snd (open_rest C st'))
      \<and> (fr_pending st' \<noteq> [] \<or> fr_done st' \<or> length (fst (fr_src st')) < length (fst (fr_src st)))"
    proof (cases "or_header_done st")
      case False
      then have r: "r1 = Inr ()" "st' = s1 \<lparr> or_header_done := True \<rparr>"
        using f h by (auto simp: open_fill_def split: sum.splits)
      obtain s where s: "s1 = st \<lparr> fr_src := s \<rparr>" "length (fst s) < length (fst (fr_src st))"
        using h r(1) by (auto elim: read_blob_header_cases)
      then show ?thesis using open_rest_header [OF nd False] h r p ne by simp
    next
      case True
      then have "read_segment C st = (Inr u, st')" using f by (simp add: open_fill_def)
      then show ?thesis
        using rs p ne nd src True open_frames.simps [of C "or_keys st" b x]
        by (auto simp: open_rest_def split: sum.splits option.splits prod.splits dest: next_frame_shrinks)
    qed
  next
    assume f: "open_fill C st = (Inl e, st')"
    show "fr_pending st' = [] \<and> open_rest C st = ([], e)"
    proof (cases "or_header_done st")
      case False
      then have r: "r1 = Inl e" "st' = s1" using f h by (auto simp: open_fill_def split: sum.splits)
      moreover obtain s where "s1 = st \<lparr> fr_src := s \<rparr>" using h by (auto elim: read_blob_header_cases)
      ultimately show ?thesis using h p nd False by (simp add: open_rest_def)
    next
      case True
      then have "read_segment C st = (Inl e, st')" using f by (simp add: open_fill_def)
      then show ?thesis
        using rs p nd src True open_frames.simps [of C "or_keys st" b x]
        by (auto simp: open_rest_def split: sum.splits option.splits prod.splits)
    qed
  }
next
  fix st :: open_reader and b
  show "open_rest C (st \<lparr> fr_pending := b \<rparr>) = open_rest C st"
    by (simp add: open_rest_def read_blob_header_pending split: prod.splits sum.splits)
qed (simp_all add: open_rest_def)

subsection \<open>Frames\<close>

text \<open>What is relied on of the IV sources: a random IV and an HMAC have the lengths of their standards.\<close>

definition ivs_ok :: "iv_source \<Rightarrow> bool" where
  "ivs_ok V = ((\<forall>i. \<exists>iv. iv_random V i = Some iv \<and> length iv = iv_len) \<and> (\<forall>k m. length (iv_hmac V k m) = 32))"

lemma segment_iv_ok: "ivs_ok V \<Longrightarrow> \<exists>iv. segment_iv V mode dek kid c idx = Inr iv \<and> length iv = iv_len"
proof (cases mode)
  case IVModeRandom
  assume v: "ivs_ok V"
  then obtain iv where "iv_random V idx = Some iv" "length iv = iv_len"
    unfolding ivs_ok_def by blast
  then show ?thesis using IVModeRandom by (simp add: segment_iv_def random_iv_def)
next
  case IVModeConvergent
  assume "ivs_ok V"
  then show ?thesis using IVModeConvergent by (simp add: ivs_ok_def segment_iv_def convergent_iv_def iv_len_def)
qed

lemma open_segment_seal:
  assumes "aead_correct C" "key_committing C dek keys" "dek \<in> set keys"
  shows "open_segment C keys iv (c_seal C dek iv c []) = Inr c"
  using assms(2,3)
proof (induction keys)
  case (Cons k ks)
  then show ?case
    using assms(1) by (cases "k = dek") (auto simp: aead_correct_def key_committing_def split: option.splits)
qed simp

lemma max_ciphertext_small: "max_ciphertext_len < 2 ^ 32"
  by (simp add: max_ciphertext_len_def max_segment_size_def max_aead_overhead_def)

lemma next_frame_of:
  assumes "length iv = iv_len" "length (c_seal C dek iv c []) \<le> max_ciphertext_len"
  shows "next_frame (frame_of C dek iv c @ rest) e = Inr (iv, c_seal C dek iv c [], rest)"
proof -
  let ?ct = "c_seal C dek iv c []"
  have l: "length ?ct < 2 ^ 32" using assms(2) max_ciphertext_small by linarith
  have f: "frame_of C dek iv c @ rest = (iv @ be32 (length ?ct)) @ ?ct @ rest" using l by (simp add: frame_of_def Let_def)
  have h: "length (iv @ be32 (length ?ct)) = frame_header_len" using assms(1) by (simp add: frame_header_len_def)
  have "un_be (be32 (length ?ct)) = length ?ct" using l by simp
  then show ?thesis
    using assms h unfolding f next_frame_def read_full_def
    by (simp add: Let_def frame_header_len_def)
qed

lemma open_frames_step:
  assumes "aead_correct C" "key_committing C dek keys" "dek \<in> set keys" "length iv = iv_len"
    "length c \<le> max_segment_size"
  shows "open_frames C keys (frame_of C dek iv c @ rest) e
    = (c @ fst (open_frames C keys rest e), snd (open_frames C keys rest e))"
proof -
  have "length (c_seal C dek iv c []) \<le> max_ciphertext_len"
    using assms(1,5) by (simp add: aead_correct_def max_ciphertext_len_def max_aead_overhead_def tag_len_def)
  note n = next_frame_of [OF assms(4) this, of rest e]
  show ?thesis
    by (subst open_frames.simps) (simp add: n open_segment_seal [OF assms(1-3)] split: prod.splits)
qed

lemma open_frames_nil: "open_frames C keys [] None = ([], ErrEOF)"
  by (subst open_frames.simps) (simp add: next_frame_def read_full_def frame_header_len_def Let_def)

text \<open>The frames of a sealed blob, one per segment.\<close>

fun blob_frames :: "cipher \<Rightarrow> iv_source \<Rightarrow> iv_mode \<Rightarrow> bytes \<Rightarrow> string \<Rightarrow> nat \<Rightarrow> bytes list \<Rightarrow> (bytes \<times> bytes) list" where
  "blob_frames C V mode dek kid idx [] = []"
| "blob_frames C V mode dek kid idx (c # cs) =
     (case segment_iv V mode dek kid c idx of
        Inl _ \<Rightarrow> []
      | Inr iv \<Rightarrow> (frame_of C dek iv c, c) # blob_frames C V mode dek kid ((idx + 1) mod 2 ^ 64) cs)"

lemma seal_segments_frames:
  assumes "ivs_ok V"
  shows "seal_segments C V mode dek kid idx cs fin = (concat (map fst (blob_frames C V mode dek kid idx cs)), fin)
    \<and> map snd (blob_frames C V mode dek kid idx cs) = cs"
proof (induction cs arbitrary: idx)
  case (Cons c cs)
  obtain iv where "segment_iv V mode dek kid c idx = Inr iv" using segment_iv_ok [OF assms] by blast
  then show ?case using Cons.IH by simp
qed simp

lemma blob_frames_shape:
  assumes "ivs_ok V" "(f, c) \<in> set (blob_frames C V mode dek kid idx cs)"
  shows "c \<in> set cs \<and> (\<exists>iv. length iv = iv_len \<and> f = frame_of C dek iv c)"
  using assms(2)
proof (induction cs arbitrary: idx)
  case (Cons x xs)
  obtain iv where "segment_iv V mode dek kid x idx = Inr iv" "length iv = iv_len" using segment_iv_ok [OF assms(1)] by blast
  then show ?case using Cons by auto
qed simp

lemma blob_frames_small:
  assumes "ivs_ok V" "0 < seg" "seg \<le> max_segment_size"
  shows "\<forall>(f, c) \<in> set (blob_frames C V mode dek kid idx (chunks seg plain)).
    length c \<le> max_segment_size \<and> (\<exists>iv. length iv = iv_len \<and> f = frame_of C dek iv c)"
proof (intro ballI, clarify)
  fix f c
  assume "(f, c) \<in> set (blob_frames C V mode dek kid idx (chunks seg plain))"
  then have "c \<in> set (chunks seg plain)" "\<exists>iv. length iv = iv_len \<and> f = frame_of C dek iv c"
    using blob_frames_shape [OF assms(1)] by metis+
  moreover then have "length c \<le> max_segment_size"
    using chunks_bounds [of seg c plain] assms(2,3) by simp
  ultimately show "length c \<le> max_segment_size \<and> (\<exists>iv. length iv = iv_len \<and> f = frame_of C dek iv c)" by blast
qed

text \<open>Any sequence of frames sealed under a candidate key opens, whatever their order or number.\<close>

lemma open_frames_any:
  assumes "aead_correct C" "key_committing C dek keys" "dek \<in> set keys"
    "\<forall>(f, c) \<in> set fs. length c \<le> max_segment_size \<and> (\<exists>iv. length iv = iv_len \<and> f = frame_of C dek iv c)"
  shows "open_frames C keys (concat (map fst fs)) None = (concat (map snd fs), ErrEOF)"
  using assms(4)
proof (induction fs)
  case Nil
  then show ?case by (simp add: open_frames_nil)
next
  case (Cons fc fs)
  obtain f c where fc: "fc = (f, c)" by fastforce
  then obtain iv where iv: "length c \<le> max_segment_size" "length iv = iv_len" "f = frame_of C dek iv c" using Cons.prems by auto
  then show ?case
    using open_frames_step [OF assms(1-3) iv(2,1)] Cons by (simp add: fc)
qed

subsection \<open>The header\<close>

lemma iv_mode_of_byte [simp]: "iv_mode_of (iv_mode_byte m) = Some m"
  by (cases m) (simp_all add: iv_mode_of_def iv_mode_byte_def)

lemma decode_encode_header:
  assumes "encode_header h = Inr b" "sh_segment_size h \<le> max_segment_size"
  shows "decode_fixed_header (take fixed_header_len b) = Inr (sh_mode h, sh_segment_size h, length (sh_key_id h))"
    "length b = fixed_header_len + length (sh_key_id h)"
proof -
  have k: "length (sh_key_id h) \<le> 255" and b: "b = seg_magic @ [seg_version, iv_mode_byte (sh_mode h)] @ be32 (sh_segment_size h)
             @ be16 (length (sh_key_id h)) @ sh_key_id h"
    using assms(1) by (auto simp: encode_header_def max_seg_key_id_len_def split: if_splits)
  have s: "sh_segment_size h < 2 ^ 32" using assms(2) by (simp add: max_segment_size_def)
  let ?p = "seg_magic @ [seg_version, iv_mode_byte (sh_mode h)]"
  have l: "length ?p = 6" by (simp add: seg_magic_def)
  have t: "take fixed_header_len b = ?p @ be32 (sh_segment_size h) @ be16 (length (sh_key_id h))"
    unfolding b by (simp add: fixed_header_len_def seg_magic_def)
  have "take 4 (drop 6 (take fixed_header_len b)) = be32 (sh_segment_size h)"
    "take 2 (drop 10 (take fixed_header_len b)) = be16 (length (sh_key_id h))"
    unfolding t using l by (simp_all add: seg_magic_def)
  moreover have "take 4 (take fixed_header_len b) = seg_magic" "take fixed_header_len b ! 4 = seg_version"
    "take fixed_header_len b ! 5 = iv_mode_byte (sh_mode h)" "length (take fixed_header_len b) = fixed_header_len"
    unfolding t by (simp_all add: seg_magic_def fixed_header_len_def nth_append)
  ultimately show "decode_fixed_header (take fixed_header_len b) = Inr (sh_mode h, sh_segment_size h, length (sh_key_id h))"
    using assms(2) s k by (simp add: decode_fixed_header_def Let_def)
  show "length b = fixed_header_len + length (sh_key_id h)"
    unfolding b by (simp add: fixed_header_len_def seg_magic_def)
qed

lemma read_blob_header_ok:
  assumes "encode_header h = Inr hdr" "sh_segment_size h \<le> max_segment_size" "fr_src st = (hdr @ b, e)"
  shows "read_blob_header st = (Inr (), st \<lparr> fr_src := (b, e) \<rparr>)"
proof -
  note d = decode_encode_header [OF assms(1,2)]
  have t: "take fixed_header_len (hdr @ b) = take fixed_header_len hdr" using d(2) by simp
  show ?thesis
    using assms(3) d t by (simp add: read_blob_header_def read_full_def)
qed

lemma seal_init:
  assumes "seal src p = Inr st"
  obtains hdr seg where "encode_header \<lparr> sh_mode = sp_mode p, sh_segment_size = seg, sh_key_id = sp_key_id p \<rparr> = Inr hdr"
    "0 < seg" "seg \<le> max_segment_size" "seg = (if sp_segment_size p \<le> 0 then default_segment_size else nat (sp_segment_size p))"
    "st = \<lparr> fr_src = src, fr_pending = hdr, fr_done = False, fr_err = None, sr_mode = sp_mode p, sr_dek = sp_dek p,
       sr_key_id = sp_key_id p, sr_seg_size = seg, sr_index = 0, sr_written = 0 \<rparr>"
  using assms by (auto simp: seal_def Let_def default_segment_size_def split: if_splits sum.splits)

text \<open>The stream of a sealing reader over a cleanly ending plaintext: header and frames.\<close>

lemma sealed_total:
  assumes "seal (plain, e) p = Inr st" "ivs_ok V" "eof_like e"
  obtains hdr seg where "encode_header \<lparr> sh_mode = sp_mode p, sh_segment_size = seg, sh_key_id = sp_key_id p \<rparr> = Inr hdr"
    "0 < seg" "seg \<le> max_segment_size" "seal_good st" "fr_err st = None"
    "seg = (if sp_segment_size p \<le> 0 then default_segment_size else nat (sp_segment_size p))"
    "sealing.total C V st = (hdr @ concat (map fst (blob_frames C V (sp_mode p) (sp_dek p) (sp_key_id p) 0 (chunks seg plain))), ErrEOF)"
proof -
  obtain hdr seg where h: "encode_header \<lparr> sh_mode = sp_mode p, sh_segment_size = seg, sh_key_id = sp_key_id p \<rparr> = Inr hdr"
    "0 < seg" "seg \<le> max_segment_size" "seg = (if sp_segment_size p \<le> 0 then default_segment_size else nat (sp_segment_size p))"
    "st = \<lparr> fr_src = (plain, e), fr_pending = hdr, fr_done = False, fr_err = None, sr_mode = sp_mode p, sr_dek = sp_dek p,
       sr_key_id = sp_key_id p, sr_seg_size = seg, sr_index = 0, sr_written = 0 \<rparr>"
    using assms(1) by (rule seal_init)
  show thesis
    by (rule that [OF h(1-3) _ _ h(4)])
       (use h(2,3,5) assms(3) seal_segments_frames [OF assms(2)] in
        \<open>simp_all add: seal_good_def sealing.total_def seal_rest_def Let_def\<close>)
qed

lemma opened_total:
  assumes "encode_header h = Inr hdr" "sh_segment_size h \<le> max_segment_size" "seg_open (hdr @ b, e) keys = Inr st"
  shows "unsealing.total C st = open_frames C keys b e" "fr_err st = None"
  using assms(3) read_blob_header_ok [OF assms(1,2), of st b e]
  by (auto simp: unsealing.total_def seg_open_def open_rest_def split: if_splits)

lemma length_blob_frames:
  assumes "ivs_ok V" "aead_correct C"
  shows "length (concat (map fst (blob_frames C V mode dek kid idx cs))) = length (concat cs) + 32 * length cs"
proof (induction cs arbitrary: idx)
  case (Cons c cs)
  obtain iv where "segment_iv V mode dek kid c idx = Inr iv" "length iv = iv_len" using segment_iv_ok [OF assms(1)] by blast
  then show ?case
    using Cons.IH assms(2) by (simp add: frame_of_def Let_def aead_correct_def tag_len_def iv_len_def)
qed simp

text \<open>C16: the segmented encryption round-trips through both streaming readers.  For every way the consumers
  chop their reads, draining the sealing reader over a plaintext gives one and the same blob, whose size
  is the header plus 32 bytes per segment on top of the plaintext, and draining the opening reader over that
  blob, with the key among the candidates, gives the plaintext and a clean end.\<close>

theorem seal_open_roundtrip:
  assumes "aead_correct C" and "key_committing C (sp_dek p) keys" and "sp_dek p \<in> set keys" and "ivs_ok V"
    and "seal (plain, None) p = Inr s0"
  shows "\<exists>blob seg. 0 < seg \<and>
      length blob = fixed_header_len + length (sp_key_id p) + length plain + 32 * length (chunks seg plain)
    \<and> (\<forall>ns. (\<forall>n \<in> set ns. 0 < n) \<and> length blob < length ns
          \<longrightarrow> drain (seal_read C V) s0 ns = (blob, Some ErrEOF))
    \<and> (\<forall>ms. (\<forall>n \<in> set ms. 0 < n) \<and> length plain < length ms
          \<longrightarrow> (\<exists>r0. seg_open (blob, None) keys = Inr r0 \<and> drain (open_read C) r0 ms = (plain, Some ErrEOF)))"
proof -
  have el: "eof_like None" by (simp add: eof_like_def)
  obtain hdr seg where h: "encode_header \<lparr> sh_mode = sp_mode p, sh_segment_size = seg, sh_key_id = sp_key_id p \<rparr> = Inr hdr"
    "0 < seg" "seg \<le> max_segment_size" "seal_good s0" "fr_err s0 = None"
    "seg = (if sp_segment_size p \<le> 0 then default_segment_size else nat (sp_segment_size p))"
    "sealing.total C V s0 = (hdr @ concat (map fst (blob_frames C V (sp_mode p) (sp_dek p) (sp_key_id p) 0 (chunks seg plain))), ErrEOF)"
    by (rule sealed_total [OF assms(5,4) el])
  let ?fs = "blob_frames C V (sp_mode p) (sp_dek p) (sp_key_id p) 0 (chunks seg plain)"
  let ?blob = "hdr @ concat (map fst ?fs)"
  have l: "length ?blob = fixed_header_len + length (sp_key_id p) + length plain + 32 * length (chunks seg plain)"
    using decode_encode_header(2) [OF h(1)] h(2,3) length_blob_frames [OF assms(4,1)] by (simp add: concat_chunks)
  have "drain (seal_read C V) s0 ns = (?blob, Some ErrEOF)" if "\<forall>n \<in> set ns. 0 < n" "length ?blob < length ns" for ns
    using sealing.drain_all [OF h(4,5) that(1), of C V] that(2) h(7) by (simp add: seal_read_def [abs_def])
  moreover have "\<exists>r0. seg_open (?blob, None) keys = Inr r0 \<and> drain (open_read C) r0 ms = (plain, Some ErrEOF)"
    if "\<forall>n \<in> set ms. 0 < n" "length plain < length ms" for ms
  proof -
    have "keys \<noteq> []" using assms(3) by auto
    then obtain o' where o: "seg_open (?blob, None) keys = Inr o'" by (simp add: seg_open_def)
    have "open_frames C keys (concat (map fst ?fs)) None = (plain, ErrEOF)"
      using open_frames_any [OF assms(1-3) blob_frames_small [OF assms(4) h(2,3)]]
        seal_segments_frames [OF assms(4)] h(2) by (simp add: concat_chunks)
    then have t: "unsealing.total C o' = (plain, ErrEOF)" "fr_err o' = None"
      using opened_total [OF h(1) _ o] h(3) by simp_all
    have "drain (open_read C) o' ms = (plain, Some ErrEOF)"
      using unsealing.drain_all [OF _ t(2) that(1), of C] that(2) t(1) by (simp add: open_read_def [abs_def])
    then show ?thesis using o by blast
  qed
  ultimately show ?thesis using l h(2) by blast
qed

text \<open>C19: frames are not bound to their position or to the blob.  From the frames of a sealed blob, any
  selection in any order, in particular any truncation at a frame boundary, is opened without an error
  to the correspondingly cut and reordered plaintext.\<close>

theorem open_accepts_any_frames:
  assumes "aead_correct C" and "key_committing C (sp_dek p) keys" and "sp_dek p \<in> set keys" and "ivs_ok V"
    and "seal (plain, None) p = Inr s0"
  shows "\<exists>hdr frames.
      concat (map snd frames) = plain
    \<and> (\<forall>ns. (\<forall>n \<in> set ns. 0 < n) \<and> length (hdr @ concat (map fst frames)) < length ns
          \<longrightarrow> drain (seal_read C V) s0 ns = (hdr @ concat (map fst frames), Some ErrEOF))
    \<and> (\<forall>fs ms. set fs \<subseteq> set frames \<and> (\<forall>n \<in> set ms. 0 < n) \<and> length (concat (map snd fs)) < length ms
          \<longrightarrow> (\<exists>r0. seg_open (hdr @ concat (map fst fs), None) keys = Inr r0
                \<and> drain (open_read C) r0 ms = (concat (map snd fs), Some ErrEOF)))"
proof -
  have el: "eof_like None" by (simp add: eof_like_def)
  obtain hdr seg where h: "encode_header \<lparr> sh_mode = sp_mode p, sh_segment_size = seg, sh_key_id = sp_key_id p \<rparr> = Inr hdr"
    "0 < seg" "seg \<le> max_segment_size" "seal_good s0" "fr_err s0 = None"
    "seg = (if sp_segment_size p \<le> 0 then default_segment_size else nat (sp_segment_size p))"
    "sealing.total C V s0 = (hdr @ concat (map fst (blob_frames C V (sp_mode p) (sp_dek p) (sp_key_id p) 0 (chunks seg plain))), ErrEOF)"
    by (rule sealed_total [OF assms(5,4) el])
  let ?fs = "blob_frames C V (sp_mode p) (sp_dek p) (sp_key_id p) 0 (chunks seg plain)"
  note shape = blob_frames_small [OF assms(4) h(2,3), of C "sp_mode p" "sp_dek p" "sp_key_id p" 0 plain]
  have "drain (seal_read C V) s0 ns = (hdr @ concat (map fst ?fs), Some ErrEOF)"
    if "\<forall>n \<in> set ns. 0 < n" "length (hdr @ concat (map fst ?fs)) < length ns" for ns
    using sealing.drain_all [OF h(4,5) that(1), of C V] that(2) h(7) by (simp add: seal_read_def [abs_def])
  moreover have "\<exists>r0. seg_open (hdr @ concat (map fst fs), None) keys = Inr r0
        \<and> drain (open_read C) r0 ms = (concat (map snd fs), Some ErrEOF)"
    if "set fs \<subseteq> set ?fs" "\<forall>n \<in> set ms. 0 < n" "length (concat (map snd fs)) < length ms" for fs ms
  proof -
    have "keys \<noteq> []" using assms(3) by auto
    then obtain r0 where o: "seg_open (hdr @ concat (map fst fs), None) keys = Inr r0" by (simp add: seg_open_def)
    have "open_frames C keys (concat (map fst fs)) None = (concat (map snd fs), ErrEOF)"
      using open_frames_any [OF assms(1-3), of fs] shape that(1) by blast
    then have t: "unsealing.total C r0 = (concat (map snd fs), ErrEOF)" "fr_err r0 = None"
      using opened_total [OF h(1) _ o] h(3) by simp_all
    have "drain (open_read C) r0 ms = (concat (map snd fs), Some ErrEOF)"
      using unsealing.drain_all [OF _ t(2) that(2), of C] that(3) t(1) by (simp add: open_read_def [abs_def])
    then show ?thesis using o by blast
  qed
  moreover have "concat (map snd ?fs) = plain"
    using seal_segments_frames [OF assms(4)] h(2) by (simp add: concat_chunks)
  ultimately show ?thesis by blast
qed

text \<open>C21: a source that reports a cut stream with \<^verbatim>\<open>io.ErrUnexpectedEOF\<close> is sealed as if it had ended normally:
  the blob is that of the part that arrived, and the reader ends with a clean \<^verbatim>\<open>io.EOF\<close>.\<close>

theorem seal_swallows_cut:
  assumes "ivs_ok V" and "seal (part, Some ErrUnexpectedEOF) p = Inr s1" and "seal (part, None) p = Inr s2"
  shows "\<exists>blob. \<forall>ns. (\<forall>n \<in> set ns. 0 < n) \<and> length blob < length ns \<longrightarrow>
      drain (seal_read C V) s1 ns = (blob, Some ErrEOF) \<and> drain (seal_read C V) s2 ns = (blob, Some ErrEOF)"
proof -
  have el: "eof_like (Some ErrUnexpectedEOF)" "eof_like None" by (simp_all add: eof_like_def)
  obtain hdr seg where h: "encode_header \<lparr> sh_mode = sp_mode p, sh_segment_size = seg, sh_key_id = sp_key_id p \<rparr> = Inr hdr"
    "0 < seg" "seg \<le> max_segment_size" "seal_good s1" "fr_err s1 = None"
    "seg = (if sp_segment_size p \<le> 0 then default_segment_size else nat (sp_segment_size p))"
    "sealing.total C V s1 = (hdr @ concat (map fst (blob_frames C V (sp_mode p) (sp_dek p) (sp_key_id p) 0 (chunks seg part))), ErrEOF)"
    by (rule sealed_total [OF assms(2,1) el(1)])
  obtain hdr' seg' where h': "encode_header \<lparr> sh_mode = sp_mode p, sh_segment_size = seg', sh_key_id = sp_key_id p \<rparr> = Inr hdr'"
    "0 < seg'" "seg' \<le> max_segment_size" "seal_good s2" "fr_err s2 = None"
    "seg' = (if sp_segment_size p \<le> 0 then default_segment_size else nat (sp_segment_size p))"
    "sealing.total C V s2 = (hdr' @ concat (map fst (blob_frames C V (sp_mode p) (sp_dek p) (sp_key_id p) 0 (chunks seg' part))), ErrEOF)"
    by (rule sealed_total [OF assms(3,1) el(2)])
  have "seg' = seg" by (rule trans [OF h'(6) sym [OF h(6)]])
  then have "hdr' = hdr" using h(1) h'(1) by simp
  with \<open>seg' = seg\<close> have t: "sealing.total C V s2 = sealing.total C V s1" unfolding h(7) h'(7) by simp
  have "drain (seal_read C V) s ns = (fst (sealing.total C V s1), Some ErrEOF)"
    if "s = s1 \<or> s = s2" "\<forall>n \<in> set ns. 0 < n" "length (fst (sealing.total C V s1)) < length ns" for s ns
    using that(1) sealing.drain_all [OF h(4,5) that(2), of C V] sealing.drain_all [OF h'(4,5) that(2), of C V] that(3) t h(7)
    by (auto simp: seal_read_def [abs_def])
  then show ?thesis by blast
qed

subsection \<open>Memory\<close>

fun run_reads :: "('s \<Rightarrow> nat \<Rightarrow> (bytes \<times> err option) \<times> 's) \<Rightarrow> 's \<Rightarrow> nat list \<Rightarrow> 's" where
  "run_reads rd st [] = st"
| "run_reads rd st (n # ns) = run_reads rd (snd (rd st n)) ns"

lemma fill_loop_keeps:
  assumes "\<And>st. P st \<Longrightarrow> fr_pending st = [] \<Longrightarrow> P (snd (fill st))" "\<And>st e. P st \<Longrightarrow> P (st \<lparr> fr_err := e \<rparr>)" "P st"
  shows "P (snd (fill_loop fill k st))"
  using assms(3)
proof (induction k arbitrary: st)
  case 0
  then show ?case by (subst fill_loop.simps) (simp split: option.splits)
next
  case (Suc k)
  obtain r st' where f: "fill st = (r, st')" by fastforce
  have "fr_pending st = [] \<Longrightarrow> P st'" using assms(1) [OF Suc.prems] f by simp
  then show ?case
    using Suc f assms(2) by (subst fill_loop.simps) (auto split: option.splits sum.splits)
qed

lemma frame_read_keeps:
  assumes "\<And>st. P st \<Longrightarrow> fr_pending st = [] \<Longrightarrow> P (snd (fill st))" "\<And>st e. P st \<Longrightarrow> P (st \<lparr> fr_err := e \<rparr>)"
    "\<And>st k. P st \<Longrightarrow> P (note_out k st)" "\<And>st n. P st \<Longrightarrow> P (st \<lparr> fr_pending := drop n (fr_pending st) \<rparr>)" "P st"
  shows "P (snd (frame_read fill note_out st n))"
  using fill_loop_keeps [of P fill st, OF assms(1,2,5)] assms(3,4)
  by (auto simp: frame_read_def Let_def split: prod.splits option.splits) (metis snd_conv)+

lemma run_reads_keeps:
  assumes "\<And>st n. P st \<Longrightarrow> P (snd (rd st n))" "P st"
  shows "P (run_reads rd st ns)"
  using assms(2) by (induction ns arbitrary: st) (simp_all add: assms(1))

lemma next_frame_ct: "next_frame b e = Inr (iv, ct, b2) \<Longrightarrow> length ct \<le> max_ciphertext_len"
  by (auto simp: next_frame_def read_full_def Let_def split: if_splits)

definition no_expansion :: "cipher \<Rightarrow> bool" where
  "no_expansion C = (\<forall>k n c a p. c_open C k n c a = Some p \<longrightarrow> length p \<le> length c)"

lemma open_segment_len: "no_expansion C \<Longrightarrow> open_segment C keys iv ct = Inr p \<Longrightarrow> length p \<le> length ct"
  by (induction keys) (auto simp: no_expansion_def split: option.splits)

lemma open_fill_small:
  assumes "no_expansion C" "fr_pending st = []"
  shows "length (fr_pending (snd (open_fill C st))) \<le> max_ciphertext_len"
proof (cases "or_header_done st")
  case True
  obtain b e where src: "fr_src st = (b, e)" by fastforce
  have f: "open_fill C st = read_segment C st" using True by (simp add: open_fill_def)
  show ?thesis
  proof (cases "next_frame b e")
    case (Inl x)
    then show ?thesis using read_segment_conv [OF src, of C] assms(2) f by (cases x) auto
  next
    case (Inr t)
    obtain iv ct b2 where t: "t = (iv, ct, b2)" by (cases t)
    show ?thesis
      using read_segment_conv [OF src, of C] assms(2) f Inr t next_frame_ct [of b e iv ct b2]
        open_segment_len [OF assms(1), of "or_keys st" iv ct]
      by (cases "open_segment C (or_keys st) iv ct") fastforce+
  qed
next
  case False
  obtain r st' where h: "read_blob_header st = (r, st')" by fastforce
  then obtain s where "st' = st \<lparr> fr_src := s \<rparr>" by (auto elim: read_blob_header_cases)
  then show ?thesis using h False assms(2) by (simp add: open_fill_def split: sum.splits)
qed

lemma seal_segment_small:
  assumes "ivs_ok V" "aead_correct C" "fr_pending st = []"
  shows "length (fr_pending (snd (seal_segment C V st plain))) \<le> length plain + 32"
proof -
  obtain iv where "segment_iv V (sr_mode st) (sr_dek st) (sr_key_id st) plain (sr_index st) = Inr iv" "length iv = iv_len"
    using segment_iv_ok [OF assms(1)] by blast
  then show ?thesis
    using assms(2,3) by (simp add: seal_segment_def frame_of_def Let_def aead_correct_def tag_len_def iv_len_def)
qed

lemma seal_segment_size [simp]: "sr_seg_size (snd (seal_segment C V st plain)) = sr_seg_size st"
  by (simp add: seal_segment_def split: sum.splits)

lemma seal_fill_small:
  assumes "ivs_ok V" "aead_correct C" "fr_pending st = []"
  shows "length (fr_pending (snd (seal_fill C V st))) \<le> sr_seg_size st + 32
    \<and> sr_seg_size (snd (seal_fill C V st)) = sr_seg_size st"
proof -
  obtain b e src where r: "read_full (sr_seg_size st) (fr_src st) = ((b, e), src)" by (metis prod.exhaust)
  have l: "length b \<le> sr_seg_size st" using r by (auto simp: read_full_def Let_def split: prod.splits if_splits)
  have "length (fr_pending (snd (seal_segment C V (st \<lparr> fr_src := src \<rparr>) b))) \<le> length b + 32"
    "length (fr_pending (snd (seal_segment C V (st \<lparr> fr_src := src, fr_done := True \<rparr>) b))) \<le> length b + 32"
    by (rule seal_segment_small [OF assms(1,2)]; use assms(3) in simp)+
  then show ?thesis
    using r l assms(3) by (auto simp: seal_fill_def Let_def split: option.splits)
qed

text \<open>C20: both readers run in bounded memory.  However a consumer reads, the opening reader never buffers more than
  the maximal ciphertext length, whatever the bytes of the blob claim, and the sealing reader never more
  than one frame of its segment size (or the header).\<close>

theorem seg_memory_bound:
  assumes "aead_correct C" and "no_expansion C" and "ivs_ok V"
    and "seg_open src keys = Inr r0" and "seal plain p = Inr s0"
  shows "length (fr_pending (run_reads (open_read C) r0 ns)) \<le> max_ciphertext_len
    \<and> length (fr_pending (run_reads (seal_read C V) s0 ns)) \<le> max (fixed_header_len + 255) (sr_seg_size s0 + 32)"
proof -
  let ?P = "\<lambda>st :: open_reader. length (fr_pending st) \<le> max_ciphertext_len"
  let ?Q = "\<lambda>st. length (fr_pending st) \<le> max (fixed_header_len + 255) (sr_seg_size s0 + 32) \<and> sr_seg_size st = sr_seg_size s0"
  have "?P r0" using assms(4) by (auto simp: seg_open_def split: if_splits)
  moreover have "?P (snd (open_read C st n))" if "?P st" for st n
    unfolding open_read_def
    by (rule frame_read_keeps [where P = ?P]) (use that open_fill_small [OF assms(2)] in simp_all)
  ultimately have o: "?P (run_reads (open_read C) r0 ns)" by (rule run_reads_keeps [where P = ?P, rotated])
  obtain hdr seg where h: "encode_header \<lparr> sh_mode = sp_mode p, sh_segment_size = seg, sh_key_id = sp_key_id p \<rparr> = Inr hdr"
    "seg \<le> max_segment_size" "fr_pending s0 = hdr"
    by (rule seal_init [OF assms(5)]) simp
  have "length (sp_key_id p) \<le> 255"
    using h(1) by (auto simp: encode_header_def max_seg_key_id_len_def split: if_splits)
  then have "?Q s0" using decode_encode_header(2) [OF h(1)] h(2,3) by simp
  moreover have "?Q (snd (seal_fill C V st))" if "?Q st" "fr_pending st = []" for st
    using seal_fill_small [OF assms(3,1) that(2)] that(1) by auto
  then have "?Q (snd (seal_read C V st n))" if "?Q st" for st n
    unfolding seal_read_def by (intro frame_read_keeps [where P = ?Q]) (use that in auto)
  ultimately have "?Q (run_reads (seal_read C V) s0 ns)" by (rule run_reads_keeps [where P = ?Q, rotated])
  then show ?thesis using o by blast
qed

subsection \<open>Concrete instances\<close>

definition sample_ivs :: iv_source where
  "sample_ivs = \<lparr> iv_random = (\<lambda>_. Some (replicate 12 CHR ''i'')), iv_hmac = (\<lambda>_ _. replicate 32 CHR ''m''),
     iv_sha256 = (\<lambda>_. replicate 32 CHR ''s'') \<rparr>"

definition sample_seal :: seal_params where
  "sample_seal = \<lparr> sp_mode = IVModeConvergent, sp_dek = sample_dek, sp_key_id = ''k1'', sp_segment_size = 4 \<rparr>"

lemma sample_ivs_ok: "ivs_ok sample_ivs"
  by (simp add: ivs_ok_def sample_ivs_def iv_len_def)

lemma sample_committing: "key_committing const_tag_cipher sample_dek [sample_dek]"
  by (simp add: key_committing_def)

lemma sample_sealed: "\<exists>s0. seal (b, e) sample_seal = Inr s0"
  by (simp add: seal_def sample_seal_def sample_dek_def encode_header_def max_seg_key_id_len_def max_segment_size_def Let_def)

lemma sample_seal_dek [simp]: "sp_dek sample_seal = sample_dek" "sp_key_id sample_seal = ''k1''"
  by (simp_all add: sample_seal_def)

theorem seal_open_roundtrip_witness:
  "\<exists>s0 blob r0. seal (''plaintext'', None) sample_seal = Inr s0
    \<and> drain (seal_read const_tag_cipher sample_ivs) s0 (replicate (length blob + 1) 7) = (blob, Some ErrEOF)
    \<and> seg_open (blob, None) [sample_dek] = Inr r0
    \<and> drain (open_read const_tag_cipher) r0 (replicate 10 3) = (''plaintext'', Some ErrEOF)"
proof -
  obtain s0 where s: "seal (''plaintext'', None) sample_seal = Inr s0" using sample_sealed by blast
  obtain blob where b: "\<forall>ns. (\<forall>n \<in> set ns. 0 < n) \<and> length blob < length ns
          \<longrightarrow> drain (seal_read const_tag_cipher sample_ivs) s0 ns = (blob, Some ErrEOF)"
    "\<forall>ms. (\<forall>n \<in> set ms. 0 < n) \<and> length ''plaintext'' < length ms
          \<longrightarrow> (\<exists>r0. seg_open (blob, None) [sample_dek] = Inr r0
                \<and> drain (open_read const_tag_cipher) r0 ms = (''plaintext'', Some ErrEOF))"
    using seal_open_roundtrip [OF const_tag_correct _ _ sample_ivs_ok s, of "[sample_dek]"] sample_committing by auto
  have "drain (seal_read const_tag_cipher sample_ivs) s0 (replicate (length blob + 1) 7) = (blob, Some ErrEOF)"
    using b(1) [rule_format, of "replicate (length blob + 1) 7"] by simp
  moreover obtain r0 where "seg_open (blob, None) [sample_dek] = Inr r0"
      "drain (open_read const_tag_cipher) r0 (replicate 10 3) = (''plaintext'', Some ErrEOF)"
    using b(2) [rule_format, of "replicate 10 3"] by auto
  ultimately show ?thesis using s by blast
qed

theorem open_accepts_any_frames_witness:
  "\<exists>hdr frames r0. concat (map snd frames) = ''plaintext''
    \<and> seg_open (hdr @ concat (map fst (take 1 frames)), None) [sample_dek] = Inr r0
    \<and> drain (open_read const_tag_cipher) r0 (replicate 100 5) = (concat (map snd (take 1 frames)), Some ErrEOF)"
proof -
  obtain s0 where s: "seal (''plaintext'', None) sample_seal = Inr s0" using sample_sealed by blast
  obtain hdr frames where f: "concat (map snd frames) = ''plaintext''"
    "\<forall>fs ms. set fs \<subseteq> set frames \<and> (\<forall>n \<in> set ms. 0 < n) \<and> length (concat (map snd fs)) < length ms
          \<longrightarrow> (\<exists>r0. seg_open (hdr @ concat (map fst fs), None) [sample_dek] = Inr r0
                \<and> drain (open_read const_tag_cipher) r0 ms = (concat (map snd fs), Some ErrEOF))"
    using open_accepts_any_frames [OF const_tag_correct _ _ sample_ivs_ok s, of "[sample_dek]"] sample_committing by auto
  have "concat (map snd frames) = concat (map snd (take 1 frames)) @ concat (map snd (drop 1 frames))"
    by (metis append_take_drop_id concat_append map_append)
  then have "length (concat (map snd (take 1 frames))) \<le> length ''plaintext''" using f(1) by (metis le_add1 length_append)
  then have "length (concat (map snd (take 1 frames))) < length (replicate 100 (5 :: nat))" by simp
  moreover have "set (take 1 frames) \<subseteq> set frames" by (rule set_take_subset)
  ultimately obtain r0 where "seg_open (hdr @ concat (map fst (take 1 frames)), None) [sample_dek] = Inr r0"
      "drain (open_read const_tag_cipher) r0 (replicate 100 5) = (concat (map snd (take 1 frames)), Some ErrEOF)"
    using f(2) [rule_format, of "take 1 frames" "replicate 100 5"] by auto
  then show ?thesis using f(1) by blast
qed

theorem seal_swallows_cut_witness:
  "\<exists>s1 blob. seal (''plain'', Some ErrUnexpectedEOF) sample_seal = Inr s1
    \<and> drain (seal_read const_tag_cipher sample_ivs) s1 (replicate (length blob + 1) 7) = (blob, Some ErrEOF)"
proof -
  obtain s1 s2 where s: "seal (''plain'', Some ErrUnexpectedEOF) sample_seal = Inr s1"
      "seal (''plain'', None) sample_seal = Inr s2" using sample_sealed by metis
  obtain blob where b: "\<forall>ns. (\<forall>n \<in> set ns. 0 < n) \<and> length blob < length ns \<longrightarrow>
      drain (seal_read const_tag_cipher sample_ivs) s1 ns = (blob, Some ErrEOF)
      \<and> drain (seal_read const_tag_cipher sample_ivs) s2 ns = (blob, Some ErrEOF)"
    using seal_swallows_cut [OF sample_ivs_ok s] by blast
  have "drain (seal_read const_tag_cipher sample_ivs) s1 (replicate (length blob + 1) 7) = (blob, Some ErrEOF)"
    using b [rule_format, of "replicate (length blob + 1) 7"] by simp
  then show ?thesis using s(1) by blast
qed

theorem seg_memory_bound_witness:
  "\<exists>r0 s0. seg_open (''not a blob'', None) [sample_dek] = Inr r0 \<and> seal (''plain'', None) sample_seal = Inr s0
    \<and> length (fr_pending (run_reads (open_read const_tag_cipher) r0 [3, 4])) \<le> max_ciphertext_len"
proof -
  obtain s0 where s: "seal (''plain'', None) sample_seal = Inr s0" using sample_sealed by blast
  obtain r0 where r: "seg_open (''not a blob'', None) [sample_dek] = Inr r0" by (simp add: seg_open_def)
  have n: "no_expansion const_tag_cipher" by (auto simp: no_expansion_def const_tag_cipher_def split: if_splits)
  show ?thesis using seg_memory_bound [OF const_tag_correct n sample_ivs_ok r s, of "[3, 4]"] r s by blast
qed

end
