(* ===== verification/Index_Spec.thy ===== *)
theory Index_Spec
  imports Domain
begin

text \<open>
  The store index interface (\<^verbatim>\<open>engine/index/storeindex.go\<close>) as its clients see it: a record of operations over
  an abstract index state, an abstract content (one row per manifest digest, one row per blob
  reference), and two locales with the laws the clients rely on.  \<open>index_laws\<close> holds whatever the
  database does: an operation either takes effect or leaves the content alone.  \<open>reliable_index\<close> adds that
  operations succeed while the database is available and no custom index vetoes.
\<close>

record 'i store_index =
  si_index_manifest :: "manifest \<Rightarrow> physical_address \<Rightarrow> time \<Rightarrow> 'i \<Rightarrow> unit res \<times> 'i"
  si_delete_manifest :: "string \<Rightarrow> 'i \<Rightarrow> unit res \<times> 'i"
  si_resolve :: "string \<Rightarrow> 'i \<Rightarrow> physical_address res"
  si_resolve_manifest_digest :: "string \<Rightarrow> 'i \<Rightarrow> string option res"
  si_manifest_exists_by_digest :: "string \<Rightarrow> 'i \<Rightarrow> bool res"
  si_exists_by_content :: "string \<Rightarrow> int \<Rightarrow> string \<Rightarrow> 'i \<Rightarrow> string option res"
  si_get_ref_count :: "string \<Rightarrow> 'i \<Rightarrow> int res"
  si_iterate_manifests :: "'i \<Rightarrow> manifest list res"
  si_list_orphan_blobs :: "'i \<Rightarrow> string list res"
  si_delete_orphan_blob :: "string \<Rightarrow> 'i \<Rightarrow> bool res \<times> 'i"
  si_list_unverified_blobs :: "time \<Rightarrow> 'i \<Rightarrow> string list res"
  si_manifests_by_blob_ref :: "string \<Rightarrow> 'i \<Rightarrow> manifest list res"
  si_list_unverified_manifests :: "time \<Rightarrow> 'i \<Rightarrow> manifest list res"
  si_get_by_session :: "string \<Rightarrow> 'i \<Rightarrow> string list res"
  si_mark_verified :: "string \<Rightarrow> time \<Rightarrow> 'i \<Rightarrow> unit res \<times> 'i"
  si_mark_manifest_verified :: "string \<Rightarrow> time \<Rightarrow> 'i \<Rightarrow> unit res \<times> 'i"

text \<open>A digest or reference in the form the engine produces: non-empty lower-case hexadecimal.\<close>

definition is_hex_ref :: "string \<Rightarrow> bool" where
  "is_hex_ref k = (k \<noteq> [] \<and> (case hex_decode k of None \<Rightarrow> False | Some raw \<Rightarrow> hex_encode raw = k))"

lemma is_hex_ref_encode [simp]: "is_hex_ref (hex_encode raw) \<longleftrightarrow> raw \<noteq> []"
  by (cases raw) (auto simp: is_hex_ref_def hex_byte_def Let_def)

lemma is_hex_refE:
  assumes "is_hex_ref k"
  obtains raw where "k = hex_encode raw" "raw \<noteq> []" "hex_decode k = Some raw"
proof -
  obtain raw where r: "hex_decode k = Some raw" "hex_encode raw = k" "k \<noteq> []"
    using assms by (auto simp: is_hex_ref_def split: option.splits)
  then have "raw \<noteq> []" by auto
  then show thesis using that r by blast
qed

subsection \<open>Abstract content\<close>

record ix_manifest =
  im_aid :: "string option"
  im_session :: string
  im_refs :: "string list"
  im_order :: nat

record ix_blob =
  ib_path :: path
  ib_content :: string
  ib_size :: int
  ib_crypto :: string
  ib_refs :: int

text \<open>The blobs a manifest refers to: none for an inline manifest.\<close>

definition indexed_refs :: "manifest \<Rightarrow> string list" where
  "indexed_refs m = (if blob_storage m = layout_inline then [] else blob_refs m)"

definition indexable :: "manifest \<Rightarrow> bool" where
  "indexable m = (is_hex_ref (digest m) \<and> list_all is_hex_ref (indexed_refs m)
     \<and> (blob_storage m \<noteq> layout_inline \<longrightarrow> blob_refs m \<noteq> [] \<and> is_hex_ref (content_hash m)))"

definition spec_index_rows :: "manifest \<Rightarrow> nat \<Rightarrow> (string \<rightharpoonup> ix_manifest) \<Rightarrow> (string \<rightharpoonup> ix_manifest)" where
  "spec_index_rows m n v = v(digest m \<mapsto> (case v (digest m) of
      None \<Rightarrow> \<lparr> im_aid = (if artifact_id m = [] then None else Some (artifact_id m)), im_session = session_id m,
               im_refs = indexed_refs m, im_order = n \<rparr>
    | Some r \<Rightarrow> r \<lparr> im_order := n \<rparr>))"

definition spec_index_blobs :: "manifest \<Rightarrow> path \<Rightarrow> (string \<rightharpoonup> ix_blob) \<Rightarrow> (string \<rightharpoonup> ix_blob)" where
  "spec_index_blobs m p v = (\<lambda>k. case v k of
      Some b \<Rightarrow> Some (b \<lparr> ib_refs := ib_refs b + int (count_list (indexed_refs m) k) \<rparr>)
    | None \<Rightarrow> if k \<in> set (indexed_refs m)
        then Some \<lparr> ib_path = p, ib_content = content_hash m, ib_size = original_size m,
                    ib_crypto = crypto_identity_of (pipeline m), ib_refs = int (count_list (indexed_refs m) k) \<rparr>
        else None)"

definition spec_delete_blobs :: "string list \<Rightarrow> (string \<rightharpoonup> ix_blob) \<Rightarrow> (string \<rightharpoonup> ix_blob)" where
  "spec_delete_blobs refs v = (\<lambda>k. map_option (\<lambda>b. b \<lparr> ib_refs := max 0 (ib_refs b - int (count_list refs k)) \<rparr>) (v k))"

locale index_laws =
  fixes I :: "'i store_index"
    and imf :: "'i \<Rightarrow> string \<Rightarrow> ix_manifest option"
    and ibl :: "'i \<Rightarrow> string \<Rightarrow> ix_blob option"
    and iinv :: "'i \<Rightarrow> bool"
  assumes imf_key: "iinv i \<Longrightarrow> imf i d = Some rw \<Longrightarrow> is_hex_ref d"
    and ibl_key: "iinv i \<Longrightarrow> ibl i k = Some b \<Longrightarrow> is_hex_ref k"
    and index_ok: "iinv i \<Longrightarrow> indexable m \<Longrightarrow> (\<And>r. imf i (digest m) = Some r \<Longrightarrow> im_refs r = indexed_refs m) \<Longrightarrow>
      si_index_manifest I m addr now i = (Inr u, i') \<Longrightarrow>
      (\<exists>n. (\<forall>d r. imf i d = Some r \<longrightarrow> im_order r < n) \<and> imf i' = spec_index_rows m n (imf i))
      \<and> ibl i' = spec_index_blobs m (pa_path addr) (ibl i)"
    and index_err: "iinv i \<Longrightarrow> si_index_manifest I m addr now i = (Inl e, i') \<Longrightarrow> imf i' = imf i \<and> ibl i' = ibl i"
    and delete_ok: "iinv i \<Longrightarrow> is_hex_ref d \<Longrightarrow> si_delete_manifest I d i = (Inr u, i') \<Longrightarrow>
      imf i' = (imf i)(d := None)
      \<and> ibl i' = (case imf i d of None \<Rightarrow> ibl i | Some r \<Rightarrow> spec_delete_blobs (im_refs r) (ibl i))"
    and delete_err: "iinv i \<Longrightarrow> si_delete_manifest I d i = (Inl e, i') \<Longrightarrow> imf i' = imf i \<and> ibl i' = ibl i"
    and resolve_ok: "iinv i \<Longrightarrow> is_hex_ref r \<Longrightarrow> si_resolve I r i = Inr ad \<Longrightarrow> \<exists>b. ibl i r = Some b \<and> pa_path ad = ib_path b"
    and resolve_absent: "iinv i \<Longrightarrow> is_hex_ref r \<Longrightarrow> si_resolve I r i = Inl ErrArtifactNotFound \<Longrightarrow> ibl i r = None"
    and lookup_ok: "iinv i \<Longrightarrow> si_resolve_manifest_digest I a i = Inr (Some d) \<Longrightarrow>
      \<exists>r. imf i d = Some r \<and> im_aid r = Some a \<and> (\<forall>d' r'. imf i d' = Some r' \<and> im_aid r' = Some a \<longrightarrow> im_order r' \<le> im_order r)"
    and lookup_absent: "iinv i \<Longrightarrow> si_resolve_manifest_digest I a i = Inr None \<Longrightarrow> imf i d = Some rw \<Longrightarrow> im_aid rw \<noteq> Some a"
    and known_ok: "iinv i \<Longrightarrow> is_hex_ref d \<Longrightarrow> si_manifest_exists_by_digest I d i = Inr x \<Longrightarrow> x = (imf i d \<noteq> None)"
    and content_ok: "iinv i \<Longrightarrow> is_hex_ref h \<Longrightarrow> si_exists_by_content I h sz c i = Inr (Some r) \<Longrightarrow>
      \<exists>b. ibl i r = Some b \<and> ib_content b = h \<and> ib_size b = sz \<and> ib_crypto b = c"
    and content_absent: "iinv i \<Longrightarrow> is_hex_ref h \<Longrightarrow> si_exists_by_content I h sz c i = Inr None \<Longrightarrow> ibl i r = Some b \<Longrightarrow>
      \<not> (ib_content b = h \<and> ib_size b = sz \<and> ib_crypto b = c)"
    and session_ok: "iinv i \<Longrightarrow> si_get_by_session I sid i = Inr ids \<Longrightarrow>
      set ids = {a. \<exists>d r. imf i d = Some r \<and> im_session r = sid \<and> im_aid r = Some a}"
    and orphans_ok: "iinv i \<Longrightarrow> si_list_orphan_blobs I i = Inr rs \<Longrightarrow>
      distinct rs \<and> set rs = {r. \<exists>b. ibl i r = Some b \<and> ib_refs b = 0}"
    and drop_ok: "iinv i \<Longrightarrow> is_hex_ref r \<Longrightarrow> si_delete_orphan_blob I r i = (Inr x, i') \<Longrightarrow>
      imf i' = imf i \<and> x = (\<exists>b. ibl i r = Some b \<and> ib_refs b = 0) \<and> ibl i' = (if x then (ibl i)(r := None) else ibl i)"
    and drop_err: "iinv i \<Longrightarrow> si_delete_orphan_blob I r i = (Inl e, i') \<Longrightarrow> imf i' = imf i \<and> ibl i' = ibl i"
    and iinv_keep: "iinv i \<Longrightarrow> iinv (snd (si_index_manifest I m addr now i))"
      "iinv i \<Longrightarrow> iinv (snd (si_delete_manifest I d i))"
      "iinv i \<Longrightarrow> iinv (snd (si_delete_orphan_blob I r i))"
begin

text \<open>A handle resolves to the manifest it was last indexed under.\<close>

lemma lookup_after_index:
  assumes "iinv i" "indexable m" "artifact_id m \<noteq> []" "imf i (digest m) = None"
    and "si_index_manifest I m addr now i = (Inr u, i')" "si_resolve_manifest_digest I (artifact_id m) i' = Inr x"
  shows "x = Some (digest m)"
proof -
  obtain n where n: "\<forall>d r. imf i d = Some r \<longrightarrow> im_order r < n" "imf i' = spec_index_rows m n (imf i)"
    using index_ok [OF assms(1,2) _ assms(5)] assms(4) by auto
  have i': "iinv i'" using iinv_keep(1) [OF assms(1), of m addr now] assms(5) by simp
  obtain r where r: "imf i' (digest m) = Some r" "im_aid r = Some (artifact_id m)" "im_order r = n"
    using n(2) assms(3,4) by (simp add: spec_index_rows_def)
  show ?thesis
  proof (cases x)
    case None
    then show ?thesis using lookup_absent [OF i' _ r(1), of "artifact_id m"] assms(6) r(2) by simp
  next
    case (Some d)
    obtain r' where r': "imf i' d = Some r'" "im_order r \<le> im_order r'"
      using lookup_ok [OF i'] assms(6) Some r(1,2) by blast
    have "d = digest m"
    proof (rule ccontr)
      assume "d \<noteq> digest m"
      then have "imf i d = Some r'" using r'(1) n(2) by (simp add: spec_index_rows_def)
      then show False using n(1) r'(2) r(3) by (metis leD)
    qed
    then show ?thesis using Some by simp
  qed
qed

end

locale reliable_index = index_laws +
  fixes irel :: "'a \<Rightarrow> bool"
  assumes irel_inv: "irel i \<Longrightarrow> iinv i"
    and irel_index: "irel i \<Longrightarrow> indexable m \<Longrightarrow> fst (si_index_manifest I m addr now i) = Inr ()"
    and irel_delete: "irel i \<Longrightarrow> is_hex_ref d \<Longrightarrow> fst (si_delete_manifest I d i) = Inr ()"
    and irel_resolve: "irel i \<Longrightarrow> is_hex_ref r \<Longrightarrow>
      si_resolve I r i = (case ibl i r of None \<Rightarrow> Inl ErrArtifactNotFound
                          | Some b \<Rightarrow> Inr \<lparr> pa_workspace = [], pa_path = ib_path b, pa_offset = 0, pa_size = 0 \<rparr>)"
    and irel_lookup: "irel i \<Longrightarrow> \<exists>x. si_resolve_manifest_digest I a i = Inr x"
    and irel_known: "irel i \<Longrightarrow> is_hex_ref d \<Longrightarrow> \<exists>x. si_manifest_exists_by_digest I d i = Inr x"
    and irel_content: "irel i \<Longrightarrow> is_hex_ref h \<Longrightarrow> \<exists>x. si_exists_by_content I h sz c i = Inr x"
    and irel_session: "irel i \<Longrightarrow> \<exists>x. si_get_by_session I sid i = Inr x"
    and irel_orphans: "irel i \<Longrightarrow> \<exists>x. si_list_orphan_blobs I i = Inr x"
    and irel_drop: "irel i \<Longrightarrow> is_hex_ref r \<Longrightarrow> \<exists>x. fst (si_delete_orphan_blob I r i) = Inr x"
    and irel_keep: "irel i \<Longrightarrow> irel (snd (si_index_manifest I m addr now i))"
      "irel i \<Longrightarrow> irel (snd (si_delete_manifest I d i))"
      "irel i \<Longrightarrow> irel (snd (si_delete_orphan_blob I r i))"

end
