(* ===== verification/Sqlite_Index.thy ===== *)
theory Sqlite_Index
  imports Manifest_Codec Index_Spec
begin

text \<open>
  The store index on SQLite (\<^verbatim>\<open>engine/index/sqlite\<close>): the tables of \<^verbatim>\<open>schema.go\<close>, registration and deletion of
  manifests (\<^verbatim>\<open>manifest.go\<close>), lookups (\<^verbatim>\<open>resolve.go\<close>), listings (\<^verbatim>\<open>iterate.go\<close>), the change sequence and its
  readers (\<^verbatim>\<open>csn.go\<close>, \<^verbatim>\<open>sync.go\<close>), maintenance and reset.

  A table is an association list from its primary key to the row, in an order the code does not rely
  on; hash-shaped keys are the raw bytes that \<^verbatim>\<open>hexKey\<close> binds.  An operation runs in one transaction: it
  returns the new state, or an error and the old state.  Failures of the database itself, and the verdict
  of the registered custom indexes, which may veto a registration or a deletion, are part of the state
  as arbitrary functions.
\<close>

type_synonym key = bytes

record blob_row =
  br_content_hash :: key
  br_original_size :: int
  br_physical_path :: path
  br_crypto_identity :: string
  br_ref_count :: int
  br_last_verified :: "time option"
  br_created_at :: time

record manifest_row =
  mr_artifact_id :: "string option"
  mr_session_id :: string
  mr_blob_ref :: "key option"
  mr_created_at :: time
  mr_retention_until :: "time option"
  mr_last_verified :: "time option"
  mr_csn :: nat

record index_state =
  ix_blobs :: "(key \<times> blob_row) list"
  ix_manifests :: "(key \<times> manifest_row) list"
  ix_manifest_blobs :: "((key \<times> nat) \<times> key) list"
  ix_manifest_handles :: "((key \<times> nat) \<times> string) list"
  ix_csn :: nat
  ix_prune_csn :: nat
  ix_down :: "string \<Rightarrow> err option"
  ix_veto_index :: "manifest \<Rightarrow> err option"
  ix_veto_delete :: "string \<Rightarrow> key list \<Rightarrow> err option"

subsection \<open>SQL vocabulary\<close>

text \<open>\<^verbatim>\<open>hexKey.Value\<close>: the empty string binds as NULL, anything that is not hexadecimal is an error.\<close>

definition hex_key :: "string \<Rightarrow> key option res" where
  "hex_key k = (if k = [] then Inr None
     else case hex_decode k of None \<Rightarrow> Inl (ErrMsg ''sqlite: key is not hex'') | Some raw \<Rightarrow> Inr (Some raw))"

definition not_null :: "key option res \<Rightarrow> key res" where
  "not_null k = (case k of Inl e \<Rightarrow> Inl e | Inr None \<Rightarrow> Inl (ErrMsg ''NOT NULL constraint failed'') | Inr (Some b) \<Rightarrow> Inr b)"

definition insert_absent :: "'k \<Rightarrow> 'v \<Rightarrow> ('k \<times> 'v) list \<Rightarrow> ('k \<times> 'v) list" where
  "insert_absent k v t = (if map_of t k = None then t @ [(k, v)] else t)"

definition upd_key :: "'k \<Rightarrow> ('v \<Rightarrow> 'v) \<Rightarrow> ('k \<times> 'v) list \<Rightarrow> ('k \<times> 'v) list" where
  "upd_key k f t = map (\<lambda>(k', v). (k', if k' = k then f v else v)) t"

definition upd_where :: "('v \<Rightarrow> bool) \<Rightarrow> ('v \<Rightarrow> 'v) \<Rightarrow> ('k \<times> 'v) list \<Rightarrow> ('k \<times> 'v) list" where
  "upd_where P f t = map (\<lambda>(k, v). (k, if P v then f v else v)) t"

definition opt_time :: "time \<Rightarrow> time option" where
  "opt_time t = (if t = 0 then None else Some (trunc_second t))"

subsection \<open>Registration\<close>

fun register_refs :: "key \<Rightarrow> manifest \<Rightarrow> path \<Rightarrow> time \<Rightarrow> string list \<Rightarrow> (key \<times> blob_row) list \<Rightarrow> (key \<times> blob_row) list res" where
  "register_refs ch m p now [] t = Inr t"
| "register_refs ch m p now (r # rs) t =
     (case not_null (hex_key r) of
        Inl e \<Rightarrow> Inl e
      | Inr k \<Rightarrow>
          register_refs ch m p now rs
            (upd_key k (\<lambda>b. b \<lparr> br_ref_count := br_ref_count b + 1 \<rparr>)
              (insert_absent k \<lparr> br_content_hash = ch, br_original_size = original_size m, br_physical_path = p,
                 br_crypto_identity = crypto_identity_of (pipeline m), br_ref_count = 0, br_last_verified = None,
                 br_created_at = trunc_second now \<rparr> t)))"

definition insert_manifest_row :: "manifest \<Rightarrow> time \<Rightarrow> (key \<times> manifest_row) list \<Rightarrow> (key \<times> manifest_row) list res" where
  "insert_manifest_row m now t =
     (case hex_key (if blob_storage m \<noteq> layout_inline \<and> blob_refs m \<noteq> [] then hd (blob_refs m) else []) of
        Inl e \<Rightarrow> Inl e
      | Inr ref \<Rightarrow>
     (case not_null (hex_key (digest m)) of
        Inl e \<Rightarrow> Inl e
      | Inr k \<Rightarrow> Inr (insert_absent k \<lparr>
          mr_artifact_id = (if artifact_id m = [] then None else Some (artifact_id m)),
          mr_session_id = session_id m, mr_blob_ref = ref,
          mr_created_at = trunc_second (if created_at m = 0 then now else created_at m),
          mr_retention_until = opt_time (retention_until m), mr_last_verified = None, mr_csn = 0 \<rparr> t)))"

fun link_blobs :: "key \<Rightarrow> nat \<Rightarrow> string list \<Rightarrow> ((key \<times> nat) \<times> key) list \<Rightarrow> ((key \<times> nat) \<times> key) list res" where
  "link_blobs dg pos [] t = Inr t"
| "link_blobs dg pos (r # rs) t =
     (case not_null (hex_key r) of
        Inl e \<Rightarrow> Inl e
      | Inr k \<Rightarrow> link_blobs dg (pos + 1) rs (insert_absent (dg, pos) k t))"

fun link_handles :: "key \<Rightarrow> nat \<Rightarrow> string list \<Rightarrow> ((key \<times> nat) \<times> string) list \<Rightarrow> ((key \<times> nat) \<times> string) list" where
  "link_handles dg pos [] t = t"
| "link_handles dg pos (h # hs) t = link_handles dg (pos + 1) hs (insert_absent (dg, pos) h t)"

definition index_blob_manifest :: "manifest \<Rightarrow> physical_address \<Rightarrow> time \<Rightarrow> index_state \<Rightarrow> index_state res" where
  "index_blob_manifest m addr now s =
     (if blob_storage m = layout_inline then
        (case insert_manifest_row m now (ix_manifests s) of
           Inl e \<Rightarrow> Inl e
         | Inr ms \<Rightarrow> Inr (s \<lparr> ix_manifests := ms \<rparr>))
      else if blob_refs m = [] then Inl (ErrMsg ''sqlite: manifest has no BlobRefs'')
      else case not_null (hex_key (content_hash m)) of
        Inl e \<Rightarrow> Inl e
      | Inr ch \<Rightarrow>
     (case register_refs ch m (pa_path addr) now (blob_refs m) (ix_blobs s) of
        Inl e \<Rightarrow> Inl e
      | Inr bs \<Rightarrow>
     (case insert_manifest_row m now (ix_manifests s) of
        Inl e \<Rightarrow> Inl e
      | Inr ms \<Rightarrow>
     (case not_null (hex_key (digest m)) of
        Inl e \<Rightarrow> Inl e
      | Inr dg \<Rightarrow>
     (case link_blobs dg 0 (blob_refs m) (ix_manifest_blobs s) of
        Inl e \<Rightarrow> Inl e
      | Inr mbs \<Rightarrow> Inr (s \<lparr> ix_blobs := bs, ix_manifests := ms, ix_manifest_blobs := mbs \<rparr>))))))"

definition next_csn :: "index_state \<Rightarrow> index_state" where
  "next_csn s = s \<lparr> ix_csn := ix_csn s + 1 \<rparr>"

definition index_manifest_tx :: "manifest \<Rightarrow> physical_address \<Rightarrow> time \<Rightarrow> index_state \<Rightarrow> index_state res" where
  "index_manifest_tx m addr now s =
     (case index_blob_manifest m addr now s of
        Inl e \<Rightarrow> Inl e
      | Inr s1 \<Rightarrow>
     (case not_null (hex_key (digest m)) of
        Inl e \<Rightarrow> Inl e
      | Inr dg \<Rightarrow>
          let s2 = s1 \<lparr> ix_manifest_handles := link_handles dg 0 (handle_refs m) (ix_manifest_handles s1) \<rparr> in
          (case (if is_container m then None else ix_veto_index s2 m) of
             Some e \<Rightarrow> Inl e
           | None \<Rightarrow>
               let s3 = next_csn s2 in
               Inr (s3 \<lparr> ix_manifests := upd_key dg (\<lambda>r. r \<lparr> mr_csn := ix_csn s3 \<rparr>) (ix_manifests s3) \<rparr>))))"

text \<open>\<^verbatim>\<open>observe\<close> and \<^verbatim>\<open>inTx\<close>: a failing transaction is rolled back.\<close>

definition in_tx :: "string \<Rightarrow> (index_state \<Rightarrow> index_state res) \<Rightarrow> index_state \<Rightarrow> unit res \<times> index_state" where
  "in_tx op f s = (case ix_down s op of
      Some e \<Rightarrow> (Inl e, s)
    | None \<Rightarrow> (case f s of Inl e \<Rightarrow> (Inl e, s) | Inr s' \<Rightarrow> (Inr (), s')))"

definition index_manifest :: "manifest \<Rightarrow> physical_address \<Rightarrow> time \<Rightarrow> index_state \<Rightarrow> unit res \<times> index_state" where
  "index_manifest m addr now s = in_tx ''IndexManifest'' (index_manifest_tx m addr now) s"

subsection \<open>Deletion\<close>

definition edges_of :: "key \<Rightarrow> index_state \<Rightarrow> key list" where
  "edges_of dg s = map snd (filter (\<lambda>e. fst (fst e) = dg) (ix_manifest_blobs s))"

definition dec_ref :: "key \<Rightarrow> (key \<times> blob_row) list \<Rightarrow> (key \<times> blob_row) list" where
  "dec_ref k t = upd_key k (\<lambda>b. if br_ref_count b > 0 then b \<lparr> br_ref_count := br_ref_count b - 1 \<rparr> else b) t"

definition delete_manifest_tx :: "string \<Rightarrow> index_state \<Rightarrow> index_state res" where
  "delete_manifest_tx dig s =
     (case hex_key dig of
        Inl e \<Rightarrow> Inl e
      | Inr None \<Rightarrow> Inr s
      | Inr (Some dg) \<Rightarrow>
     (case map_of (ix_manifests s) dg of
        None \<Rightarrow> Inr s
      | Some row \<Rightarrow>
          let actual = edges_of dg s;
              aid = (case mr_artifact_id row of None \<Rightarrow> [] | Some i \<Rightarrow> i);
              s1 = s \<lparr> ix_blobs := fold dec_ref actual (ix_blobs s),
                       ix_manifest_blobs := filter (\<lambda>e. fst (fst e) \<noteq> dg) (ix_manifest_blobs s),
                       ix_manifest_handles := filter (\<lambda>e. fst (fst e) \<noteq> dg) (ix_manifest_handles s),
                       ix_manifests := AList.delete dg (ix_manifests s) \<rparr>;
              s2 = next_csn s1;
              s3 = s2 \<lparr> ix_prune_csn := ix_csn s2 \<rparr>
          in (case ix_veto_delete s3 aid actual of
                Some e \<Rightarrow> Inl e
              | None \<Rightarrow> Inr s3)))"

definition delete_manifest :: "string \<Rightarrow> index_state \<Rightarrow> unit res \<times> index_state" where
  "delete_manifest dig s = in_tx ''DeleteManifest'' (delete_manifest_tx dig) s"

subsection \<open>Lookups\<close>

definition lookup_key :: "string \<Rightarrow> (key \<times> 'v) list \<Rightarrow> 'v option res" where
  "lookup_key k t = (case hex_key k of
      Inl e \<Rightarrow> Inl e
    | Inr None \<Rightarrow> Inr None
    | Inr (Some b) \<Rightarrow> Inr (map_of t b))"

definition query :: "string \<Rightarrow> index_state \<Rightarrow> 'a res \<Rightarrow> 'a res" where
  "query op s r = (case ix_down s op of Some e \<Rightarrow> Inl e | None \<Rightarrow> r)"

definition path_address :: "path \<Rightarrow> physical_address" where
  "path_address p = \<lparr> pa_workspace = [], pa_path = p, pa_offset = 0, pa_size = 0 \<rparr>"

definition index_resolve :: "string \<Rightarrow> index_state \<Rightarrow> physical_address res" where
  "index_resolve ref s = query ''Resolve'' s
     (case lookup_key ref (ix_blobs s) of
        Inl e \<Rightarrow> Inl e
      | Inr None \<Rightarrow> Inl ErrArtifactNotFound
      | Inr (Some r) \<Rightarrow> Inr (path_address (br_physical_path r)))"

definition exists_by_content :: "string \<Rightarrow> int \<Rightarrow> string \<Rightarrow> index_state \<Rightarrow> string option res" where
  "exists_by_content ch n crypto s = query ''ExistsByContent'' s
     (case hex_key ch of
        Inl e \<Rightarrow> Inl e
      | Inr None \<Rightarrow> Inr None
      | Inr (Some c) \<Rightarrow>
          (case filter (\<lambda>(k, r). br_content_hash r = c \<and> br_original_size r = n \<and> br_crypto_identity r = crypto) (ix_blobs s) of
             [] \<Rightarrow> Inr None
           | (k, _) # _ \<Rightarrow> Inr (Some (hex_encode k))))"

definition get_ref_count :: "string \<Rightarrow> index_state \<Rightarrow> int res" where
  "get_ref_count ref s = query ''GetRefCount'' s
     (case lookup_key ref (ix_blobs s) of
        Inl e \<Rightarrow> Inl e
      | Inr None \<Rightarrow> Inl ErrArtifactNotFound
      | Inr (Some r) \<Rightarrow> Inr (br_ref_count r))"

text \<open>\<^verbatim>\<open>ORDER BY csn DESC LIMIT 1\<close> over the rows of a handle.\<close>

fun freshest :: "(key \<times> manifest_row) list \<Rightarrow> (key \<times> manifest_row) option" where
  "freshest [] = None"
| "freshest (r # rs) = (case freshest rs of
      None \<Rightarrow> Some r
    | Some r' \<Rightarrow> if mr_csn (snd r) \<ge> mr_csn (snd r') then Some r else Some r')"

definition resolve_manifest_digest :: "string \<Rightarrow> index_state \<Rightarrow> string option res" where
  "resolve_manifest_digest i s = query ''ResolveManifestDigest'' s
     (Inr (map_option (\<lambda>r. hex_encode (fst r)) (freshest (filter (\<lambda>r. mr_artifact_id (snd r) = Some i) (ix_manifests s)))))"

definition manifest_exists_by_digest :: "string \<Rightarrow> index_state \<Rightarrow> bool res" where
  "manifest_exists_by_digest dig s = query ''ManifestExistsByDigest'' s
     (case lookup_key dig (ix_manifests s) of Inl e \<Rightarrow> Inl e | Inr r \<Rightarrow> Inr (r \<noteq> None))"

definition list_duplicate_handles :: "index_state \<Rightarrow> string list res" where
  "list_duplicate_handles s = query ''ListDuplicateHandles'' s
     (Inr (let ids = List.map_filter (\<lambda>r. mr_artifact_id (snd r)) (ix_manifests s) in
       sort (remdups (filter (\<lambda>i. i \<noteq> [] \<and> count_list ids i > 1) ids))))"

subsection \<open>Listings\<close>

definition zero_manifest :: manifest where
  "zero_manifest = \<lparr> artifact_id = [], name = [], digest = [], identity_meta_hash = [], identity_nonce = [], session_id = [],
     created_at = 0, content_hash = [], original_size = 0, hash_algo = [], blob_refs = [], handle_refs = [], blob_storage = [],
     pipeline = [], inline_blob = [], retention_until = 0, key_id = [], ext = [], usr = [] \<rparr>"

text \<open>One row of \<^verbatim>\<open>manifests LEFT JOIN blobs\<close> as the partial manifest the callers see.\<close>

definition scan_manifest_row :: "index_state \<Rightarrow> key \<times> manifest_row \<Rightarrow> manifest" where
  "scan_manifest_row s kr = (case kr of (k, r) \<Rightarrow>
     let b = (case mr_blob_ref r of None \<Rightarrow> None | Some ref \<Rightarrow> map_of (ix_blobs s) ref) in
     zero_manifest \<lparr> digest := hex_encode k, session_id := mr_session_id r,
       artifact_id := (case mr_artifact_id r of None \<Rightarrow> [] | Some i \<Rightarrow> i),
       blob_refs := (case mr_blob_ref r of None \<Rightarrow> [] | Some ref \<Rightarrow> [hex_encode ref]),
       content_hash := (case b of None \<Rightarrow> [] | Some br \<Rightarrow> hex_encode (br_content_hash br)),
       original_size := (case b of None \<Rightarrow> 0 | Some br \<Rightarrow> br_original_size br),
       created_at := mr_created_at r,
       retention_until := (case mr_retention_until r of None \<Rightarrow> 0 | Some t \<Rightarrow> t) \<rparr>)"

definition iterate_manifests :: "index_state \<Rightarrow> manifest list res" where
  "iterate_manifests s = query ''IterateManifests'' s
     (Inr (map (scan_manifest_row s) (sort_key (\<lambda>r. mr_created_at (snd r))
        (filter (\<lambda>r. mr_artifact_id (snd r) \<noteq> None) (ix_manifests s)))))"

definition get_by_session :: "string \<Rightarrow> index_state \<Rightarrow> string list res" where
  "get_by_session sid s = query ''GetBySession'' s
     (Inr (List.map_filter (\<lambda>r. if mr_session_id (snd r) = sid then mr_artifact_id (snd r) else None) (ix_manifests s)))"

definition list_orphan_blobs :: "index_state \<Rightarrow> string list res" where
  "list_orphan_blobs s = query ''ListOrphanBlobs'' s
     (Inr (map hex_encode (sort (map fst (filter (\<lambda>r. br_ref_count (snd r) = 0) (ix_blobs s))))))"

text \<open>NULL sorts first, so blobs that were never verified come before the verified ones, oldest first.\<close>

definition verified_rank :: "time option \<Rightarrow> nat" where
  "verified_rank t = (case t of None \<Rightarrow> 0 | Some x \<Rightarrow> x + 1)"

definition list_unverified_blobs :: "time \<Rightarrow> index_state \<Rightarrow> string list res" where
  "list_unverified_blobs before s = query ''ListUnverifiedBlobs'' s
     (Inr (map (\<lambda>r. hex_encode (fst r)) (sort_key (\<lambda>r. verified_rank (br_last_verified (snd r)))
        (filter (\<lambda>r. case br_last_verified (snd r) of None \<Rightarrow> True | Some t \<Rightarrow> t < trunc_second before) (ix_blobs s)))))"

definition list_unverified_manifests :: "time \<Rightarrow> index_state \<Rightarrow> manifest list res" where
  "list_unverified_manifests before s = query ''ListUnverifiedManifests'' s
     (Inr (map (scan_manifest_row s) (sort_key (\<lambda>r. verified_rank (mr_last_verified (snd r)))
        (filter (\<lambda>r. mr_artifact_id (snd r) \<noteq> None
                   \<and> (case mr_last_verified (snd r) of None \<Rightarrow> True | Some t \<Rightarrow> t < trunc_second before)) (ix_manifests s)))))"

definition manifests_by_blob_ref :: "string \<Rightarrow> index_state \<Rightarrow> manifest list res" where
  "manifests_by_blob_ref ref s = query ''ManifestsByBlobRef'' s
     (case hex_key ref of
        Inl e \<Rightarrow> Inl e
      | Inr None \<Rightarrow> Inr []
      | Inr (Some k) \<Rightarrow>
          Inr (List.map_filter (\<lambda>dg. map_option (\<lambda>r. scan_manifest_row s (dg, r)) (map_of (ix_manifests s) dg))
            (sort (map (\<lambda>e. fst (fst e)) (filter (\<lambda>e. snd e = k) (ix_manifest_blobs s))))))"

definition count_manifests :: "index_state \<Rightarrow> nat res" where
  "count_manifests s = query ''CountManifests'' s (Inr (length (filter (\<lambda>r. mr_artifact_id (snd r) \<noteq> None) (ix_manifests s))))"

definition manifest_by_digest :: "string \<Rightarrow> index_state \<Rightarrow> manifest option res" where
  "manifest_by_digest dig s = query ''ManifestByDigest'' s
     (case hex_key dig of
        Inl e \<Rightarrow> Inl e
      | Inr None \<Rightarrow> Inr None
      | Inr (Some k) \<Rightarrow>
          (case map_of (ix_manifests s) k of
             None \<Rightarrow> Inr None
           | Some r \<Rightarrow> Inr (if mr_artifact_id r = None then None else Some (scan_manifest_row s (k, r)))))"

subsection \<open>Change sequence\<close>

definition index_token :: "index_state \<Rightarrow> nat res" where
  "index_token s = query ''Token'' s (Inr (ix_csn s))"

record delta =
  dl_changes :: "(string \<times> nat) list"
  dl_next :: nat
  dl_gapped :: bool

definition since :: "nat \<Rightarrow> index_state \<Rightarrow> delta res" where
  "since cursor s = query ''Since'' s
     (let ch = map (\<lambda>r. (hex_encode (fst r), mr_csn (snd r)))
                 (sort_key (\<lambda>r. mr_csn (snd r)) (filter (\<lambda>r. cursor < mr_csn (snd r)) (ix_manifests s)))
      in Inr \<lparr> dl_changes = ch, dl_next = (if ch = [] then cursor else snd (last ch)), dl_gapped = (cursor < ix_prune_csn s) \<rparr>)"

subsection \<open>Maintenance\<close>

definition mark_verified :: "string \<Rightarrow> time \<Rightarrow> index_state \<Rightarrow> unit res \<times> index_state" where
  "mark_verified ref t s = in_tx ''MarkVerified'' (\<lambda>s. case hex_key ref of
      Inl e \<Rightarrow> Inl e
    | Inr None \<Rightarrow> Inr s
    | Inr (Some k) \<Rightarrow> Inr (s \<lparr> ix_blobs := upd_key k (\<lambda>b. b \<lparr> br_last_verified := Some (trunc_second t) \<rparr>) (ix_blobs s) \<rparr>)) s"

definition mark_manifest_verified :: "string \<Rightarrow> time \<Rightarrow> index_state \<Rightarrow> unit res \<times> index_state" where
  "mark_manifest_verified i t s = in_tx ''MarkManifestVerified'' (\<lambda>s. Inr (s \<lparr> ix_manifests :=
      upd_where (\<lambda>r. mr_artifact_id r = Some i) (\<lambda>r. r \<lparr> mr_last_verified := Some (trunc_second t) \<rparr>) (ix_manifests s) \<rparr>)) s"

definition delete_orphan_blob :: "string \<Rightarrow> index_state \<Rightarrow> bool res \<times> index_state" where
  "delete_orphan_blob ref s = (case ix_down s ''DeleteOrphanBlob'' of
      Some e \<Rightarrow> (Inl e, s)
    | None \<Rightarrow> (case hex_key ref of
        Inl e \<Rightarrow> (Inl e, s)
      | Inr None \<Rightarrow> (Inr False, s)
      | Inr (Some k) \<Rightarrow>
          (case map_of (ix_blobs s) k of
             None \<Rightarrow> (Inr False, s)
           | Some b \<Rightarrow> if br_ref_count b = 0 then (Inr True, s \<lparr> ix_blobs := AList.delete k (ix_blobs s) \<rparr>)
                      else (Inr False, s))))"

definition reset_index :: "bool \<Rightarrow> index_state \<Rightarrow> unit res \<times> index_state" where
  "reset_index keep_blobs s = in_tx ''ResetIndex'' (\<lambda>s. Inr (s \<lparr> ix_manifest_blobs := [], ix_manifest_handles := [], ix_manifests := [],
      ix_blobs := (if keep_blobs then upd_where (\<lambda>_. True) (\<lambda>b. b \<lparr> br_ref_count := 0 \<rparr>) (ix_blobs s) else []),
      ix_csn := 0, ix_prune_csn := 0 \<rparr>)) s"

definition sqlite_index :: "index_state store_index" where
  "sqlite_index = \<lparr> si_index_manifest = index_manifest, si_delete_manifest = delete_manifest, si_resolve = index_resolve,
     si_resolve_manifest_digest = resolve_manifest_digest, si_manifest_exists_by_digest = manifest_exists_by_digest,
     si_exists_by_content = exists_by_content, si_get_ref_count = get_ref_count, si_iterate_manifests = iterate_manifests,
     si_list_orphan_blobs = list_orphan_blobs, si_delete_orphan_blob = delete_orphan_blob,
     si_list_unverified_blobs = list_unverified_blobs, si_manifests_by_blob_ref = manifests_by_blob_ref,
     si_list_unverified_manifests = list_unverified_manifests, si_get_by_session = get_by_session,
     si_mark_verified = mark_verified, si_mark_manifest_verified = mark_manifest_verified \<rparr>"

lemma sqlite_index_simps [simp]:
  "si_index_manifest sqlite_index = index_manifest" "si_delete_manifest sqlite_index = delete_manifest"
  "si_resolve sqlite_index = index_resolve" "si_resolve_manifest_digest sqlite_index = resolve_manifest_digest"
  "si_manifest_exists_by_digest sqlite_index = manifest_exists_by_digest" "si_exists_by_content sqlite_index = exists_by_content"
  "si_get_ref_count sqlite_index = get_ref_count" "si_iterate_manifests sqlite_index = iterate_manifests"
  "si_list_orphan_blobs sqlite_index = list_orphan_blobs" "si_delete_orphan_blob sqlite_index = delete_orphan_blob"
  "si_list_unverified_blobs sqlite_index = list_unverified_blobs" "si_manifests_by_blob_ref sqlite_index = manifests_by_blob_ref"
  "si_list_unverified_manifests sqlite_index = list_unverified_manifests" "si_get_by_session sqlite_index = get_by_session"
  "si_mark_verified sqlite_index = mark_verified" "si_mark_manifest_verified sqlite_index = mark_manifest_verified"
  by (simp_all add: sqlite_index_def)

subsection \<open>Tables\<close>

lemma map_of_insert_absent: "map_of (insert_absent k v t) = (if map_of t k = None then (map_of t)(k \<mapsto> v) else map_of t)"
  by (auto simp: insert_absent_def map_add_def fun_eq_iff split: option.splits)

lemma insert_absent_present [simp]: "map_of t k = Some v' \<Longrightarrow> insert_absent k v t = t"
  by (simp add: insert_absent_def)

lemma distinct_insert_absent [simp]: "distinct (map fst t) \<Longrightarrow> distinct (map fst (insert_absent k v t))"
  by (auto simp: insert_absent_def map_of_eq_None_iff)

lemma map_of_upd_key: "map_of (upd_key k f t) k' = (if k' = k then map_option f (map_of t k) else map_of t k')"
  by (induction t) (auto simp: upd_key_def)

lemma fst_upd [simp]: "map fst (upd_key k f t) = map fst t" "map fst (upd_where P f t) = map fst t"
  by (auto simp: upd_key_def upd_where_def)

lemma map_of_upd_where: "map_of (upd_where P f t) k = map_option (\<lambda>v. if P v then f v else v) (map_of t k)"
  by (induction t) (auto simp: upd_where_def)

lemma distinct_delete_keys [simp]: "distinct (map fst t) \<Longrightarrow> distinct (map fst (AList.delete k t))"
  by (simp add: distinct_delete)

lemma hex_key_ref [simp]: "raw \<noteq> [] \<Longrightarrow> hex_key (hex_encode raw) = Inr (Some raw)"
  by (cases raw) (auto simp: hex_key_def hex_byte_def Let_def)

lemma not_null_simps [simp]: "not_null (Inl e) = Inl e" "not_null (Inr (Some b)) = Inr b" "not_null (Inr None) \<noteq> Inr b"
  by (simp_all add: not_null_def)

lemma hex_key_nonempty: "hex_key k = Inr (Some raw) \<Longrightarrow> raw \<noteq> []"
proof -
  assume "hex_key k = Inr (Some raw)"
  then have k: "k \<noteq> []" "hex_decode k = Some raw" by (auto simp: hex_key_def split: if_splits option.splits)
  then show ?thesis
  proof (cases k rule: hex_decode.cases)
    case (3 a b s)
    then show ?thesis using k(2) by (auto split: option.splits)
  qed simp_all
qed

lemma not_null_hexD: "not_null (hex_key k) = Inr raw \<Longrightarrow> hex_key k = Inr (Some raw) \<and> raw \<noteq> []"
  using hex_key_nonempty by (auto simp: not_null_def split: sum.splits option.splits)

text \<open>The keys a list of references binds to.\<close>

definition ref_keys :: "string list \<Rightarrow> key list" where
  "ref_keys rs = map (\<lambda>r. case hex_key r of Inr (Some k) \<Rightarrow> k | _ \<Rightarrow> []) rs"

lemma ref_keys_simps [simp]: "ref_keys [] = []" "hex_key r = Inr (Some k) \<Longrightarrow> ref_keys (r # rs) = k # ref_keys rs"
  by (simp_all add: ref_keys_def)

lemma ref_keys_encode: "list_all is_hex_ref rs \<Longrightarrow> map hex_encode (ref_keys rs) = rs"
proof (induction rs)
  case (Cons r rs)
  then obtain raw where "r = hex_encode raw" "raw \<noteq> []" using is_hex_refE [of r] by auto
  then show ?case using Cons by simp
qed simp

definition fresh_blob :: "key \<Rightarrow> manifest \<Rightarrow> path \<Rightarrow> time \<Rightarrow> blob_row" where
  "fresh_blob ch m p now = \<lparr> br_content_hash = ch, br_original_size = original_size m, br_physical_path = p,
     br_crypto_identity = crypto_identity_of (pipeline m), br_ref_count = 0, br_last_verified = None,
     br_created_at = trunc_second now \<rparr>"

definition bump :: "nat \<Rightarrow> blob_row \<Rightarrow> blob_row" where
  "bump n b = b \<lparr> br_ref_count := br_ref_count b + int n \<rparr>"

lemma bump_bump [simp]: "bump n (bump k b) = bump (n + k) b" "bump 0 b = b"
  by (simp_all add: bump_def)

lemma register_refs_spec:
  assumes "register_refs ch m p now rs t = Inr t'"
  shows "(distinct (map fst t) \<longrightarrow> distinct (map fst t')) \<and> [] \<notin> set (ref_keys rs)
    \<and> map_of t' k = (case map_of t k of
        Some b \<Rightarrow> Some (bump (count_list (ref_keys rs) k) b)
      | None \<Rightarrow> if k \<in> set (ref_keys rs) then Some (bump (count_list (ref_keys rs) k) (fresh_blob ch m p now)) else None)"
  using assms
proof (induction rs arbitrary: t)
  case (Cons r rs)
  obtain k0 where k0: "not_null (hex_key r) = Inr k0"
    using Cons.prems by (cases "not_null (hex_key r)") simp_all
  note h = not_null_hexD [OF k0]
  let ?t = "upd_key k0 (bump 1) (insert_absent k0 (fresh_blob ch m p now) t)"
  have "register_refs ch m p now rs ?t = Inr t'"
    using Cons.prems k0 by (simp add: fresh_blob_def bump_def [abs_def])
  note ih = Cons.IH [OF this]
  show ?case
    using ih h by (auto simp: map_of_upd_key map_of_insert_absent add.commute split: option.splits if_splits)
qed (simp split: option.splits)

text \<open>Linking keeps the edges that are there and appends the missing positions.\<close>

lemma link_blobs_spec:
  assumes "link_blobs dg pos rs t = Inr t'" "\<forall>i \<ge> pos. (map_of t (dg, i) = None) = (n \<le> i)"
  shows "t' = t @ map (\<lambda>(i, k). ((dg, i), k)) (enumerate (max pos n) (drop (n - pos) (ref_keys rs))) \<and> [] \<notin> set (ref_keys rs)"
  using assms
proof (induction rs arbitrary: pos t n)
  case (Cons r rs)
  obtain k0 where k0: "not_null (hex_key r) = Inr k0"
    using Cons.prems(1) by (cases "not_null (hex_key r)") simp_all
  note h = not_null_hexD [OF k0]
  show ?case
  proof (cases "n \<le> pos")
    case True
    then have l: "link_blobs dg (pos + 1) rs (t @ [((dg, pos), k0)]) = Inr t'"
      using Cons.prems k0 by (simp add: insert_absent_def)
    have "\<forall>i \<ge> pos + 1. (map_of (t @ [((dg, pos), k0)]) (dg, i) = None) = (pos + 1 \<le> i)"
      using Cons.prems(2) True by (auto simp: map_add_def split: option.splits)
    from Cons.IH [OF l this] show ?thesis using h True by (auto simp: max_def)
  next
    case False
    then obtain v where "map_of t (dg, pos) = Some v" using Cons.prems(2) by fastforce
    then have l: "link_blobs dg (pos + 1) rs t = Inr t'" using Cons.prems(1) k0 by simp
    have p: "\<forall>i \<ge> pos + 1. (map_of t (dg, i) = None) = (n \<le> i)" using Cons.prems(2) by simp
    obtain j where "n - pos = Suc j" "n - Suc pos = j" using False by (metis Suc_diff_Suc not_le)
    moreover have "Suc pos \<le> n" using False by simp
    ultimately show ?thesis using Cons.IH [OF l p] h by (auto simp: max_def)
  qed
qed simp

subsection \<open>Well-formed indexes\<close>

definition index_wf :: "index_state \<Rightarrow> bool" where
  "index_wf s = (distinct (map fst (ix_blobs s)) \<and> distinct (map fst (ix_manifests s))
     \<and> (\<forall>k b. map_of (ix_blobs s) k = Some b \<longrightarrow> k \<noteq> [] \<and> br_content_hash b \<noteq> [] \<and> 0 \<le> br_ref_count b)
     \<and> (\<forall>dg r. map_of (ix_manifests s) dg = Some r \<longrightarrow> dg \<noteq> [] \<and> mr_csn r \<le> ix_csn s)
     \<and> (\<forall>dg. map_of (ix_manifests s) dg = None \<longrightarrow> edges_of dg s = [])
     \<and> (\<forall>dg. filter (\<lambda>e. fst (fst e) = dg) (ix_manifest_blobs s)
            = map (\<lambda>(i, k). ((dg, i), k)) (enumerate 0 (edges_of dg s)))
     \<and> (\<forall>dg. [] \<notin> set (edges_of dg s))
     \<and> (\<forall>op. ix_down s op \<noteq> Some ErrArtifactNotFound))"

lemma edges_cong: "ix_manifest_blobs s' = ix_manifest_blobs s \<Longrightarrow> edges_of dg s' = edges_of dg s"
  by (simp add: edges_of_def)

lemma map_of_edge_key:
  assumes "index_wf s"
  shows "map_of (ix_manifest_blobs s) (dg, i) = (if i < length (edges_of dg s) then Some (edges_of dg s ! i) else None)"
proof -
  let ?F = "filter (\<lambda>e. fst (fst e) = dg) (ix_manifest_blobs s)"
  have "map_of ?F (dg, i) = map_of (ix_manifest_blobs s) (dg, i)"
    using map_of_filter_key [of "\<lambda>k. fst k = dg" "ix_manifest_blobs s" "(dg, i)"] by simp
  moreover have "?F = map (\<lambda>(i, k). ((dg, i), k)) (enumerate 0 (edges_of dg s))"
    using assms unfolding index_wf_def by blast
  moreover have "map_of (map (\<lambda>(i, k). ((dg, i), k)) (enumerate n ks)) (dg, i)
      = (if n \<le> i \<and> i < n + length ks then Some (ks ! (i - n)) else None)" for n and ks :: "key list"
  proof (induction ks arbitrary: n)
    case (Cons k ks)
    then show ?case by (auto simp: nth_Cons' Suc_diff_le)
  qed simp
  ultimately show ?thesis by (auto split: if_splits)
qed

text \<open>What a committed registration did.\<close>

lemma index_tx_okE:
  assumes "index_manifest_tx m addr now s = Inr s'"
  obtains dg bs ms mbs where "not_null (hex_key (digest m)) = Inr dg"
    "blob_storage m = layout_inline \<and> bs = ix_blobs s \<and> mbs = ix_manifest_blobs s
     \<or> blob_storage m \<noteq> layout_inline \<and> (\<exists>ch. hex_key (content_hash m) = Inr (Some ch) \<and> ch \<noteq> []
          \<and> register_refs ch m (pa_path addr) now (blob_refs m) (ix_blobs s) = Inr bs)
        \<and> link_blobs dg 0 (blob_refs m) (ix_manifest_blobs s) = Inr mbs"
    "insert_manifest_row m now (ix_manifests s) = Inr ms"
    "s' = s \<lparr> ix_blobs := bs, ix_manifests := upd_key dg (\<lambda>r. r \<lparr> mr_csn := ix_csn s + 1 \<rparr>) ms, ix_manifest_blobs := mbs,
            ix_manifest_handles := link_handles dg 0 (handle_refs m) (ix_manifest_handles s), ix_csn := ix_csn s + 1 \<rparr>"
proof -
  obtain s1 dg where s1: "index_blob_manifest m addr now s = Inr s1" and d: "not_null (hex_key (digest m)) = Inr dg"
    using assms by (auto simp: index_manifest_tx_def split: sum.splits)
  have s': "s' = s1 \<lparr> ix_manifest_handles := link_handles dg 0 (handle_refs m) (ix_manifest_handles s1), ix_csn := ix_csn s1 + 1,
      ix_manifests := upd_key dg (\<lambda>r. r \<lparr> mr_csn := ix_csn s1 + 1 \<rparr>) (ix_manifests s1) \<rparr>"
    using assms s1 d by (auto simp: index_manifest_tx_def Let_def next_csn_def split: option.splits if_splits)
  show thesis
  proof (cases "blob_storage m = layout_inline")
    case True
    then obtain ms where "insert_manifest_row m now (ix_manifests s) = Inr ms" "s1 = s \<lparr> ix_manifests := ms \<rparr>"
      using s1 by (auto simp: index_blob_manifest_def split: sum.splits)
    then show thesis using that [OF d, of "ix_blobs s" "ix_manifest_blobs s" ms] True s' by simp
  next
    case False
    then obtain ch where ch: "not_null (hex_key (content_hash m)) = Inr ch" "blob_refs m \<noteq> []"
      using s1 by (auto simp: index_blob_manifest_def split: sum.splits if_splits)
    obtain bs ms mbs where "register_refs ch m (pa_path addr) now (blob_refs m) (ix_blobs s) = Inr bs"
        "insert_manifest_row m now (ix_manifests s) = Inr ms" "link_blobs dg 0 (blob_refs m) (ix_manifest_blobs s) = Inr mbs"
        "s1 = s \<lparr> ix_blobs := bs, ix_manifests := ms, ix_manifest_blobs := mbs \<rparr>"
      using s1 False ch d by (auto simp: index_blob_manifest_def split: sum.splits)
    then show thesis using that [OF d, of bs mbs ms] False not_null_hexD [OF ch(1)] s' by auto
  qed
qed

definition new_row :: "manifest \<Rightarrow> time \<Rightarrow> key option \<Rightarrow> manifest_row" where
  "new_row m now ref = \<lparr> mr_artifact_id = (if artifact_id m = [] then None else Some (artifact_id m)),
     mr_session_id = session_id m, mr_blob_ref = ref,
     mr_created_at = trunc_second (if created_at m = 0 then now else created_at m),
     mr_retention_until = opt_time (retention_until m), mr_last_verified = None, mr_csn = 0 \<rparr>"

lemma insert_manifest_row_spec:
  assumes "insert_manifest_row m now t = Inr ms" "not_null (hex_key (digest m)) = Inr dg"
  shows "\<exists>ref. ms = insert_absent dg (new_row m now ref) t"
  using assms by (auto simp: insert_manifest_row_def new_row_def split: sum.splits)

lemma edges_after_link:
  assumes "index_wf s" "link_blobs dg 0 rs (ix_manifest_blobs s) = Inr mbs"
  shows "edges_of d (s \<lparr> ix_manifest_blobs := mbs \<rparr>)
      = (if d = dg then edges_of dg s @ drop (length (edges_of dg s)) (ref_keys rs) else edges_of d s)"
    and "filter (\<lambda>e. fst (fst e) = d) mbs = map (\<lambda>(i, k). ((d, i), k)) (enumerate 0 (edges_of d (s \<lparr> ix_manifest_blobs := mbs \<rparr>)))"
    and "[] \<notin> set (ref_keys rs)"
proof -
  let ?n = "length (edges_of dg s)"
  let ?new = "map (\<lambda>(i, k). ((dg, i), k)) (enumerate ?n (drop ?n (ref_keys rs)))"
  have f: "filter (\<lambda>e. fst (fst e) = d) (ix_manifest_blobs s) = map (\<lambda>(i, k). ((d, i), k)) (enumerate 0 (edges_of d s))"
    using assms(1) unfolding index_wf_def by blast
  have fn: "filter (\<lambda>e. fst (fst e) = d) ?new = (if d = dg then ?new else [])"
    by (auto simp: filter_map comp_def case_prod_beta intro: filter_True)
  have sn: "map snd ?new = drop ?n (ref_keys rs)" by (simp add: comp_def case_prod_beta)
  have "\<forall>i \<ge> 0. (map_of (ix_manifest_blobs s) (dg, i) = None) = (?n \<le> i)" by (simp add: map_of_edge_key [OF assms(1)])
  from link_blobs_spec [OF assms(2) this]
  have m: "mbs = ix_manifest_blobs s @ ?new" and ne: "[] \<notin> set (ref_keys rs)" by simp_all
  show "[] \<notin> set (ref_keys rs)" by (rule ne)
  show e: "edges_of d (s \<lparr> ix_manifest_blobs := mbs \<rparr>)
      = (if d = dg then edges_of dg s @ drop ?n (ref_keys rs) else edges_of d s)"
    using fn sn by (simp add: edges_of_def m)
  show "filter (\<lambda>e. fst (fst e) = d) mbs = map (\<lambda>(i, k). ((d, i), k)) (enumerate 0 (edges_of d (s \<lparr> ix_manifest_blobs := mbs \<rparr>)))"
    unfolding e using f fn by (simp add: m enumerate_append_eq)
qed

definition row_view :: "index_state \<Rightarrow> key \<Rightarrow> manifest_row \<Rightarrow> ix_manifest" where
  "row_view s k r = \<lparr> im_aid = mr_artifact_id r, im_session = mr_session_id r, im_refs = map hex_encode (edges_of k s), im_order = mr_csn r \<rparr>"

definition blob_view :: "blob_row \<Rightarrow> ix_blob" where
  "blob_view b = \<lparr> ib_path = br_physical_path b, ib_content = hex_encode (br_content_hash b), ib_size = br_original_size b,
     ib_crypto = br_crypto_identity b, ib_refs = br_ref_count b \<rparr>"

lemma row_view_cong: "edges_of k s' = edges_of k s \<Longrightarrow> row_view s' k = row_view s k"
  by (simp add: row_view_def fun_eq_iff)

text \<open>The abstract content of a SQLite index.\<close>

definition sq_manifests :: "index_state \<Rightarrow> string \<Rightarrow> ix_manifest option" where
  "sq_manifests s d = (if is_hex_ref d then (case hex_decode d of None \<Rightarrow> None
     | Some k \<Rightarrow> map_option (row_view s k) (map_of (ix_manifests s) k)) else None)"

definition sq_blobs :: "index_state \<Rightarrow> string \<Rightarrow> ix_blob option" where
  "sq_blobs s r = (if is_hex_ref r then (case hex_decode r of None \<Rightarrow> None | Some k \<Rightarrow> map_option blob_view (map_of (ix_blobs s) k)) else None)"

lemma sq_view_encode [simp]:
  "k \<noteq> [] \<Longrightarrow> sq_manifests s (hex_encode k) = map_option (row_view s k) (map_of (ix_manifests s) k)"
  "k \<noteq> [] \<Longrightarrow> sq_blobs s (hex_encode k) = map_option blob_view (map_of (ix_blobs s) k)"
  by (simp_all add: sq_manifests_def sq_blobs_def)

lemma sq_manifests_eqI:
  assumes "\<And>k. k \<noteq> [] \<Longrightarrow> sq_manifests s (hex_encode k) = v (hex_encode k)" "\<And>d. \<not> is_hex_ref d \<Longrightarrow> v d = None"
  shows "sq_manifests s = v"
proof
  fix d
  show "sq_manifests s d = v d"
    using assms by (cases "is_hex_ref d") (auto simp: sq_manifests_def elim!: is_hex_refE)
qed

lemma sq_blobs_eqI:
  assumes "\<And>k. k \<noteq> [] \<Longrightarrow> sq_blobs s (hex_encode k) = v (hex_encode k)" "\<And>d. \<not> is_hex_ref d \<Longrightarrow> v d = None"
  shows "sq_blobs s = v"
proof
  fix d
  show "sq_blobs s d = v d"
    using assms by (cases "is_hex_ref d") (auto simp: sq_blobs_def elim!: is_hex_refE)
qed

lemma sq_none [simp]: "\<not> is_hex_ref d \<Longrightarrow> sq_manifests s d = None" "\<not> is_hex_ref d \<Longrightarrow> sq_blobs s d = None"
  by (simp_all add: sq_manifests_def sq_blobs_def)

lemma blob_view_bump [simp]: "blob_view (bump n b) = blob_view b \<lparr> ib_refs := ib_refs (blob_view b) + int n \<rparr>"
  by (simp add: blob_view_def bump_def)

lemma count_ref_keys:
  assumes "list_all is_hex_ref rs"
  shows "count_list (ref_keys rs) k = count_list rs (hex_encode k)" "k \<in> set (ref_keys rs) \<longleftrightarrow> hex_encode k \<in> set rs"
proof -
  have "count_list (map hex_encode ks) (hex_encode k) = count_list ks k" for ks by (induction ks) simp_all
  moreover have "hex_encode k \<in> set (map hex_encode ks) \<longleftrightarrow> k \<in> set ks" for ks by auto
  ultimately show "count_list (ref_keys rs) k = count_list rs (hex_encode k)" "k \<in> set (ref_keys rs) \<longleftrightarrow> hex_encode k \<in> set rs"
    using ref_keys_encode [OF assms] by metis+
qed

text \<open>Registration keeps the index well-formed, whatever manifest it is given.\<close>

lemma index_wfI_fields:
  assumes "index_wf s"
  shows "distinct (map fst (ix_blobs s))" "distinct (map fst (ix_manifests s))"
    "map_of (ix_blobs s) k = Some b \<Longrightarrow> k \<noteq> [] \<and> br_content_hash b \<noteq> [] \<and> 0 \<le> br_ref_count b"
    "map_of (ix_manifests s) dg = Some r \<Longrightarrow> dg \<noteq> [] \<and> mr_csn r \<le> ix_csn s"
    "map_of (ix_manifests s) dg = None \<Longrightarrow> edges_of dg s = []"
    "[] \<notin> set (edges_of dg s)" "ix_down s op \<noteq> Some ErrArtifactNotFound"
  using assms unfolding index_wf_def by blast+

lemma index_tx_wf:
  assumes wf: "index_wf s" and tx: "index_manifest_tx m addr now s = Inr s'"
  shows "index_wf s'"
proof -
  obtain dg bs ms mbs where d: "not_null (hex_key (digest m)) = Inr dg"
    and b: "blob_storage m = layout_inline \<and> bs = ix_blobs s \<and> mbs = ix_manifest_blobs s
     \<or> blob_storage m \<noteq> layout_inline \<and> (\<exists>ch. hex_key (content_hash m) = Inr (Some ch) \<and> ch \<noteq> []
          \<and> register_refs ch m (pa_path addr) now (blob_refs m) (ix_blobs s) = Inr bs)
        \<and> link_blobs dg 0 (blob_refs m) (ix_manifest_blobs s) = Inr mbs"
    and ms: "insert_manifest_row m now (ix_manifests s) = Inr ms"
    and s': "s' = s \<lparr> ix_blobs := bs, ix_manifests := upd_key dg (\<lambda>r. r \<lparr> mr_csn := ix_csn s + 1 \<rparr>) ms, ix_manifest_blobs := mbs,
            ix_manifest_handles := link_handles dg 0 (handle_refs m) (ix_manifest_handles s), ix_csn := ix_csn s + 1 \<rparr>"
    by (rule index_tx_okE [OF tx])
  note wf = index_wfI_fields [OF assms(1)]
  have dg: "dg \<noteq> []" using not_null_hexD [OF d] by simp
  obtain ref where ref: "ms = insert_absent dg (new_row m now ref) (ix_manifests s)"
    using insert_manifest_row_spec [OF ms d] by blast
  have "map_of ms d' = (if d' = dg \<and> map_of (ix_manifests s) dg = None then Some (new_row m now ref) else map_of (ix_manifests s) d')" for d'
    by (auto simp: ref map_of_insert_absent)
  then have 1: "\<forall>d' r. map_of (ix_manifests s') d' = Some r \<longrightarrow> d' \<noteq> [] \<and> mr_csn r \<le> ix_csn s'"
    using wf(4) dg by (auto simp: s' map_of_upd_key new_row_def split: if_splits dest: wf(4) intro: le_SucI)
  have 2: "distinct (map fst bs) \<and> (\<forall>k b. map_of bs k = Some b \<longrightarrow> k \<noteq> [] \<and> br_content_hash b \<noteq> [] \<and> 0 \<le> br_ref_count b)"
  proof (cases "blob_storage m = layout_inline")
    case True
    then show ?thesis using b wf(1,3) by auto
  next
    case False
    then obtain ch where ch: "ch \<noteq> []" "register_refs ch m (pa_path addr) now (blob_refs m) (ix_blobs s) = Inr bs" using b by blast
    have "k \<noteq> [] \<and> br_content_hash b \<noteq> [] \<and> 0 \<le> br_ref_count b" if "map_of bs k = Some b" for k b
      using that register_refs_spec [OF ch(2), of k] wf(3) [of k] ch(1)
      by (cases "map_of (ix_blobs s) k") (auto simp: bump_def fresh_blob_def split: if_splits)
    then show ?thesis using register_refs_spec [OF ch(2)] wf(1) by blast
  qed
  have e: "edges_of d' s' = edges_of d' (s \<lparr> ix_manifest_blobs := mbs \<rparr>)" for d' by (simp add: edges_of_def s')
  have 3: "filter (\<lambda>x. fst (fst x) = d') mbs = map (\<lambda>(i, k). ((d', i), k)) (enumerate 0 (edges_of d' s'))
     \<and> [] \<notin> set (edges_of d' s') \<and> (d' \<noteq> dg \<longrightarrow> edges_of d' s' = edges_of d' s)" for d'
  proof (cases "blob_storage m = layout_inline")
    case True
    then have "mbs = ix_manifest_blobs s" using b by blast
    moreover have "filter (\<lambda>x. fst (fst x) = d') (ix_manifest_blobs s) = map (\<lambda>(i, k). ((d', i), k)) (enumerate 0 (edges_of d' s))"
      using assms(1) unfolding index_wf_def by blast
    ultimately show ?thesis using wf(6) by (simp add: e)
  next
    case False
    then have l: "link_blobs dg 0 (blob_refs m) (ix_manifest_blobs s) = Inr mbs" using b by blast
    show ?thesis
      using edges_after_link(1,2) [OF assms(1) l, of d'] edges_after_link(3) [OF assms(1) l] wf(6) [of d'] by (auto simp: e dest: in_set_dropD)
  qed
  show ?thesis
    unfolding index_wf_def
  proof (intro conjI)
    show "\<forall>d'. map_of (ix_manifests s') d' = None \<longrightarrow> edges_of d' s' = []"
      using 3 wf(5) by (auto simp: s' map_of_upd_key ref map_of_insert_absent split: if_splits)
  qed (use 1 2 3 wf(2,7) in \<open>simp_all add: s' ref\<close>)
qed

text \<open>A committed registration acts on the abstract content as specified.\<close>

lemma index_tx_blobs:
  assumes "register_refs ch m p now (blob_refs m) (ix_blobs s) = Inr (ix_blobs s')" "content_hash m = hex_encode ch"
    and "list_all is_hex_ref (blob_refs m)" "blob_storage m \<noteq> layout_inline"
  shows "sq_blobs s' = spec_index_blobs m p (sq_blobs s)"
proof (rule sq_blobs_eqI)
  fix k :: key
  assume k: "k \<noteq> []"
  have i: "indexed_refs m = blob_refs m" using assms(4) by (simp add: indexed_refs_def)
  have f: "blob_view (fresh_blob ch m p now) = \<lparr> ib_path = p, ib_content = content_hash m, ib_size = original_size m,
      ib_crypto = crypto_identity_of (pipeline m), ib_refs = 0 \<rparr>"
    by (simp add: blob_view_def fresh_blob_def assms(2))
  show "sq_blobs s' (hex_encode k) = spec_index_blobs m p (sq_blobs s) (hex_encode k)"
    using k register_refs_spec [OF assms(1), of k] count_ref_keys [OF assms(3), of k]
    by (cases "map_of (ix_blobs s) k") (simp_all add: spec_index_blobs_def i f)
next
  fix d
  assume "\<not> is_hex_ref d"
  then show "spec_index_blobs m p (sq_blobs s) d = None"
    using assms(3,4) by (auto simp: spec_index_blobs_def indexed_refs_def list_all_iff)
qed

lemma index_tx_view:
  assumes "index_wf s" "index_manifest_tx m addr now s = Inr s'" "indexable m"
    and "\<And>r. sq_manifests s (digest m) = Some r \<Longrightarrow> im_refs r = indexed_refs m"
  shows "sq_manifests s' = spec_index_rows m (ix_csn s + 1) (sq_manifests s)"
    and "sq_blobs s' = spec_index_blobs m (pa_path addr) (sq_blobs s)"
proof -
  obtain dg bs ms mbs where d: "not_null (hex_key (digest m)) = Inr dg"
    and b: "blob_storage m = layout_inline \<and> bs = ix_blobs s \<and> mbs = ix_manifest_blobs s
     \<or> blob_storage m \<noteq> layout_inline \<and> (\<exists>ch. hex_key (content_hash m) = Inr (Some ch) \<and> ch \<noteq> []
          \<and> register_refs ch m (pa_path addr) now (blob_refs m) (ix_blobs s) = Inr bs)
        \<and> link_blobs dg 0 (blob_refs m) (ix_manifest_blobs s) = Inr mbs"
    and ms: "insert_manifest_row m now (ix_manifests s) = Inr ms"
    and s': "s' = s \<lparr> ix_blobs := bs, ix_manifests := upd_key dg (\<lambda>r. r \<lparr> mr_csn := ix_csn s + 1 \<rparr>) ms, ix_manifest_blobs := mbs,
            ix_manifest_handles := link_handles dg 0 (handle_refs m) (ix_manifest_handles s), ix_csn := ix_csn s + 1 \<rparr>"
    by (rule index_tx_okE [OF assms(2)])
  obtain raw where "digest m = hex_encode raw" "raw \<noteq> []" using assms(3) is_hex_refE [of "digest m"] by (auto simp: indexable_def)
  then have dg: "digest m = hex_encode dg" "dg \<noteq> []" using d by auto
  obtain ref where ref: "ms = insert_absent dg (new_row m now ref) (ix_manifests s)"
    using insert_manifest_row_spec [OF ms d] by blast
  have e: "edges_of d' s' = edges_of d' (s \<lparr> ix_manifest_blobs := mbs \<rparr>)" for d' by (simp add: edges_of_def s')
  have row: "im_refs r = indexed_refs m" if "map_of (ix_manifests s) dg = Some r'" "r = row_view s dg r'" for r r'
    using assms(4) that dg by simp
  have edge: "map hex_encode (edges_of dg s') = indexed_refs m" "d' \<noteq> dg \<Longrightarrow> edges_of d' s' = edges_of d' s" for d'
  proof -
    have old: "map hex_encode (edges_of dg s) = indexed_refs m \<or> edges_of dg s = []"
      using row index_wfI_fields(5) [OF assms(1), of dg] by (cases "map_of (ix_manifests s) dg") (auto simp: row_view_def)
    show "map hex_encode (edges_of dg s') = indexed_refs m"
    proof (cases "blob_storage m = layout_inline")
      case True
      then have "edges_of dg s' = edges_of dg s" using b by (auto simp: s' edges_of_def)
      then show ?thesis using True old by (auto simp: indexed_refs_def)
    next
      case False
      then have l: "link_blobs dg 0 (blob_refs m) (ix_manifest_blobs s) = Inr mbs" "list_all is_hex_ref (blob_refs m)"
        using b assms(3) by (auto simp: indexable_def indexed_refs_def)
      have "length (edges_of dg s) = length (ref_keys (blob_refs m))" if "map hex_encode (edges_of dg s) = indexed_refs m"
        using arg_cong [OF that, of length] False by (simp add: indexed_refs_def ref_keys_def)
      then show ?thesis
        using old edges_after_link(1) [OF assms(1) l(1), of dg] ref_keys_encode [OF l(2)] False by (auto simp: e indexed_refs_def)
    qed
    show "edges_of d' s' = edges_of d' s" if "d' \<noteq> dg"
      unfolding e using b edges_after_link(1) [OF assms(1), of dg "blob_refs m" mbs d'] that by (auto cong: edges_cong)
  qed
  show "sq_manifests s' = spec_index_rows m (ix_csn s + 1) (sq_manifests s)"
  proof (rule sq_manifests_eqI)
    fix k :: key
    assume k: "k \<noteq> []"
    show "sq_manifests s' (hex_encode k) = spec_index_rows m (ix_csn s + 1) (sq_manifests s) (hex_encode k)"
    proof (cases "k = dg")
      case True
      then show ?thesis
        using k dg edge(1) row [OF _ refl]
        by (cases "map_of (ix_manifests s) dg") (simp_all add: s' ref map_of_upd_key map_of_insert_absent spec_index_rows_def row_view_def new_row_def)
    next
      case False
      then have "row_view s' k = row_view s k" using edge(2) by (intro row_view_cong)
      moreover have "map_of (ix_manifests s') k = map_of (ix_manifests s) k"
        using False by (simp add: s' ref map_of_upd_key map_of_insert_absent)
      ultimately show ?thesis using k dg False by (simp add: spec_index_rows_def)
    qed
  qed (use dg assms(3) in \<open>auto simp: spec_index_rows_def indexable_def\<close>)
  show "sq_blobs s' = spec_index_blobs m (pa_path addr) (sq_blobs s)"
  proof (cases "blob_storage m = layout_inline")
    case True
    then have "ix_blobs s' = ix_blobs s" using b s' by auto
    then show ?thesis using True by (auto simp: sq_blobs_def spec_index_blobs_def indexed_refs_def fun_eq_iff split: option.splits)
  next
    case False
    then obtain ch where ch: "hex_key (content_hash m) = Inr (Some ch)"
        "register_refs ch m (pa_path addr) now (blob_refs m) (ix_blobs s) = Inr (ix_blobs s')" using b s' by auto
    have "is_hex_ref (content_hash m)" "list_all is_hex_ref (blob_refs m)"
      using assms(3) False by (auto simp: indexable_def indexed_refs_def)
    moreover from this(1) obtain raw' where "content_hash m = hex_encode raw'" "raw' \<noteq> []" by (rule is_hex_refE)
    ultimately show ?thesis using index_tx_blobs [OF ch(2) _ _ False] ch(1) by auto
  qed
qed

subsection \<open>Deletion\<close>

definition lower :: "nat \<Rightarrow> blob_row \<Rightarrow> blob_row" where
  "lower n b = b \<lparr> br_ref_count := max 0 (br_ref_count b - int n) \<rparr>"

lemma lower_simps [simp]: "br_content_hash (lower n b) = br_content_hash b" "0 \<le> br_ref_count (lower n b)"
  "blob_view (lower n b) = blob_view b \<lparr> ib_refs := max 0 (ib_refs (blob_view b) - int n) \<rparr>"
  by (simp_all add: lower_def blob_view_def)

lemma fold_dec_ref:
  assumes "\<And>b. map_of t k = Some b \<Longrightarrow> 0 \<le> br_ref_count b"
  shows "map_of (fold dec_ref ks t) k = map_option (lower (count_list ks k)) (map_of t k)"
  using assms
proof (induction ks arbitrary: t)
  case Nil
  then show ?case by (cases "map_of t k") (simp_all add: lower_def)
next
  case (Cons k0 ks)
  have d: "map_of (dec_ref k0 t) k = map_option (lower (if k = k0 then 1 else 0)) (map_of t k)"
    using Cons.prems by (cases "map_of t k") (auto simp: dec_ref_def map_of_upd_key lower_def max_def)
  have "map_of (fold dec_ref ks (dec_ref k0 t)) k = map_option (lower (count_list ks k)) (map_of (dec_ref k0 t) k)"
    by (rule Cons.IH) (auto simp: d)
  then show ?case unfolding d by (cases "map_of t k") (auto simp: lower_def max_def)
qed

lemma fst_fold_dec_ref [simp]: "map fst (fold dec_ref ks t) = map fst t"
  by (induction ks arbitrary: t) (simp_all add: dec_ref_def)

lemma delete_tx_okE:
  assumes "delete_manifest_tx d s = Inr s'"
  obtains (absent) "s' = s" "\<And>dg. hex_key d = Inr (Some dg) \<Longrightarrow> map_of (ix_manifests s) dg = None"
  | (gone) dg row where "hex_key d = Inr (Some dg)" "map_of (ix_manifests s) dg = Some row"
      "s' = s \<lparr> ix_blobs := fold dec_ref (edges_of dg s) (ix_blobs s),
                ix_manifest_blobs := filter (\<lambda>e. fst (fst e) \<noteq> dg) (ix_manifest_blobs s),
                ix_manifest_handles := filter (\<lambda>e. fst (fst e) \<noteq> dg) (ix_manifest_handles s),
                ix_manifests := AList.delete dg (ix_manifests s), ix_csn := ix_csn s + 1, ix_prune_csn := ix_csn s + 1 \<rparr>"
proof (cases "hex_key d")
  case (Inl e)
  then show thesis using assms by (simp add: delete_manifest_tx_def)
next
  case (Inr k)
  show thesis
  proof (cases k)
    case None
    then show thesis using assms Inr by (intro absent) (auto simp: delete_manifest_tx_def)
  next
    case (Some dg)
    show thesis
    proof (cases "map_of (ix_manifests s) dg")
      case None
      then show thesis using assms Inr Some by (intro absent) (auto simp: delete_manifest_tx_def)
    next
      case (Some row)
      then show thesis
        using assms Inr \<open>k = Some dg\<close>
        by (intro gone [of dg row]) (auto simp: delete_manifest_tx_def Let_def next_csn_def split: option.splits)
    qed
  qed
qed

lemma edges_after_drop:
  assumes "ix_manifest_blobs s' = filter (\<lambda>e. fst (fst e) \<noteq> dg) (ix_manifest_blobs s)"
  shows "edges_of d s' = (if d = dg then [] else edges_of d s)"
    and "filter (\<lambda>e. fst (fst e) = d) (ix_manifest_blobs s')
      = (if d = dg then [] else filter (\<lambda>e. fst (fst e) = d) (ix_manifest_blobs s))"
  using assms by (auto simp: edges_of_def filter_empty_conv intro!: arg_cong [where f = "map snd"] filter_cong)

lemma delete_tx_wf:
  assumes wf: "index_wf s" and tx: "delete_manifest_tx d s = Inr s'"
  shows "index_wf s'"
  using tx
proof (cases rule: delete_tx_okE)
  case absent
  then show ?thesis using wf by simp
next
  case (gone dg row)
  note f = index_wfI_fields [OF wf]
  have eq: "ix_blobs s' = fold dec_ref (edges_of dg s) (ix_blobs s)" "ix_manifests s' = AList.delete dg (ix_manifests s)"
      "ix_manifest_blobs s' = filter (\<lambda>e. fst (fst e) \<noteq> dg) (ix_manifest_blobs s)" "ix_csn s' = ix_csn s + 1" "ix_down s' = ix_down s"
    using gone(3) by simp_all
  note e = edges_after_drop [OF eq(3)]
  have b: "map_of (ix_blobs s') k = map_option (lower (count_list (edges_of dg s) k)) (map_of (ix_blobs s) k)" for k
    unfolding eq(1) by (rule fold_dec_ref) (use f(3) in blast)
  have "filter (\<lambda>e. fst (fst e) = d') (ix_manifest_blobs s) = map (\<lambda>(i, k). ((d', i), k)) (enumerate 0 (edges_of d' s))" for d'
    using wf unfolding index_wf_def by blast
  then have 1: "\<forall>d'. filter (\<lambda>e. fst (fst e) = d') (ix_manifest_blobs s') = map (\<lambda>(i, k). ((d', i), k)) (enumerate 0 (edges_of d' s'))"
    by (simp add: e)
  have 2: "\<forall>k b. map_of (ix_blobs s') k = Some b \<longrightarrow> k \<noteq> [] \<and> br_content_hash b \<noteq> [] \<and> 0 \<le> br_ref_count b"
    using f(3) by (auto simp: b)
  have 3: "\<forall>d' r. map_of (ix_manifests s') d' = Some r \<longrightarrow> d' \<noteq> [] \<and> mr_csn r \<le> ix_csn s'"
    using f(4) by (auto simp: eq delete_conv split: if_splits intro: le_SucI)
  have 4: "distinct (map fst (ix_manifests s'))" "distinct (map fst (ix_blobs s'))"
    using f(1,2) by (simp_all add: eq)
  show ?thesis
    unfolding index_wf_def using 1 2 3 4 f(5,6,7) by (auto simp: e(1) eq(2,5) delete_conv)
qed

lemma delete_tx_view:
  assumes wf: "index_wf s" and tx: "delete_manifest_tx d s = Inr s'" and d: "is_hex_ref d"
  shows "sq_manifests s' = (sq_manifests s)(d := None)
    \<and> sq_blobs s' = (case sq_manifests s d of None \<Rightarrow> sq_blobs s | Some r \<Rightarrow> spec_delete_blobs (im_refs r) (sq_blobs s))"
proof -
  obtain raw where raw: "d = hex_encode raw" "raw \<noteq> []" using d is_hex_refE by blast
  show ?thesis
    using tx
  proof (cases rule: delete_tx_okE)
    case absent
    then have "sq_manifests s d = None" using raw by simp
    then show ?thesis using absent(1) by (simp add: fun_upd_idem)
  next
    case (gone dg row)
    then have dg: "dg = raw" using raw by simp
    note f = index_wfI_fields [OF wf]
    have eq: "ix_blobs s' = fold dec_ref (edges_of dg s) (ix_blobs s)" "ix_manifests s' = AList.delete dg (ix_manifests s)"
        "ix_manifest_blobs s' = filter (\<lambda>e. fst (fst e) \<noteq> dg) (ix_manifest_blobs s)"
      using gone(3) by simp_all
    have b: "map_of (ix_blobs s') k = map_option (lower (count_list (edges_of dg s) k)) (map_of (ix_blobs s) k)" for k
      unfolding eq(1) by (rule fold_dec_ref) (use f(3) in blast)
    have c: "count_list (map hex_encode ks) (hex_encode k) = count_list ks k" for ks k by (induction ks) simp_all
    have "sq_manifests s' = (sq_manifests s)(d := None)"
    proof (rule sq_manifests_eqI)
      fix k :: key
      assume "k \<noteq> []"
      then show "sq_manifests s' (hex_encode k) = ((sq_manifests s)(d := None)) (hex_encode k)"
        using edges_after_drop(1) [OF eq(3), of k] row_view_cong [of k s' s]
        by (cases "k = dg") (simp_all add: raw(1) dg eq(2) delete_conv)
    qed simp
    moreover have "sq_blobs s' = spec_delete_blobs (map hex_encode (edges_of dg s)) (sq_blobs s)"
    proof (rule sq_blobs_eqI)
      fix k :: key
      assume "k \<noteq> []"
      then show "sq_blobs s' (hex_encode k) = spec_delete_blobs (map hex_encode (edges_of dg s)) (sq_blobs s) (hex_encode k)"
        by (simp add: spec_delete_blobs_def b c option.map_comp comp_def)
    qed (simp add: spec_delete_blobs_def)
    ultimately show ?thesis using gone raw dg by (simp add: row_view_def)
  qed
qed

subsection \<open>The index contract\<close>

lemma hex_key_canonical: "is_hex_ref d \<Longrightarrow> \<exists>k. d = hex_encode k \<and> k \<noteq> [] \<and> hex_key d = Inr (Some k)"
  using is_hex_refE [of d] hex_key_ref by metis

lemma freshest_None [simp]: "freshest rs = None \<longleftrightarrow> rs = []"
  by (cases rs) (auto split: option.splits)

lemma freshest_Some: "freshest rs = Some r \<Longrightarrow> r \<in> set rs \<and> (\<forall>r' \<in> set rs. mr_csn (snd r') \<le> mr_csn (snd r))"
proof (induction rs arbitrary: r)
  case (Cons a rs)
  then show ?case by (cases "freshest rs") (fastforce split: if_splits)+
qed simp

lemma sq_manifests_Some:
  assumes "index_wf s"
  shows "sq_manifests s d = Some rw \<longleftrightarrow> (\<exists>k r. d = hex_encode k \<and> (k, r) \<in> set (ix_manifests s) \<and> rw = row_view s k r)"
proof
  assume "sq_manifests s d = Some rw"
  moreover from this have "is_hex_ref d" by (rule contrapos_pp) (simp)
  ultimately show "\<exists>k r. d = hex_encode k \<and> (k, r) \<in> set (ix_manifests s) \<and> rw = row_view s k r"
    using hex_key_canonical [of d] by (auto dest!: map_of_SomeD)
next
  assume "\<exists>k r. d = hex_encode k \<and> (k, r) \<in> set (ix_manifests s) \<and> rw = row_view s k r"
  then obtain k r where k: "d = hex_encode k" "(k, r) \<in> set (ix_manifests s)" "rw = row_view s k r" by blast
  then have "map_of (ix_manifests s) k = Some r" using index_wfI_fields(2) [OF assms] by simp
  then show "sq_manifests s d = Some rw" using k index_wfI_fields(4) [OF assms, of k r] by simp
qed

lemma sq_blobs_Some:
  assumes "index_wf s"
  shows "sq_blobs s d = Some b \<longleftrightarrow> (\<exists>k r. d = hex_encode k \<and> (k, r) \<in> set (ix_blobs s) \<and> b = blob_view r)"
proof
  assume "sq_blobs s d = Some b"
  moreover from this have "is_hex_ref d" by (rule contrapos_pp) (simp)
  ultimately show "\<exists>k r. d = hex_encode k \<and> (k, r) \<in> set (ix_blobs s) \<and> b = blob_view r"
    using hex_key_canonical [of d] by (auto dest!: map_of_SomeD)
next
  assume "\<exists>k r. d = hex_encode k \<and> (k, r) \<in> set (ix_blobs s) \<and> b = blob_view r"
  then obtain k r where k: "d = hex_encode k" "(k, r) \<in> set (ix_blobs s)" "b = blob_view r" by blast
  then have "map_of (ix_blobs s) k = Some r" using index_wfI_fields(1) [OF assms] by simp
  then show "sq_blobs s d = Some b" using k index_wfI_fields(3) [OF assms, of k r] by simp
qed

lemma in_tx_cases:
  assumes "in_tx op f s = (r, s')"
  obtains (committed) "r = Inr ()" "f s = Inr s'" "ix_down s op = None" | (failed) e where "r = Inl e" "s' = s"
  using assms by (auto simp: in_tx_def split: option.splits sum.splits)

lemma query_Inr [simp]: "query op s r = Inr x \<longleftrightarrow> ix_down s op = None \<and> r = Inr x"
  by (simp add: query_def split: option.splits)

lemma delete_orphan_wf:
  assumes "index_wf s"
  shows "index_wf (snd (delete_orphan_blob r s))"
proof -
  have "index_wf (s \<lparr> ix_blobs := AList.delete k (ix_blobs s) \<rparr>)" for k
    using assms by (auto simp: index_wf_def delete_conv edges_of_def)
  then show ?thesis using assms by (auto simp: delete_orphan_blob_def split: option.splits sum.splits)
qed

lemma content_lookup:
  assumes "index_wf s" "is_hex_ref h" "exists_by_content h n c s = Inr x"
  shows "case x of Some r \<Rightarrow> \<exists>b. sq_blobs s r = Some b \<and> ib_content b = h \<and> ib_size b = n \<and> ib_crypto b = c
         | None \<Rightarrow> \<forall>r b. sq_blobs s r = Some b \<longrightarrow> \<not> (ib_content b = h \<and> ib_size b = n \<and> ib_crypto b = c)"
proof -
  obtain k where k: "h = hex_encode k" "hex_key h = Inr (Some k)" using hex_key_canonical [OF assms(2)] by blast
  let ?P = "\<lambda>(k', r). br_content_hash r = k \<and> br_original_size r = n \<and> br_crypto_identity r = c"
  show ?thesis
  proof (cases "filter ?P (ix_blobs s)")
    case Nil
    then have "x = None" using assms(3) k by (simp add: exists_by_content_def)
    then show ?thesis using Nil k(1) by (auto simp: sq_blobs_Some [OF assms(1)] blob_view_def filter_empty_conv)
  next
    case (Cons r rs)
    obtain k' b where r: "r = (k', b)" by (cases r)
    have "r \<in> set (filter ?P (ix_blobs s))" unfolding Cons by simp
    then have b: "(k', b) \<in> set (ix_blobs s)" "br_content_hash b = k" "br_original_size b = n" "br_crypto_identity b = c"
      by (simp_all add: r)
    then have "sq_blobs s (hex_encode k') = Some (blob_view b)" using sq_blobs_Some [OF assms(1)] by blast
    moreover have "x = Some (hex_encode k')" using assms(3) k(2) Cons by (simp add: exists_by_content_def r)
    ultimately show ?thesis using b k(1) by (simp add: blob_view_def)
  qed
qed

lemma digest_lookup:
  assumes "index_wf s" "resolve_manifest_digest a s = Inr x"
  shows "case x of Some d \<Rightarrow> \<exists>r. sq_manifests s d = Some r \<and> im_aid r = Some a
            \<and> (\<forall>d' r'. sq_manifests s d' = Some r' \<and> im_aid r' = Some a \<longrightarrow> im_order r' \<le> im_order r)
         | None \<Rightarrow> \<forall>d r. sq_manifests s d = Some r \<longrightarrow> im_aid r \<noteq> Some a"
proof -
  let ?F = "filter (\<lambda>r. mr_artifact_id (snd r) = Some a) (ix_manifests s)"
  have x: "x = map_option (\<lambda>r. hex_encode (fst r)) (freshest ?F)" using assms(2) by (simp add: resolve_manifest_digest_def)
  show ?thesis
  proof (cases "freshest ?F")
    case None
    then show ?thesis using x by (auto simp: sq_manifests_Some [OF assms(1)] row_view_def filter_empty_conv)
  next
    case (Some r)
    note fr = freshest_Some [OF Some]
    have "sq_manifests s (hex_encode (fst r)) = Some (row_view s (fst r) (snd r))"
      unfolding sq_manifests_Some [OF assms(1)] using fr by (intro exI [of _ "fst r"] exI [of _ "snd r"]) simp
    moreover have "im_order r' \<le> mr_csn (snd r)" if "sq_manifests s d' = Some r'" "im_aid r' = Some a" for d' r'
      using that fr unfolding sq_manifests_Some [OF assms(1)] by (force simp: row_view_def)
    ultimately show ?thesis using x Some fr by (auto simp: row_view_def)
  qed
qed

lemma session_lookup:
  assumes "index_wf s" "get_by_session sid s = Inr ids"
  shows "set ids = {a. \<exists>d r. sq_manifests s d = Some r \<and> im_session r = sid \<and> im_aid r = Some a}"
proof -
  have "ids = List.map_filter (\<lambda>r. if mr_session_id (snd r) = sid then mr_artifact_id (snd r) else None) (ix_manifests s)"
    using assms(2) by (simp add: get_by_session_def)
  then have "a \<in> set ids \<longleftrightarrow> (\<exists>k r. (k, r) \<in> set (ix_manifests s) \<and> mr_session_id r = sid \<and> mr_artifact_id r = Some a)" for a
    by (auto simp: map_filter_def image_iff split: if_splits) (metis option.sel)+
  then show ?thesis by (fastforce simp: sq_manifests_Some [OF assms(1)] row_view_def)
qed

lemma orphan_listing:
  assumes "index_wf s" "list_orphan_blobs s = Inr rs"
  shows "distinct rs \<and> set rs = {r. \<exists>b. sq_blobs s r = Some b \<and> ib_refs b = 0}"
proof -
  have rs: "rs = map hex_encode (sort (map fst (filter (\<lambda>r. br_ref_count (snd r) = 0) (ix_blobs s))))"
    using assms(2) by (simp add: list_orphan_blobs_def)
  have "distinct (map fst (filter (\<lambda>r. br_ref_count (snd r) = 0) (ix_blobs s)))"
    using index_wfI_fields(1) [OF assms(1)] by (simp add: distinct_map_filter)
  then have "distinct rs" unfolding rs distinct_map [of hex_encode] by (simp add: inj_on_def)
  moreover have "set rs = {r. \<exists>b. sq_blobs s r = Some b \<and> ib_refs b = 0}"
    by (force simp: rs sq_blobs_Some [OF assms(1)] blob_view_def)
  ultimately show ?thesis by blast
qed

lemma orphan_drop:
  assumes "index_wf s" "is_hex_ref r" "delete_orphan_blob r s = (Inr x, s')"
  shows "sq_manifests s' = sq_manifests s \<and> x = (\<exists>b. sq_blobs s r = Some b \<and> ib_refs b = 0)
    \<and> sq_blobs s' = (if x then (sq_blobs s)(r := None) else sq_blobs s)"
proof -
  obtain k where k: "r = hex_encode k" "k \<noteq> []" "hex_key r = Inr (Some k)" using hex_key_canonical [OF assms(2)] by blast
  show ?thesis
  proof (cases "\<exists>b. map_of (ix_blobs s) k = Some b \<and> br_ref_count b = 0")
    case True
    then have s': "s' = s \<lparr> ix_blobs := AList.delete k (ix_blobs s) \<rparr>" "x"
      using assms(3) k(3) by (auto simp: delete_orphan_blob_def split: option.splits)
    have "sq_blobs s' = (sq_blobs s)(r := None)"
      by (rule sq_blobs_eqI) (auto simp: s' delete_conv k(1))
    moreover have "sq_manifests s' = sq_manifests s"
      by (rule sq_manifests_eqI) (simp_all add: s'(1) row_view_def [abs_def] edges_of_def)
    ultimately show ?thesis using True s'(2) k by (auto simp: blob_view_def)
  next
    case False
    then have "s' = s" "\<not> x" using assms(3) k(3) by (auto simp: delete_orphan_blob_def split: option.splits if_splits)
    then show ?thesis using False k by (auto simp: blob_view_def)
  qed
qed

text \<open>The SQLite backend keeps the index contract, whatever fails and whatever a custom index vetoes.\<close>

interpretation sqx: index_laws sqlite_index sq_manifests sq_blobs index_wf
proof
  fix i :: index_state and d rw assume "index_wf i" "sq_manifests i d = Some rw"
  then show "is_hex_ref d" by (metis sq_none(1) option.distinct(1))
next
  fix i :: index_state and k b assume "index_wf i" "sq_blobs i k = Some b"
  then show "is_hex_ref k" by (metis sq_none(2) option.distinct(1))
next
  fix i i' :: index_state and m addr now u
  assume a: "index_wf i" "indexable m" "\<And>r. sq_manifests i (digest m) = Some r \<Longrightarrow> im_refs r = indexed_refs m"
    "si_index_manifest sqlite_index m addr now i = (Inr u, i')"
  have tx: "index_manifest_tx m addr now i = Inr i'"
    using a(4) by (auto simp: index_manifest_def in_tx_def split: option.splits sum.splits)
  have "im_order r < ix_csn i + 1" if "sq_manifests i d = Some r" for d r
    using that index_wfI_fields(2,4) [OF a(1)] unfolding sq_manifests_Some [OF a(1)] by (force simp: row_view_def)
  then show "(\<exists>n. (\<forall>d r. sq_manifests i d = Some r \<longrightarrow> im_order r < n) \<and> sq_manifests i' = spec_index_rows m n (sq_manifests i))
      \<and> sq_blobs i' = spec_index_blobs m (pa_path addr) (sq_blobs i)"
    using index_tx_view [OF a(1) tx a(2,3)] by blast
next
  fix i i' :: index_state and m addr now e
  assume "si_index_manifest sqlite_index m addr now i = (Inl e, i')"
  then show "sq_manifests i' = sq_manifests i \<and> sq_blobs i' = sq_blobs i"
    by (auto simp: index_manifest_def elim!: in_tx_cases)
next
  fix i i' :: index_state and d u
  assume a: "index_wf i" "is_hex_ref d" "si_delete_manifest sqlite_index d i = (Inr u, i')"
  then have "delete_manifest_tx d i = Inr i'" by (auto simp: delete_manifest_def elim!: in_tx_cases)
  then show "sq_manifests i' = (sq_manifests i)(d := None)
      \<and> sq_blobs i' = (case sq_manifests i d of None \<Rightarrow> sq_blobs i | Some r \<Rightarrow> spec_delete_blobs (im_refs r) (sq_blobs i))"
    using delete_tx_view a by blast
next
  fix i i' :: index_state and d e
  assume "si_delete_manifest sqlite_index d i = (Inl e, i')"
  then show "sq_manifests i' = sq_manifests i \<and> sq_blobs i' = sq_blobs i"
    by (auto simp: delete_manifest_def elim!: in_tx_cases)
next
  fix i :: index_state and r ad
  assume a: "index_wf i" "is_hex_ref r" "si_resolve sqlite_index r i = Inr ad"
  then show "\<exists>b. sq_blobs i r = Some b \<and> pa_path ad = ib_path b"
    using hex_key_canonical [OF a(2)] by (auto simp: index_resolve_def lookup_key_def path_address_def blob_view_def split: option.splits)
next
  fix i :: index_state and r
  assume a: "index_wf i" "is_hex_ref r" "si_resolve sqlite_index r i = Inl ErrArtifactNotFound"
  then show "sq_blobs i r = None"
    using hex_key_canonical [OF a(2)] index_wfI_fields(7) [OF a(1), of "''Resolve''"]
    by (auto simp: index_resolve_def lookup_key_def query_def split: option.splits)
next
  fix i :: index_state and a d
  assume "index_wf i" "si_resolve_manifest_digest sqlite_index a i = Inr (Some d)"
  then show "\<exists>r. sq_manifests i d = Some r \<and> im_aid r = Some a
      \<and> (\<forall>d' r'. sq_manifests i d' = Some r' \<and> im_aid r' = Some a \<longrightarrow> im_order r' \<le> im_order r)"
    using digest_lookup [of i a "Some d"] by simp
next
  fix i :: index_state and a d rw
  assume "index_wf i" "si_resolve_manifest_digest sqlite_index a i = Inr None" "sq_manifests i d = Some rw"
  then show "im_aid rw \<noteq> Some a" using digest_lookup [of i a None] by simp
next
  fix i :: index_state and d x
  assume a: "index_wf i" "is_hex_ref d" "si_manifest_exists_by_digest sqlite_index d i = Inr x"
  then show "x = (sq_manifests i d \<noteq> None)"
    using hex_key_canonical [OF a(2)] by (auto simp: manifest_exists_by_digest_def lookup_key_def)
next
  fix i :: index_state and h sz c r
  assume "index_wf i" "is_hex_ref h" "si_exists_by_content sqlite_index h sz c i = Inr (Some r)"
  then show "\<exists>b. sq_blobs i r = Some b \<and> ib_content b = h \<and> ib_size b = sz \<and> ib_crypto b = c"
    using content_lookup [of i h sz c "Some r"] by simp
next
  fix i :: index_state and h sz c r b
  assume "index_wf i" "is_hex_ref h" "si_exists_by_content sqlite_index h sz c i = Inr None" "sq_blobs i r = Some b"
  then show "\<not> (ib_content b = h \<and> ib_size b = sz \<and> ib_crypto b = c)"
    using content_lookup [of i h sz c None] by simp
qed (use session_lookup orphan_listing orphan_drop delete_orphan_wf in
    \<open>auto simp: index_manifest_def delete_manifest_def in_tx_def delete_orphan_blob_def split: option.splits sum.splits if_splits
       intro: index_tx_wf delete_tx_wf\<close>)

text \<open>With the database up and no custom index objecting, its operations succeed.\<close>

definition index_rel :: "index_state \<Rightarrow> bool" where
  "index_rel s = (index_wf s \<and> ix_down s = (\<lambda>_. None) \<and> ix_veto_index s = (\<lambda>_. None) \<and> ix_veto_delete s = (\<lambda>_ _. None))"

lemma register_refs_ok: "list_all is_hex_ref rs \<Longrightarrow> \<exists>t'. register_refs ch m p now rs t = Inr t'"
proof (induction rs arbitrary: t)
  case (Cons r rs)
  then show ?case using hex_key_canonical [of r] by auto
qed simp

lemma link_blobs_ok: "list_all is_hex_ref rs \<Longrightarrow> \<exists>t'. link_blobs dg pos rs t = Inr t'"
proof (induction rs arbitrary: pos t)
  case (Cons r rs)
  then show ?case using hex_key_canonical [of r] by auto
qed simp

lemma insert_manifest_row_ok:
  assumes "indexable m"
  shows "\<exists>ms. insert_manifest_row m now t = Inr ms"
proof -
  obtain dg where dg: "hex_key (digest m) = Inr (Some dg)" using assms hex_key_canonical by (auto simp: indexable_def)
  have "\<exists>ref. hex_key (if blob_storage m \<noteq> layout_inline \<and> blob_refs m \<noteq> [] then hd (blob_refs m) else []) = Inr ref"
  proof (cases "blob_storage m \<noteq> layout_inline \<and> blob_refs m \<noteq> []")
    case True
    then have "is_hex_ref (hd (blob_refs m))" using assms by (cases "blob_refs m") (auto simp: indexable_def indexed_refs_def)
    then show ?thesis using hex_key_canonical True by fastforce
  next
    case False
    then show ?thesis by (auto simp: hex_key_def)
  qed
  then show ?thesis using dg by (auto simp: insert_manifest_row_def)
qed

lemma index_manifest_succeeds:
  assumes "index_rel s" "indexable m"
  shows "\<exists>s'. index_manifest m addr now s = (Inr (), s') \<and> index_rel s'"
proof -
  obtain dg where dg: "hex_key (digest m) = Inr (Some dg)" using assms(2) hex_key_canonical by (auto simp: indexable_def)
  obtain ms where ms: "insert_manifest_row m now (ix_manifests s) = Inr ms" using insert_manifest_row_ok [OF assms(2)] by blast
  have "\<exists>s1. index_blob_manifest m addr now s = Inr s1 \<and> ix_veto_index s1 = ix_veto_index s"
  proof (cases "blob_storage m = layout_inline")
    case True
    then show ?thesis using ms by (simp add: index_blob_manifest_def)
  next
    case False
    then have m: "blob_refs m \<noteq> []" "is_hex_ref (content_hash m)" "list_all is_hex_ref (blob_refs m)"
      using assms(2) by (auto simp: indexable_def indexed_refs_def)
    obtain ch where ch: "hex_key (content_hash m) = Inr (Some ch)" using hex_key_canonical [OF m(2)] by blast
    obtain bs mbs where "register_refs ch m (pa_path addr) now (blob_refs m) (ix_blobs s) = Inr bs"
        "link_blobs dg 0 (blob_refs m) (ix_manifest_blobs s) = Inr mbs"
      using register_refs_ok [OF m(3)] link_blobs_ok [OF m(3)] by blast
    then show ?thesis using False m(1) ch dg ms by (simp add: index_blob_manifest_def)
  qed
  then obtain s1 where s1: "index_blob_manifest m addr now s = Inr s1" "ix_veto_index s1 = (\<lambda>_. None)"
    using assms(1) by (auto simp: index_rel_def)
  then obtain s' where s': "index_manifest_tx m addr now s = Inr s'"
    using dg by (auto simp: index_manifest_tx_def Let_def)
  then have "ix_down s' = ix_down s" "ix_veto_index s' = ix_veto_index s" "ix_veto_delete s' = ix_veto_delete s"
    by (auto elim!: index_tx_okE)
  then show ?thesis using assms(1) s' index_tx_wf [OF _ s'] by (simp add: index_manifest_def in_tx_def index_rel_def)
qed

lemma delete_manifest_succeeds:
  assumes "index_rel s" "is_hex_ref d"
  shows "\<exists>s'. delete_manifest d s = (Inr (), s') \<and> index_rel s'"
proof -
  obtain dg where "hex_key d = Inr (Some dg)" using hex_key_canonical [OF assms(2)] by blast
  then have "\<exists>s'. delete_manifest_tx d s = Inr s'"
    using assms(1) by (cases "map_of (ix_manifests s) dg") (simp_all add: delete_manifest_tx_def Let_def next_csn_def index_rel_def)
  then obtain s' where s': "delete_manifest_tx d s = Inr s'" by blast
  then have "ix_down s' = ix_down s" "ix_veto_index s' = ix_veto_index s" "ix_veto_delete s' = ix_veto_delete s"
    by (auto elim!: delete_tx_okE)
  then show ?thesis using assms(1) s' delete_tx_wf [OF _ s'] by (simp add: delete_manifest_def in_tx_def index_rel_def)
qed

lemma index_rel_keep:
  assumes "index_rel s"
  shows "index_rel (snd (index_manifest m addr now s))" "index_rel (snd (delete_manifest d s))" "index_rel (snd (delete_orphan_blob r s))"
proof -
  show "index_rel (snd (index_manifest m addr now s))"
    using assms index_tx_wf [of s m addr now]
    by (cases "index_manifest_tx m addr now s") (auto simp: index_manifest_def in_tx_def index_rel_def elim!: index_tx_okE)
  show "index_rel (snd (delete_manifest d s))"
    using assms delete_tx_wf [of s d]
    by (cases "delete_manifest_tx d s") (auto simp: delete_manifest_def in_tx_def index_rel_def elim!: delete_tx_okE)
  show "index_rel (snd (delete_orphan_blob r s))"
    using assms delete_orphan_wf [of s r]
    by (auto simp: index_rel_def delete_orphan_blob_def split: sum.splits option.splits)
qed

interpretation rsqx: reliable_index sqlite_index sq_manifests sq_blobs index_wf index_rel
proof
  fix i :: index_state and r
  assume "index_rel i" "is_hex_ref r"
  then show "si_resolve sqlite_index r i = (case sq_blobs i r of None \<Rightarrow> Inl ErrArtifactNotFound
      | Some b \<Rightarrow> Inr \<lparr> pa_workspace = [], pa_path = ib_path b, pa_offset = 0, pa_size = 0 \<rparr>)"
    using hex_key_canonical [of r]
    by (auto simp: index_rel_def index_resolve_def query_def lookup_key_def path_address_def blob_view_def split: option.splits)
next
  fix i :: index_state and r
  assume "index_rel i" "is_hex_ref r"
  then show "\<exists>x. fst (si_delete_orphan_blob sqlite_index r i) = Inr x"
    using hex_key_canonical [of r] by (auto simp: index_rel_def delete_orphan_blob_def split: option.splits)
next
  fix i :: index_state and m addr now
  assume "index_rel i" "indexable m"
  then show "fst (si_index_manifest sqlite_index m addr now i) = Inr ()"
    using index_manifest_succeeds [of i m addr now] by auto
next
  fix i :: index_state and d
  assume "index_rel i" "is_hex_ref d"
  then show "fst (si_delete_manifest sqlite_index d i) = Inr ()"
    using delete_manifest_succeeds [of i d] by auto
next
  fix i :: index_state and d
  assume "index_rel i" "is_hex_ref d"
  then show "\<exists>x. si_manifest_exists_by_digest sqlite_index d i = Inr x"
    using hex_key_canonical [of d] by (auto simp: index_rel_def manifest_exists_by_digest_def lookup_key_def)
next
  fix i :: index_state and h sz c
  assume "index_rel i" "is_hex_ref h"
  then show "\<exists>x. si_exists_by_content sqlite_index h sz c i = Inr x"
    using hex_key_canonical [of h] by (auto simp: index_rel_def exists_by_content_def split: list.splits)
qed (simp_all add: index_rel_keep, simp_all add: index_rel_def resolve_manifest_digest_def get_by_session_def list_orphan_blobs_def)

end
