(* ===== verification/Index_Runs.thy ===== *)
theory Index_Runs
  imports Sqlite_Index
begin

text \<open>
  Histories of the SQLite index: registrations, deletions, collections, marks, resets and changes of the
  database's availability in any order.  Reference counts stay exact along them, and a change-feed
  consumer misses nothing.
\<close>

subsection \<open>Runs of the index\<close>

text \<open>Everything but registration and reset: these steps never add a reference.\<close>

inductive index_maint :: "index_state \<Rightarrow> index_state \<Rightarrow> bool" where
  maint_delete: "index_maint s (snd (delete_manifest d s))"
| maint_drop: "index_maint s (snd (delete_orphan_blob r s))"
| maint_mark: "index_maint s (snd (mark_verified r t s))"
| maint_mark_manifest: "index_maint s (snd (mark_manifest_verified i t s))"
| maint_faults: "(\<And>op. d op \<noteq> Some ErrArtifactNotFound) \<Longrightarrow>
    index_maint s (s \<lparr> ix_down := d, ix_veto_index := vi, ix_veto_delete := vd \<rparr>)"

definition fresh_index :: index_state where
  "fresh_index = \<lparr> ix_blobs = [], ix_manifests = [], ix_manifest_blobs = [], ix_manifest_handles = [], ix_csn = 0, ix_prune_csn = 0,
     ix_down = (\<lambda>_. None), ix_veto_index = (\<lambda>_. None), ix_veto_delete = (\<lambda>_ _. None) \<rparr>"

text \<open>The histories in which no manifest file is registered while its row is still there.\<close>

inductive index_reachable :: "index_state \<Rightarrow> bool" where
  reach_fresh: "index_reachable fresh_index"
| reach_register: "index_reachable s \<Longrightarrow> (\<And>dg. hex_key (digest m) = Inr (Some dg) \<Longrightarrow> map_of (ix_manifests s) dg = None) \<Longrightarrow>
    index_reachable (snd (index_manifest m addr now s))"
| reach_maint: "index_reachable s \<Longrightarrow> index_maint s s' \<Longrightarrow> index_reachable s'"
| reach_reset: "index_reachable s \<Longrightarrow> index_reachable (snd (reset_index kb s))"

text \<open>The histories a change-feed consumer follows: no reset.\<close>

inductive index_moves :: "index_state \<Rightarrow> index_state \<Rightarrow> bool" where
  moves_refl: "index_moves s s"
| moves_register: "index_moves s s' \<Longrightarrow> index_moves s (snd (index_manifest m addr now s'))"
| moves_maint: "index_moves s s' \<Longrightarrow> index_maint s' s'' \<Longrightarrow> index_moves s s''"

definition edge_keys :: "index_state \<Rightarrow> key list" where
  "edge_keys s = map snd (ix_manifest_blobs s)"

definition refs_exact :: "index_state \<Rightarrow> bool" where
  "refs_exact s = (\<forall>k. case map_of (ix_blobs s) k of
      Some b \<Rightarrow> br_ref_count b = int (count_list (edge_keys s) k)
    | None \<Rightarrow> k \<notin> set (edge_keys s))"

lemma refs_exact_cong:
  assumes "refs_exact s" "ix_manifest_blobs s' = ix_manifest_blobs s"
    and "\<And>k. map_option br_ref_count (map_of (ix_blobs s') k) = map_option br_ref_count (map_of (ix_blobs s) k)"
  shows "refs_exact s'"
  unfolding refs_exact_def
proof
  fix k
  show "case map_of (ix_blobs s') k of Some b \<Rightarrow> br_ref_count b = int (count_list (edge_keys s') k) | None \<Rightarrow> k \<notin> set (edge_keys s')"
    using assms(1) [unfolded refs_exact_def, rule_format, of k] assms(2) assms(3) [of k]
    by (cases "map_of (ix_blobs s') k"; cases "map_of (ix_blobs s) k") (simp_all add: edge_keys_def)
qed

lemma edge_keys_split: "count_list (edge_keys s) k = count_list (edges_of dg s) k
    + count_list (map snd (filter (\<lambda>e. fst (fst e) \<noteq> dg) (ix_manifest_blobs s))) k"
proof -
  have "count_list (map snd es) k = count_list (map snd (filter P es)) k + count_list (map snd (filter (\<lambda>e. \<not> P e) es)) k"
    for P and es :: "((key \<times> nat) \<times> key) list" by (induction es) auto
  then show ?thesis unfolding edge_keys_def edges_of_def by blast
qed

lemma index_tx_refs:
  assumes "index_wf s" "refs_exact s" "index_manifest_tx m addr now s = Inr s'"
    and fresh: "\<And>dg. hex_key (digest m) = Inr (Some dg) \<Longrightarrow> map_of (ix_manifests s) dg = None"
  shows "refs_exact s'"
  using assms(3)
proof (rule index_tx_okE)
  fix dg bs ms mbs
  assume d: "not_null (hex_key (digest m)) = Inr dg"
    and b: "blob_storage m = layout_inline \<and> bs = ix_blobs s \<and> mbs = ix_manifest_blobs s
     \<or> blob_storage m \<noteq> layout_inline \<and> (\<exists>ch. hex_key (content_hash m) = Inr (Some ch) \<and> ch \<noteq> []
          \<and> register_refs ch m (pa_path addr) now (blob_refs m) (ix_blobs s) = Inr bs)
        \<and> link_blobs dg 0 (blob_refs m) (ix_manifest_blobs s) = Inr mbs"
    and s': "s' = s \<lparr> ix_blobs := bs, ix_manifests := upd_key dg (\<lambda>r. r \<lparr> mr_csn := ix_csn s + 1 \<rparr>) ms, ix_manifest_blobs := mbs,
            ix_manifest_handles := link_handles dg 0 (handle_refs m) (ix_manifest_handles s), ix_csn := ix_csn s + 1 \<rparr>"
  show "refs_exact s'"
  proof (cases "blob_storage m = layout_inline")
    case True
    then show ?thesis using b by (intro refs_exact_cong [OF assms(2)]) (simp_all add: s')
  next
    case False
    then obtain ch where ch: "register_refs ch m (pa_path addr) now (blob_refs m) (ix_blobs s) = Inr bs"
        and l: "link_blobs dg 0 (blob_refs m) (ix_manifest_blobs s) = Inr mbs" using b by blast
    have e: "edges_of dg s = []"
      using fresh not_null_hexD [OF d] index_wfI_fields(5) [OF assms(1)] by blast
    then have "\<forall>i \<ge> 0. (map_of (ix_manifest_blobs s) (dg, i) = None) = (0 \<le> i)" by (simp add: map_of_edge_key [OF assms(1)])
    from link_blobs_spec [OF l this]
    have k: "edge_keys s' = edge_keys s @ ref_keys (blob_refs m)" by (simp add: edge_keys_def s' comp_def case_prod_beta)
    have bs: "ix_blobs s' = bs" by (simp add: s')
    show ?thesis
      unfolding refs_exact_def
    proof
      fix x
      show "case map_of (ix_blobs s') x of Some b \<Rightarrow> br_ref_count b = int (count_list (edge_keys s') x) | None \<Rightarrow> x \<notin> set (edge_keys s')"
        using register_refs_spec [OF ch, of x] assms(2) [unfolded refs_exact_def, rule_format, of x]
        by (cases "map_of (ix_blobs s) x") (simp_all add: k bs bump_def fresh_blob_def)
    qed
  qed
qed

lemma delete_tx_refs:
  assumes "index_wf s" "refs_exact s" "delete_manifest_tx d s = Inr s'"
  shows "refs_exact s'"
  using assms(3)
proof (cases rule: delete_tx_okE)
  case absent
  then show ?thesis using assms(2) by simp
next
  case (gone dg row)
  have bs: "ix_blobs s' = fold dec_ref (edges_of dg s) (ix_blobs s)"
      "edge_keys s' = map snd (filter (\<lambda>e. fst (fst e) \<noteq> dg) (ix_manifest_blobs s))"
    using gone(3) by (simp_all add: edge_keys_def)
  have b: "map_of (ix_blobs s') k = map_option (lower (count_list (edges_of dg s) k)) (map_of (ix_blobs s) k)" for k
    unfolding bs(1) by (rule fold_dec_ref) (use index_wfI_fields(3) [OF assms(1)] in blast)
  have sub: "set (edge_keys s') \<subseteq> set (edge_keys s)" unfolding bs(2) by (auto simp: edge_keys_def)
  show ?thesis
    unfolding refs_exact_def
  proof
    fix k
    show "case map_of (ix_blobs s') k of Some b \<Rightarrow> br_ref_count b = int (count_list (edge_keys s') k) | None \<Rightarrow> k \<notin> set (edge_keys s')"
      using assms(2) [unfolded refs_exact_def, rule_format, of k] sub edge_keys_split [of s k dg]
      by (cases "map_of (ix_blobs s) k") (auto simp: b bs(2) lower_def)
  qed
qed

lemma mark_fields:
  "ix_manifest_blobs (snd (mark_verified r t s)) = ix_manifest_blobs s" "ix_manifests (snd (mark_verified r t s)) = ix_manifests s"
  "ix_csn (snd (mark_verified r t s)) = ix_csn s" "ix_prune_csn (snd (mark_verified r t s)) = ix_prune_csn s"
  "ix_down (snd (mark_verified r t s)) = ix_down s"
  "map fst (ix_blobs (snd (mark_verified r t s))) = map fst (ix_blobs s)"
  "map_option (br_last_verified_update (\<lambda>_. None)) (map_of (ix_blobs (snd (mark_verified r t s))) k)
     = map_option (br_last_verified_update (\<lambda>_. None)) (map_of (ix_blobs s) k)"
  "ix_manifest_blobs (snd (mark_manifest_verified i t s)) = ix_manifest_blobs s"
  "ix_blobs (snd (mark_manifest_verified i t s)) = ix_blobs s"
  "ix_csn (snd (mark_manifest_verified i t s)) = ix_csn s" "ix_prune_csn (snd (mark_manifest_verified i t s)) = ix_prune_csn s"
  "ix_down (snd (mark_manifest_verified i t s)) = ix_down s"
  "map fst (ix_manifests (snd (mark_manifest_verified i t s))) = map fst (ix_manifests s)"
  "map_option (mr_last_verified_update (\<lambda>_. None)) (map_of (ix_manifests (snd (mark_manifest_verified i t s))) k')
     = map_option (mr_last_verified_update (\<lambda>_. None)) (map_of (ix_manifests s) k')"
  by (auto simp: mark_verified_def mark_manifest_verified_def in_tx_def map_of_upd_key map_of_upd_where option.map_comp comp_def
      intro!: option.map_cong0 split: option.splits sum.splits)

text \<open>Erasing a field that no invariant mentions.\<close>

lemma erased_eq:
  "map_option (br_last_verified_update (\<lambda>_. None)) x = map_option (br_last_verified_update (\<lambda>_. None)) y \<Longrightarrow>
     map_option br_ref_count x = map_option br_ref_count y \<and> map_option br_content_hash x = map_option br_content_hash y"
  "map_option (mr_last_verified_update (\<lambda>_. None)) x' = map_option (mr_last_verified_update (\<lambda>_. None)) y' \<Longrightarrow>
     map_option mr_csn x' = map_option mr_csn y'"
  by (cases x; cases y; auto elim: blob_row.cases dest: arg_cong [where f = br_ref_count] arg_cong [where f = br_content_hash])
     (cases x'; cases y'; auto dest: arg_cong [where f = mr_csn])

lemma mark_wf:
  assumes "index_wf s"
  shows "index_wf (snd (mark_verified r t s))" "index_wf (snd (mark_manifest_verified i t s))"
proof -
  let ?s = "snd (mark_verified r t s)" and ?m = "snd (mark_manifest_verified i t s)"
  note w = assms [unfolded index_wf_def]
  have "k \<noteq> [] \<and> br_content_hash b \<noteq> [] \<and> 0 \<le> br_ref_count b" if "map_of (ix_blobs ?s) k = Some b" for k b
    using that erased_eq(1) [OF mark_fields(7), of r t s k] index_wfI_fields(3) [OF assms, of k] by (cases "map_of (ix_blobs s) k") auto
  moreover have "distinct (map fst (ix_blobs ?s))" using w by (simp add: mark_fields(6))
  moreover have "edges_of dg ?s = edges_of dg s" for dg by (rule edges_cong) (rule mark_fields(1))
  ultimately show "index_wf ?s" unfolding index_wf_def using w by (simp add: mark_fields(1-5))
  have "dg \<noteq> [] \<and> mr_csn b \<le> ix_csn s" if "map_of (ix_manifests ?m) dg = Some b" for dg b
    using that erased_eq(2) [OF mark_fields(14), of i t s dg] index_wfI_fields(4) [OF assms, of dg] by (cases "map_of (ix_manifests s) dg") auto
  moreover have "(map_of (ix_manifests ?m) dg = None) = (map_of (ix_manifests s) dg = None)" for dg
    using erased_eq(2) [OF mark_fields(14), of i t s dg] by (cases "map_of (ix_manifests s) dg"; cases "map_of (ix_manifests ?m) dg") auto
  moreover have "distinct (map fst (ix_manifests ?m))" using w by (simp add: mark_fields(13))
  moreover have "edges_of dg ?m = edges_of dg s" for dg by (rule edges_cong) (rule mark_fields(8))
  ultimately show "index_wf ?m" unfolding index_wf_def using w by (simp add: mark_fields(8-12))
qed

lemma mark_refs:
  assumes "refs_exact s"
  shows "refs_exact (snd (mark_verified r t s))" "refs_exact (snd (mark_manifest_verified i t s))"
  by (rule refs_exact_cong [OF assms]; simp add: mark_fields erased_eq(1) [OF mark_fields(7)])+

lemma delete_orphan_refs:
  assumes "refs_exact s"
  shows "refs_exact (snd (delete_orphan_blob r s))"
proof -
  have "refs_exact (s \<lparr> ix_blobs := AList.delete k (ix_blobs s) \<rparr>)" if "map_of (ix_blobs s) k = Some b" "br_ref_count b = 0" for k b
    unfolding refs_exact_def
  proof
    fix x
    have "count_list (edge_keys s) k = 0" using assms [unfolded refs_exact_def, rule_format, of k] that by simp
    then show "case map_of (ix_blobs (s \<lparr> ix_blobs := AList.delete k (ix_blobs s) \<rparr>)) x of
        Some b \<Rightarrow> br_ref_count b = int (count_list (edge_keys (s \<lparr> ix_blobs := AList.delete k (ix_blobs s) \<rparr>)) x)
      | None \<Rightarrow> x \<notin> set (edge_keys (s \<lparr> ix_blobs := AList.delete k (ix_blobs s) \<rparr>))"
      using assms [unfolded refs_exact_def, rule_format, of x]
      by (cases "x = k") (simp_all add: delete_conv edge_keys_def count_list_0_iff split: option.splits)
  qed
  then show ?thesis using assms by (auto simp: delete_orphan_blob_def split: option.splits sum.splits)
qed

lemma index_maint_keeps:
  assumes "index_maint s s'" "index_wf s"
  shows "index_wf s' \<and> (refs_exact s \<longrightarrow> refs_exact s')"
  using assms
proof (cases rule: index_maint.cases)
  case (maint_delete d)
  then show ?thesis
    using assms(2) delete_tx_wf [of s d] delete_tx_refs [of s d]
    by (auto simp: delete_manifest_def in_tx_def split: option.splits sum.splits)
next
  case (maint_faults d vi vd)
  then have "index_wf s'" using assms(2) by (auto simp: index_wf_def edges_of_def)
  moreover have "refs_exact s \<Longrightarrow> refs_exact s'" using maint_faults by (elim refs_exact_cong) simp_all
  ultimately show ?thesis by blast
qed (use assms(2) delete_orphan_wf delete_orphan_refs mark_wf mark_refs in blast)+

lemma index_reachable_inv: "index_reachable s \<Longrightarrow> index_wf s \<and> refs_exact s"
proof (induction rule: index_reachable.induct)
  case reach_fresh
  show ?case by (simp add: fresh_index_def index_wf_def refs_exact_def edges_of_def edge_keys_def)
next
  case (reach_register s m addr now)
  then show ?case
    using index_tx_wf [of s m addr now] index_tx_refs [of s m addr now]
    by (auto simp: index_manifest_def in_tx_def split: option.splits sum.splits)
next
  case (reach_maint s s')
  then show ?case using index_maint_keeps by blast
next
  case (reach_reset s kb)
  have 1: "index_wf (s \<lparr> ix_manifest_blobs := [], ix_manifest_handles := [], ix_manifests := [], ix_blobs := bs, ix_csn := 0, ix_prune_csn := 0 \<rparr>)
      \<and> refs_exact (s \<lparr> ix_manifest_blobs := [], ix_manifest_handles := [], ix_manifests := [], ix_blobs := bs, ix_csn := 0, ix_prune_csn := 0 \<rparr>)"
    if "distinct (map fst bs)" "\<And>k b. map_of bs k = Some b \<Longrightarrow> k \<noteq> [] \<and> br_content_hash b \<noteq> [] \<and> br_ref_count b = 0" for bs
    using that reach_reset index_wfI_fields(7) [of s] by (auto simp: index_wf_def refs_exact_def edges_of_def edge_keys_def split: option.splits)
  let ?b = "upd_where (\<lambda>_. True) (\<lambda>b. b \<lparr> br_ref_count := 0 \<rparr>) (ix_blobs s)"
  have "distinct (map fst ?b)" "\<And>k b. map_of ?b k = Some b \<Longrightarrow> k \<noteq> [] \<and> br_content_hash b \<noteq> [] \<and> br_ref_count b = 0"
    using reach_reset index_wfI_fields(1,3) [of s] by (auto simp: map_of_upd_where)
  from 1 [OF this] 1 [of "[]"] show ?case using reach_reset by (auto simp: reset_index_def in_tx_def split: option.splits)
qed

text \<open>C9: reference counting is exact.  However registrations of new manifests, deletions, collections, verification
  marks, resets and failures interleave, the count of every blob row is the number of references to it
  from manifests in the index, a referenced blob always has its row, and so the orphan listing names exactly
  the blobs no manifest refers to.\<close>

theorem ref_counts_exact:
  assumes "index_reachable s"
  shows "(\<forall>r b. sq_blobs s r = Some b \<longrightarrow> ib_refs b = int (count_list (map hex_encode (edge_keys s)) r))
    \<and> (\<forall>d m. sq_manifests s d = Some m \<longrightarrow> (\<forall>r \<in> set (im_refs m). sq_blobs s r \<noteq> None))
    \<and> (\<forall>rs. list_orphan_blobs s = Inr rs \<longrightarrow>
          set rs = {r. sq_blobs s r \<noteq> None \<and> (\<forall>d m. sq_manifests s d = Some m \<longrightarrow> r \<notin> set (im_refs m))})"
proof -
  have wf: "index_wf s" and ex: "refs_exact s" using index_reachable_inv [OF assms] by simp_all
  have c: "count_list (map hex_encode ks) (hex_encode k) = count_list ks k" for ks k by (induction ks) simp_all
  have 1: "ib_refs b = int (count_list (map hex_encode (edge_keys s)) r)" if b: "sq_blobs s r = Some b" for r b
  proof -
    obtain k br where k: "r = hex_encode k" "map_of (ix_blobs s) k = Some br" "b = blob_view br"
      using b map_of_is_SomeI [OF index_wfI_fields(1) [OF wf]] unfolding sq_blobs_Some [OF wf] by blast
    then show ?thesis using ex [unfolded refs_exact_def, rule_format, of k] by (simp add: blob_view_def c)
  qed
  have e: "k \<in> set (edge_keys s) \<longleftrightarrow> (\<exists>dg r. map_of (ix_manifests s) dg = Some r \<and> k \<in> set (edges_of dg s))" for k
  proof
    assume "k \<in> set (edge_keys s)"
    then obtain dg i where "((dg, i), k) \<in> set (ix_manifest_blobs s)" by (auto simp: edge_keys_def)
    then have "k \<in> set (edges_of dg s)" by (force simp: edges_of_def)
    then show "\<exists>dg r. map_of (ix_manifests s) dg = Some r \<and> k \<in> set (edges_of dg s)"
      using index_wfI_fields(5) [OF wf, of dg] by (cases "map_of (ix_manifests s) dg") auto
  qed (auto simp: edge_keys_def edges_of_def)
  have 2: "sq_blobs s r \<noteq> None" if m: "sq_manifests s d = Some m" "r \<in> set (im_refs m)" for d m r
  proof -
    obtain k where k: "r = hex_encode k" "k \<in> set (edge_keys s)" "k \<noteq> []"
      using m e index_wfI_fields(2,6) [OF wf] unfolding sq_manifests_Some [OF wf] by (force simp: row_view_def)
    then show ?thesis using ex [unfolded refs_exact_def, rule_format, of k] by (auto split: option.splits)
  qed
  have 3: "r \<in> set (map hex_encode (edge_keys s)) \<longleftrightarrow> (\<exists>d m. sq_manifests s d = Some m \<and> r \<in> set (im_refs m))" for r
    unfolding sq_manifests_Some [OF wf] using e index_wfI_fields(2) [OF wf] by (fastforce simp: row_view_def dest!: map_of_SomeD)
  show ?thesis
    using 1 2 3 orphan_listing [OF wf] by (auto simp: count_list_0_iff)
qed

text \<open>C10: the SQLite index implements the abstract one.  A committed registration adds the manifest's row (or refreshes
  its place in the order) and counts its references; a committed deletion removes exactly that row and
  releases exactly its references; an operation that reports an error leaves rows and counts as they were.\<close>

theorem index_refines_spec:
  assumes "index_wf s" "indexable m" "is_hex_ref d"
    and "\<And>r. sq_manifests s (digest m) = Some r \<Longrightarrow> im_refs r = indexed_refs m"
  shows "(case index_manifest m addr now s of
        (Inr _, s') \<Rightarrow> sq_blobs s' = spec_index_blobs m (pa_path addr) (sq_blobs s)
          \<and> (\<exists>n. (\<forall>x r. sq_manifests s x = Some r \<longrightarrow> im_order r < n) \<and> sq_manifests s' = spec_index_rows m n (sq_manifests s))
      | (Inl _, s') \<Rightarrow> sq_manifests s' = sq_manifests s \<and> sq_blobs s' = sq_blobs s)
    \<and> (case delete_manifest d s of
        (Inr _, s') \<Rightarrow> sq_manifests s' = (sq_manifests s)(d := None)
          \<and> sq_blobs s' = (case sq_manifests s d of None \<Rightarrow> sq_blobs s | Some r \<Rightarrow> spec_delete_blobs (im_refs r) (sq_blobs s))
      | (Inl _, s') \<Rightarrow> sq_manifests s' = sq_manifests s \<and> sq_blobs s' = sq_blobs s)"
  (is "?P \<and> ?Q")
proof
  show ?P
    using sqx.index_ok [OF assms(1,2,4), of addr now] sqx.index_err [OF assms(1), of m addr now]
    by (cases "index_manifest m addr now s") (auto split: sum.splits)
  show ?Q
    using sqx.delete_ok [OF assms(1,3)] sqx.delete_err [OF assms(1), of d]
    by (cases "delete_manifest d s") (auto split: sum.splits)
qed

text \<open>C34: registering a manifest file a second time, while its row is there, leaks its blobs.  The second registration
  counts every reference again but adds no edge, so after the manifest is deleted its blobs still carry
  a positive count: the orphan listing never names them and no collection cycle removes them.\<close>

theorem reindex_leaks_blobs:
  assumes "index_wf s" "indexable m" "sq_manifests s (digest m) = None" "r \<in> set (indexed_refs m)"
    and "index_manifest m addr now s = (Inr (), s1)" "index_manifest m addr' now' s1 = (Inr (), s2)"
    and "delete_manifest (digest m) s2 = (Inr (), s3)"
  shows "sq_manifests s3 = sq_manifests s
    \<and> (\<exists>b. sq_blobs s3 r = Some b
        \<and> ib_refs b = (case sq_blobs s r of None \<Rightarrow> 0 | Some b0 \<Rightarrow> ib_refs b0) + int (count_list (indexed_refs m) r))
    \<and> (\<forall>rs. list_orphan_blobs s3 = Inr rs \<longrightarrow> r \<notin> set rs)"
proof -
  have wf: "index_wf s1" "index_wf s2" "index_wf s3"
    using sqx.iinv_keep(1) [OF assms(1), of m addr now] assms(5) sqx.iinv_keep(1) [of s1 m addr' now'] assms(6)
      sqx.iinv_keep(2) [of s2 "digest m"] assms(7) by simp_all
  have d: "is_hex_ref (digest m)" using assms(2) by (simp add: indexable_def)
  obtain n1 where 1: "sq_manifests s1 = spec_index_rows m n1 (sq_manifests s)" "sq_blobs s1 = spec_index_blobs m (pa_path addr) (sq_blobs s)"
    using sqx.index_ok [OF assms(1,2), of addr now "()" s1] assms(3,5) by auto
  have c1: "\<And>x. sq_manifests s1 (digest m) = Some x \<Longrightarrow> im_refs x = indexed_refs m"
    using 1(1) assms(3) by (auto simp: spec_index_rows_def)
  obtain n2 where 2: "sq_manifests s2 = spec_index_rows m n2 (sq_manifests s1)" "sq_blobs s2 = spec_index_blobs m (pa_path addr') (sq_blobs s1)"
    using sqx.index_ok [OF wf(1) assms(2) c1, of addr' now' "()" s2] assms(6) by auto
  obtain x where x: "sq_manifests s2 (digest m) = Some x" "im_refs x = indexed_refs m"
    using 2(1) 1(1) assms(3) by (auto simp: spec_index_rows_def)
  have 3: "sq_manifests s3 = (sq_manifests s2)(digest m := None)" "sq_blobs s3 = spec_delete_blobs (indexed_refs m) (sq_blobs s2)"
    using sqx.delete_ok [OF wf(2) d, of "()" s3] assms(7) x by simp_all
  have "sq_manifests s3 = sq_manifests s" using 3(1) 2(1) 1(1) assms(3) by (auto simp: spec_index_rows_def fun_eq_iff)
  moreover have p: "0 \<le> ib_refs b0" if "sq_blobs s r = Some b0" for b0
    using that index_wfI_fields(1,3) [OF assms(1)] unfolding sq_blobs_Some [OF assms(1)] by (auto simp: blob_view_def dest: map_of_is_SomeI)
  have c: "0 < count_list (indexed_refs m) r" using assms(4) by (simp add: count_list_0_iff neq0_conv [symmetric] del: neq0_conv)
  have b: "\<exists>b. sq_blobs s3 r = Some b
        \<and> ib_refs b = (case sq_blobs s r of None \<Rightarrow> 0 | Some b0 \<Rightarrow> ib_refs b0) + int (count_list (indexed_refs m) r)"
    using assms(4) p by (cases "sq_blobs s r") (simp_all add: 3(2) 2(2) 1(2) spec_index_blobs_def spec_delete_blobs_def)
  then have "\<exists>b. sq_blobs s3 r = Some b \<and> ib_refs b \<noteq> 0" using p c by (cases "sq_blobs s r") auto
  then show ?thesis using b calculation orphan_listing [OF wf(3)] by auto
qed

subsection \<open>The change feed\<close>

text \<open>What a consumer that holds the token \<open>c\<close> of \<open>s0\<close> may rely on later.\<close>

definition feed_inv :: "index_state \<Rightarrow> index_state \<Rightarrow> bool" where
  "feed_inv s0 s = (index_wf s \<and> ix_csn s0 \<le> ix_csn s
     \<and> (\<forall>dg r. map_of (ix_manifests s) dg = Some r \<and> mr_csn r \<le> ix_csn s0 \<longrightarrow> map_of (ix_manifests s0) dg \<noteq> None)
     \<and> (ix_prune_csn s \<le> ix_csn s0 \<longrightarrow> (\<forall>dg. map_of (ix_manifests s0) dg \<noteq> None \<longrightarrow> map_of (ix_manifests s) dg \<noteq> None)))"

lemma feed_inv_same:
  assumes "feed_inv s0 s" "index_wf s'" "ix_csn s' = ix_csn s" "ix_prune_csn s' = ix_prune_csn s"
    and "\<And>dg. map_option mr_csn (map_of (ix_manifests s') dg) = map_option mr_csn (map_of (ix_manifests s) dg)"
  shows "feed_inv s0 s'"
proof -
  have "(map_of (ix_manifests s') dg = None) = (map_of (ix_manifests s) dg = None)" for dg
    using assms(5) [of dg] by (cases "map_of (ix_manifests s') dg"; cases "map_of (ix_manifests s) dg") auto
  moreover have "\<exists>r'. map_of (ix_manifests s) dg = Some r' \<and> mr_csn r' = mr_csn r" if "map_of (ix_manifests s') dg = Some r" for dg r
    using assms(5) [of dg] that by (cases "map_of (ix_manifests s) dg") auto
  ultimately show ?thesis using assms(1-4) unfolding feed_inv_def by metis
qed

lemma feed_inv_register:
  assumes "feed_inv s0 s" "index_manifest_tx m addr now s = Inr s'"
  shows "feed_inv s0 s'"
  using assms(2)
proof (rule index_tx_okE)
  fix dg bs ms mbs
  assume d: "not_null (hex_key (digest m)) = Inr dg" and ms: "insert_manifest_row m now (ix_manifests s) = Inr ms"
    and s': "s' = s \<lparr> ix_blobs := bs, ix_manifests := upd_key dg (\<lambda>r. r \<lparr> mr_csn := ix_csn s + 1 \<rparr>) ms, ix_manifest_blobs := mbs,
            ix_manifest_handles := link_handles dg 0 (handle_refs m) (ix_manifest_handles s), ix_csn := ix_csn s + 1 \<rparr>"
  obtain ref where ref: "ms = insert_absent dg (new_row m now ref) (ix_manifests s)"
    using insert_manifest_row_spec [OF ms d] by blast
  obtain r0 where r0: "map_of (ix_manifests s') dg = Some r0" "mr_csn r0 = ix_csn s + 1"
    by (cases "map_of (ix_manifests s) dg") (auto simp: s' ref map_of_upd_key map_of_insert_absent)
  have other: "map_of (ix_manifests s') x = map_of (ix_manifests s) x" if "x \<noteq> dg" for x
    using that by (simp add: s' ref map_of_upd_key map_of_insert_absent)
  have c: "ix_csn s' = ix_csn s + 1" "ix_prune_csn s' = ix_prune_csn s" by (simp_all add: s')
  have old: "ix_csn s0 \<le> ix_csn s" "\<And>x r. map_of (ix_manifests s) x = Some r \<Longrightarrow> mr_csn r \<le> ix_csn s0 \<Longrightarrow> map_of (ix_manifests s0) x \<noteq> None"
      "\<And>x. ix_prune_csn s \<le> ix_csn s0 \<Longrightarrow> map_of (ix_manifests s0) x \<noteq> None \<Longrightarrow> map_of (ix_manifests s) x \<noteq> None"
    using assms(1) unfolding feed_inv_def by blast+
  have "index_wf s'" using assms index_tx_wf unfolding feed_inv_def by blast
  moreover have "map_of (ix_manifests s0) x \<noteq> None" if "map_of (ix_manifests s') x = Some r" "mr_csn r \<le> ix_csn s0" for x r
    using that old(1,2) r0 other by (cases "x = dg") auto
  moreover have "map_of (ix_manifests s') x \<noteq> None" if "ix_prune_csn s \<le> ix_csn s0" "map_of (ix_manifests s0) x \<noteq> None" for x
    using that old(3) r0(1) other by (cases "x = dg") auto
  ultimately show ?thesis using old(1) c unfolding feed_inv_def by auto
qed

lemma feed_inv_delete:
  assumes "feed_inv s0 s" "delete_manifest_tx d s = Inr s'"
  shows "feed_inv s0 s'"
  using assms(2)
proof (cases rule: delete_tx_okE)
  case absent
  then show ?thesis using assms(1) by simp
next
  case (gone dg row)
  have "index_wf s'" using assms delete_tx_wf unfolding feed_inv_def by blast
  moreover have "ix_csn s0 \<le> ix_csn s" using assms(1) unfolding feed_inv_def by blast
  moreover have "map_of (ix_manifests s0) x \<noteq> None" if "map_of (ix_manifests s') x = Some r" "mr_csn r \<le> ix_csn s0" for x r
    using that assms(1) gone(3) unfolding feed_inv_def by (auto simp: delete_conv split: if_splits)
  moreover have "ix_csn s' = ix_csn s + 1" "ix_prune_csn s' = ix_csn s + 1" using gone(3) by simp_all
  ultimately show ?thesis unfolding feed_inv_def by auto
qed

lemma feed_inv_maint:
  assumes "feed_inv s0 s" "index_maint s s'"
  shows "feed_inv s0 s'"
proof -
  have wf: "index_wf s'" using assms index_maint_keeps unfolding feed_inv_def by blast
  show ?thesis
    using assms(2)
  proof (cases rule: index_maint.cases)
    case (maint_delete d)
    then show ?thesis using assms(1) feed_inv_delete [OF assms(1), of d]
      by (auto simp: delete_manifest_def in_tx_def split: option.splits sum.splits)
  next
    case (maint_drop r)
    then have "ix_csn s' = ix_csn s" "ix_prune_csn s' = ix_prune_csn s" "ix_manifests s' = ix_manifests s"
      by (auto simp: delete_orphan_blob_def split: option.splits sum.splits)
    then show ?thesis using feed_inv_same [OF assms(1) wf] by simp
  next
    case (maint_mark r t)
    then show ?thesis using feed_inv_same [OF assms(1) wf] by (simp add: mark_fields)
  next
    case (maint_mark_manifest i t)
    then show ?thesis using feed_inv_same [OF assms(1) wf] by (simp add: mark_fields erased_eq(2) [OF mark_fields(14)])
  next
    case (maint_faults d vi vd)
    then show ?thesis using feed_inv_same [OF assms(1) wf] by simp
  qed
qed

lemma feed_inv_moves:
  assumes "index_moves s0 s" "index_wf s0"
  shows "feed_inv s0 s"
  using assms
proof (induction rule: index_moves.induct)
  case (moves_refl s)
  then show ?case by (simp add: feed_inv_def)
next
  case (moves_register s s' m addr now)
  then show ?case using feed_inv_register [of s s' m addr now]
    by (auto simp: index_manifest_def in_tx_def split: option.splits sum.splits)
next
  case (moves_maint s s' s'')
  then show ?case using feed_inv_maint by blast
qed

text \<open>C11: the change feed is complete.  A consumer that knows the manifests of the index at the moment it took the
  token knows, after applying the delta for that token, exactly the manifests the index holds, unless the
  delta reports a gap; and the delta is in commit order, all of it later than the token and not later than
  the cursor it hands out.\<close>

theorem since_complete:
  assumes "index_wf s0" "index_moves s0 s" "index_token s0 = Inr c" "since c s = Inr d"
  shows "(\<not> dl_gapped d \<longrightarrow> (\<forall>x. sq_manifests s x \<noteq> None \<longleftrightarrow> sq_manifests s0 x \<noteq> None \<or> x \<in> fst ` set (dl_changes d)))
    \<and> sorted (map snd (dl_changes d)) \<and> c \<le> dl_next d
    \<and> (\<forall>e \<in> set (dl_changes d). c < snd e \<and> snd e \<le> dl_next d)"
proof -
  let ?rows = "sort_key (\<lambda>r. mr_csn (snd r)) (filter (\<lambda>r. c < mr_csn (snd r)) (ix_manifests s))"
  have c: "c = ix_csn s0" using assms(3) by (simp add: index_token_def)
  have fi: "feed_inv s0 s" by (rule feed_inv_moves [OF assms(2,1)])
  then have wf: "index_wf s" by (simp add: feed_inv_def)
  have d: "dl_changes d = map (\<lambda>r. (hex_encode (fst r), mr_csn (snd r))) ?rows"
      "dl_next d = (if dl_changes d = [] then c else snd (last (dl_changes d)))" "dl_gapped d = (c < ix_prune_csn s)"
    using assms(4) by (auto simp: since_def Let_def)
  have srt: "sorted (map snd (dl_changes d))" by (simp add: d(1) comp_def)
  have gt: "c < snd e" if "e \<in> set (dl_changes d)" for e using that by (auto simp: d(1))
  have le: "snd e \<le> dl_next d" if e: "e \<in> set (dl_changes d)" for e
  proof -
    obtain es l where l: "dl_changes d = es @ [l]" using e by (cases "dl_changes d" rule: rev_cases) auto
    then have "dl_next d = snd l" using d(2) by simp
    moreover have "\<forall>x \<in> set es. snd x \<le> snd l" using srt unfolding l by (simp add: sorted_append)
    ultimately show ?thesis using e unfolding l by auto
  qed
  have ch: "x \<in> fst ` set (dl_changes d) \<longleftrightarrow> (\<exists>k r. x = hex_encode k \<and> map_of (ix_manifests s) k = Some r \<and> c < mr_csn r)" for x
  proof -
    have "fst ` set (dl_changes d) = (\<lambda>r. hex_encode (fst r)) ` {r \<in> set (ix_manifests s). c < mr_csn (snd r)}"
      by (simp add: d(1) image_image)
    then have "x \<in> fst ` set (dl_changes d) \<longleftrightarrow> (\<exists>k r. x = hex_encode k \<and> (k, r) \<in> set (ix_manifests s) \<and> c < mr_csn r)"
      by (auto simp: image_iff Bex_def)
    then show ?thesis using index_wfI_fields(2) [OF wf] by simp
  qed
  have "sq_manifests s x \<noteq> None \<longleftrightarrow> sq_manifests s0 x \<noteq> None \<or> x \<in> fst ` set (dl_changes d)" if g: "\<not> dl_gapped d" for x
  proof (cases "is_hex_ref x")
    case True
    then obtain k where k: "x = hex_encode k" "k \<noteq> []" using hex_key_canonical by blast
    have "map_of (ix_manifests s) k \<noteq> None \<longleftrightarrow> map_of (ix_manifests s0) k \<noteq> None \<or> (\<exists>r. map_of (ix_manifests s) k = Some r \<and> c < mr_csn r)"
      using fi g unfolding feed_inv_def d(3) c by (metis not_le option.exhaust option.distinct(1))
    then show ?thesis using k ch [of x] by auto
  next
    case False
    then show ?thesis using ch [of x] index_wfI_fields(4) [OF wf] by auto
  qed
  moreover have "c \<le> dl_next d" using d(2) gt [of "last (dl_changes d)"] by (auto simp: less_imp_le)
  ultimately show ?thesis using srt gt le by blast
qed

subsection \<open>Concrete instances\<close>

definition sample_ix_manifest :: "char \<Rightarrow> manifest" where
  "sample_ix_manifest k = zero_manifest \<lparr> digest := hex_encode [k], artifact_id := [k], blob_refs := [hex_encode ''b''],
     content_hash := hex_encode ''c'', original_size := 3, blob_storage := layout_target \<rparr>"

definition sample_ix1 :: index_state where
  "sample_ix1 = snd (index_manifest (sample_ix_manifest CHR ''x'') (path_address ''p'') 7 fresh_index)"

definition sample_ix2 :: index_state where
  "sample_ix2 = snd (index_manifest (sample_ix_manifest CHR ''y'') (path_address ''p'') 8 sample_ix1)"

lemmas sample_ix_defs = sample_ix_manifest_def zero_manifest_def indexed_refs_def

lemma sample_indexable: "indexable (sample_ix_manifest k)"
  by (simp add: sample_ix_defs indexable_def del: hex_encode_simps)

lemma sample_ix1_eq: "sample_ix1 = fresh_index \<lparr>
    ix_blobs := [(''b'', bump 1 (fresh_blob ''c'' (sample_ix_manifest CHR ''x'') ''p'' 7))],
    ix_manifests := [(''x'', new_row (sample_ix_manifest CHR ''x'') 7 (Some ''b'') \<lparr> mr_csn := 1 \<rparr>)],
    ix_manifest_blobs := [((''x'', 0), ''b'')], ix_csn := 1 \<rparr>"
  by (simp add: sample_ix1_def index_manifest_def in_tx_def index_manifest_tx_def index_blob_manifest_def insert_manifest_row_def
      sample_ix_defs fresh_index_def insert_absent_def upd_key_def next_csn_def Let_def fresh_blob_def bump_def new_row_def
      path_address_def del: hex_encode_simps)

lemma sample_ix2_eq: "sample_ix2 = sample_ix1 \<lparr>
    ix_blobs := [(''b'', bump 2 (fresh_blob ''c'' (sample_ix_manifest CHR ''x'') ''p'' 7))],
    ix_manifests := ix_manifests sample_ix1 @ [(''y'', new_row (sample_ix_manifest CHR ''y'') 8 (Some ''b'') \<lparr> mr_csn := 2 \<rparr>)],
    ix_manifest_blobs := [((''x'', 0), ''b''), ((''y'', 0), ''b'')], ix_csn := 2 \<rparr>"
  by (simp add: sample_ix2_def sample_ix1_eq index_manifest_def in_tx_def index_manifest_tx_def index_blob_manifest_def insert_manifest_row_def
      sample_ix_defs fresh_index_def insert_absent_def upd_key_def next_csn_def Let_def fresh_blob_def bump_def new_row_def
      path_address_def del: hex_encode_simps)

lemma sample_ix_reachable: "index_reachable sample_ix1" "index_reachable sample_ix2"
proof -
  show 1: "index_reachable sample_ix1"
    unfolding sample_ix1_def by (rule reach_register [OF reach_fresh]) (simp add: fresh_index_def)
  show "index_reachable sample_ix2"
    unfolding sample_ix2_def by (rule reach_register [OF 1]) (simp add: sample_ix1_eq sample_ix_defs del: hex_encode_simps)
qed

lemma fresh_index_rel: "index_rel fresh_index"
  using index_reachable_inv [OF reach_fresh] by (simp add: index_rel_def) (simp add: fresh_index_def)

theorem ref_counts_exact_witness:
  "index_reachable sample_ix2 \<and> (\<exists>b. sq_blobs sample_ix2 (hex_encode ''b'') = Some b \<and> ib_refs b = 2
    \<and> int (count_list (map hex_encode (edge_keys sample_ix2)) (hex_encode ''b'')) = 2)"
proof -
  have "map_option ib_refs (sq_blobs sample_ix2 (hex_encode ''b'')) = Some 2"
    by (simp add: sample_ix2_eq fresh_blob_def blob_view_def bump_def del: hex_encode_simps)
  then obtain b where b: "sq_blobs sample_ix2 (hex_encode ''b'') = Some b" "ib_refs b = 2" by (auto simp del: hex_encode_simps)
  have "ib_refs b = int (count_list (map hex_encode (edge_keys sample_ix2)) (hex_encode ''b''))"
    using ref_counts_exact [OF sample_ix_reachable(2)] b(1) by blast
  then show ?thesis using sample_ix_reachable(2) b by (intro conjI exI [of _ b]) (simp_all del: hex_encode_simps)
qed

theorem reindex_leaks_blobs_witness:
  "\<exists>s1 s2 s3. index_manifest (sample_ix_manifest CHR ''x'') (path_address ''p'') 7 fresh_index = (Inr (), s1)
     \<and> index_manifest (sample_ix_manifest CHR ''x'') (path_address ''p'') 8 s1 = (Inr (), s2)
     \<and> delete_manifest (digest (sample_ix_manifest CHR ''x'')) s2 = (Inr (), s3)
     \<and> sq_manifests s3 = sq_manifests fresh_index \<and> (\<exists>b. sq_blobs s3 (hex_encode ''b'') = Some b \<and> ib_refs b = 1)"
proof -
  let ?m = "sample_ix_manifest CHR ''x''" and ?a = "path_address ''p''"
  obtain s1 where 1: "index_manifest ?m ?a 7 fresh_index = (Inr (), s1)" "index_rel s1"
    using index_manifest_succeeds [OF fresh_index_rel sample_indexable] by blast
  obtain s2 where 2: "index_manifest ?m ?a 8 s1 = (Inr (), s2)" "index_rel s2"
    using index_manifest_succeeds [OF 1(2) sample_indexable] by blast
  have "is_hex_ref (digest ?m)" by (simp add: sample_ix_defs del: hex_encode_simps)
  then obtain s3 where 3: "delete_manifest (digest ?m) s2 = (Inr (), s3)"
    using delete_manifest_succeeds [OF 2(2)] by blast
  have f: "sq_manifests fresh_index (digest ?m) = None" "hex_encode ''b'' \<in> set (indexed_refs ?m)"
      "count_list (indexed_refs ?m) (hex_encode ''b'') = 1" "sq_blobs fresh_index (hex_encode ''b'') = None"
    by (simp_all add: sample_ix_defs fresh_index_def del: hex_encode_simps)
  have "index_wf fresh_index" using fresh_index_rel by (simp add: index_rel_def)
  from reindex_leaks_blobs [OF this sample_indexable f(1,2) 1(1) 2(1) 3]
  have "sq_manifests s3 = sq_manifests fresh_index" "\<exists>b. sq_blobs s3 (hex_encode ''b'') = Some b \<and> ib_refs b = 1"
    using f(3,4) by (simp_all del: hex_encode_simps)
  then show ?thesis using 1(1) 2(1) 3 by (intro exI [of _ s1] exI [of _ s2] exI [of _ s3]) simp
qed

theorem since_complete_witness:
  "index_moves sample_ix1 sample_ix2 \<and> index_token sample_ix1 = Inr 1
    \<and> (\<exists>d. since 1 sample_ix2 = Inr d \<and> \<not> dl_gapped d \<and> dl_changes d = [(hex_encode ''y'', 2)]
        \<and> (\<forall>x. sq_manifests sample_ix2 x \<noteq> None \<longleftrightarrow> sq_manifests sample_ix1 x \<noteq> None \<or> x \<in> fst ` set (dl_changes d)))"
proof -
  have m: "index_moves sample_ix1 sample_ix2" unfolding sample_ix2_def by (rule moves_register [OF moves_refl])
  have t: "index_token sample_ix1 = Inr 1" by (simp add: index_token_def sample_ix1_eq) (simp add: fresh_index_def)
  have d: "since 1 sample_ix2 = Inr \<lparr> dl_changes = [(hex_encode ''y'', 2)], dl_next = 2, dl_gapped = False \<rparr>"
    by (simp add: since_def sample_ix2_eq sample_ix1_eq fresh_index_def del: hex_encode_simps)
  have wf: "index_wf sample_ix1" using index_reachable_inv [OF sample_ix_reachable(1)] by simp
  show ?thesis using since_complete [OF wf m t d] m t d by (simp del: hex_encode_simps)
qed

theorem index_refines_spec_witness:
  "\<exists>s'. index_manifest (sample_ix_manifest CHR ''y'') (path_address ''p'') 8 sample_ix1 = (Inr (), s')
     \<and> sq_blobs s' = spec_index_blobs (sample_ix_manifest CHR ''y'') ''p'' (sq_blobs sample_ix1)"
proof -
  let ?m = "sample_ix_manifest CHR ''y''"
  have wf: "index_wf sample_ix1" using index_reachable_inv [OF sample_ix_reachable(1)] by simp
  have "index_rel sample_ix1" using wf by (simp add: index_rel_def sample_ix1_eq) (simp add: fresh_index_def)
  then obtain s' where s': "index_manifest ?m (path_address ''p'') 8 sample_ix1 = (Inr (), s')"
    using index_manifest_succeeds [OF _ sample_indexable] by blast
  have n: "sq_manifests sample_ix1 (digest ?m) = None" "is_hex_ref (digest ?m)"
    by (simp_all add: sample_ix1_eq sample_ix_defs del: hex_encode_simps)
  have "sq_blobs s' = spec_index_blobs ?m (pa_path (path_address ''p'')) (sq_blobs sample_ix1)"
    using index_refines_spec [OF wf sample_indexable n(2), of "CHR ''y''" "path_address ''p''" 8] n(1) s' by simp
  then show ?thesis using s' by (simp add: path_address_def)
qed

end
