(* ===== verification/Config.thy ===== *)
theory Config
  imports Layout Manifest_Header
begin

text \<open>
  The store configuration (\<^verbatim>\<open>config/\<close>): the parameter types, the validators and the traversal engine of
  \<^verbatim>\<open>config/internal/fieldkit\<close>, the field registry, defaulting, validation, and the check of a client
  configuration against the active one with the session overlay it yields.

  A Go enum over \<^verbatim>\<open>string\<close> is a datatype whose first constructor is the empty string; a duration is an
  integer of nanoseconds.  A divergence message is represented by the name of its field.
\<close>

subsection \<open>Parameter types\<close>

datatype encrypted_dedup = DedupUnset | DedupDisabled | DedupConvergent | DedupOther string
datatype blob_storage_mode = StorageUnset | StorageTarget | StorageInline | StorageOther string
datatype deletion_policy = DeletionUnset | DeletionNoDelete | DeletionRetention | DeletionFree | DeletionOther string
datatype gc_lease_policy = GCLeaseUnset | GCLeaseAuto | GCLeaseSingleHost | GCLeaseLeaderElection | GCLeaseOther string
datatype session_overrides = OverridesUnset | OverridesAllow | OverridesDeny | OverridesOther string
datatype verify_on_read = VerifyUnset | VerifyAuto | VerifyForceEnabled | VerifyDisabled | VerifyOther string
datatype content_hasher = HasherUnset | HashSHA256 | HashBLAKE3 | HasherOther string
datatype identity_mode = IdentityUnset | IdentityUnique | IdentityCoalesced | IdentityOther string

text \<open>The string behind a \<^verbatim>\<open>ContentHashAlgorithm\<close>, which names the algorithm in the hash registry.\<close>

definition hasher_name :: "content_hasher \<Rightarrow> string" where
  "hasher_name h = (case h of HasherUnset \<Rightarrow> [] | HashSHA256 \<Rightarrow> ''sha256'' | HashBLAKE3 \<Rightarrow> ''blake3'' | HasherOther s \<Rightarrow> s)"

record kdf_params =
  kp_time :: nat
  kp_memory :: nat
  kp_threads :: nat

record store_config =
  cf_path_topology :: path_topology
  cf_blob_storage :: blob_storage_mode
  cf_manifest_encoding :: manifest_encoding
  cf_manifest_crypto :: manifest_crypto
  cf_encrypted_dedup :: encrypted_dedup
  cf_pack_alignment :: int
  cf_eager_fetch_limit :: int
  cf_pipeline :: "string list"
  cf_content_hasher :: content_hasher
  cf_verify_on_read :: verify_on_read
  cf_segment_size :: int
  cf_identity_mode :: identity_mode
  cf_deletion_policy :: deletion_policy
  cf_deletion_policy_lock :: bool
  cf_retention_period :: int
  cf_tombstone_grace_period :: int
  cf_inline_blob_limit :: int
  cf_gc_lease_policy :: gc_lease_policy
  cf_session_overrides :: session_overrides
  cf_max_artifact_size :: int
  cf_kdf_params :: "kdf_params option"

definition zero_config :: store_config where
  "zero_config = \<lparr> cf_path_topology = TopologyUnset, cf_blob_storage = StorageUnset, cf_manifest_encoding = EncodingUnset,
     cf_manifest_crypto = CryptoUnset, cf_encrypted_dedup = DedupUnset, cf_pack_alignment = 0, cf_eager_fetch_limit = 0,
     cf_pipeline = [], cf_content_hasher = HasherUnset, cf_verify_on_read = VerifyUnset, cf_segment_size = 0,
     cf_identity_mode = IdentityUnset, cf_deletion_policy = DeletionUnset, cf_deletion_policy_lock = False,
     cf_retention_period = 0, cf_tombstone_grace_period = 0, cf_inline_blob_limit = 0, cf_gc_lease_policy = GCLeaseUnset,
     cf_session_overrides = OverridesUnset, cf_max_artifact_size = 0, cf_kdf_params = None \<rparr>"

subsection \<open>Limits\<close>

definition default_segment_cfg :: int where "default_segment_cfg = 2 ^ 20"
definition min_segment_cfg :: int where "min_segment_cfg = 4 * 1024"
definition max_segment_cfg :: int where "max_segment_cfg = 2 ^ 30"
definition hour :: int where "hour = 3600 * 10 ^ 9"
definition min_tombstone_grace_period :: int where "min_tombstone_grace_period = hour"
definition min_retention_period :: int where "min_retention_period = hour"
definition max_inline_blob_limit :: int where "max_inline_blob_limit = 64 * 1024"
definition pack_alignment_auto :: int where "pack_alignment_auto = -1"

subsection \<open>Validators\<close>

definition enum_check :: "'t \<Rightarrow> 't list \<Rightarrow> 't \<Rightarrow> err option" where
  "enum_check zero allowed v = (if v = zero \<or> v \<in> set allowed then None else Some ErrInvalidConfig)"

definition min_val :: "int \<Rightarrow> int \<Rightarrow> err option" where
  "min_val lo v = (if v \<noteq> 0 \<and> v < lo then Some ErrInvalidConfig else None)"

definition max_val :: "int \<Rightarrow> int \<Rightarrow> err option" where
  "max_val hi v = (if v \<noteq> 0 \<and> v > hi then Some ErrInvalidConfig else None)"

definition range_val :: "int \<Rightarrow> int \<Rightarrow> int \<Rightarrow> err option" where
  "range_val lo hi v = (if v \<noteq> 0 \<and> (v < lo \<or> v > hi) then Some ErrInvalidConfig else None)"

definition non_negative :: "int \<Rightarrow> err option" where
  "non_negative v = (if v < 0 then Some ErrInvalidConfig else None)"

definition with_sentinel :: "('t \<Rightarrow> err option) \<Rightarrow> err \<Rightarrow> 't \<Rightarrow> err option" where
  "with_sentinel check sentinel v = (if check v \<noteq> None then Some sentinel else None)"

definition encoding_check :: "manifest_encoding \<Rightarrow> err option" where
  "encoding_check e = (if e = EncodingUnset \<or> e = EncodingJSON then None else Some ErrInvalidConfig)"

subsection \<open>Field descriptors\<close>

datatype field_class = ClassImmutable | ClassGovernance | ClassSession

datatype conn_behavior = ConnRefusedImmutable | ConnRefusedGovernance | ConnOverlay | ConnIgnored | ConnDerived

datatype 't field_default = NoDefault | DefaultTo 't | DefaultFn "store_config \<Rightarrow> 't option"

record 't field =
  f_name :: string
  f_class :: field_class
  f_conn :: conn_behavior
  f_get :: "store_config \<Rightarrow> 't"
  f_set :: "'t \<Rightarrow> store_config \<Rightarrow> store_config"
  f_check :: "'t \<Rightarrow> err option"
  f_default :: "'t field_default"

record desc =
  fd_name :: string
  fd_class :: field_class
  fd_conn :: conn_behavior
  fd_validate :: "store_config \<Rightarrow> err option"
  fd_diverges :: "store_config \<Rightarrow> store_config \<Rightarrow> bool"
  fd_apply_default :: "store_config \<Rightarrow> store_config"

definition field_validate :: "'t field \<Rightarrow> store_config \<Rightarrow> err option" where
  "field_validate f cfg = f_check f (f_get f cfg)"

definition field_diverges :: "'t \<Rightarrow> 't field \<Rightarrow> store_config \<Rightarrow> store_config \<Rightarrow> bool" where
  "field_diverges zero f req active = (let rv = f_get f req in \<not> (rv = zero \<or> rv = f_get f active))"

definition field_apply_default :: "'t \<Rightarrow> 't field \<Rightarrow> store_config \<Rightarrow> store_config" where
  "field_apply_default zero f cfg = (case f_default f of
      DefaultFn g \<Rightarrow> (case g cfg of Some v \<Rightarrow> f_set f v cfg | None \<Rightarrow> cfg)
    | DefaultTo v \<Rightarrow> if v \<noteq> zero \<and> f_get f cfg = zero then f_set f v cfg else cfg
    | NoDefault \<Rightarrow> cfg)"

text \<open>The type-erased row of a typed field; \<open>zero\<close> is the Go zero value of its type.\<close>

definition desc_of :: "'t \<Rightarrow> 't field \<Rightarrow> desc" where
  "desc_of zero f = \<lparr> fd_name = f_name f, fd_class = f_class f, fd_conn = f_conn f,
     fd_validate = field_validate f, fd_diverges = field_diverges zero f, fd_apply_default = field_apply_default zero f \<rparr>"

fun validate_all :: "desc list \<Rightarrow> store_config \<Rightarrow> err option" where
  "validate_all [] cfg = None"
| "validate_all (f # fs) cfg = (case fd_validate f cfg of Some e \<Rightarrow> Some e | None \<Rightarrow> validate_all fs cfg)"

fun apply_all_defaults :: "desc list \<Rightarrow> store_config \<Rightarrow> store_config" where
  "apply_all_defaults [] cfg = cfg"
| "apply_all_defaults (f # fs) cfg = apply_all_defaults fs (fd_apply_default f cfg)"

definition divergent_by_class :: "desc list \<Rightarrow> field_class \<Rightarrow> store_config \<Rightarrow> store_config \<Rightarrow> string list" where
  "divergent_by_class reg c req active =
     map fd_name (filter (\<lambda>f. fd_class f = c \<and> fd_diverges f req active) reg)"

definition mismatch_against_active :: "desc list \<Rightarrow> store_config \<Rightarrow> store_config \<Rightarrow> err option" where
  "mismatch_against_active reg req active =
     (if divergent_by_class reg ClassImmutable req active = [] then None else Some ErrConfigMismatch)"

subsection \<open>The registry\<close>

definition is_encrypting_config :: "store_config \<Rightarrow> bool" where
  "is_encrypting_config cfg =
     ((cf_manifest_crypto cfg \<noteq> CryptoUnset \<and> cf_manifest_crypto cfg \<noteq> CryptoPlain)
      \<or> list_ex is_crypto_algorithm (cf_pipeline cfg))"

definition immutable_rows :: "desc list" where
  "immutable_rows = [
     desc_of TopologyUnset \<lparr> f_name = ''PathTopology'', f_class = ClassImmutable, f_conn = ConnRefusedImmutable,
       f_get = cf_path_topology, f_set = (\<lambda>v c. c \<lparr> cf_path_topology := v \<rparr>),
       f_check = enum_check TopologyUnset [TopologyFlat, TopologySharded], f_default = DefaultTo TopologySharded \<rparr>,
     desc_of EncodingUnset \<lparr> f_name = ''ManifestEncoding'', f_class = ClassImmutable, f_conn = ConnRefusedImmutable,
       f_get = cf_manifest_encoding, f_set = (\<lambda>v c. c \<lparr> cf_manifest_encoding := v \<rparr>),
       f_check = encoding_check, f_default = DefaultTo EncodingJSON \<rparr>,
     desc_of CryptoUnset \<lparr> f_name = ''ManifestCrypto'', f_class = ClassImmutable, f_conn = ConnRefusedImmutable,
       f_get = cf_manifest_crypto, f_set = (\<lambda>v c. c \<lparr> cf_manifest_crypto := v \<rparr>),
       f_check = enum_check CryptoUnset [CryptoPlain, CryptoSealed, CryptoParanoid], f_default = DefaultTo CryptoPlain \<rparr>,
     desc_of DedupUnset \<lparr> f_name = ''EncryptedDedup'', f_class = ClassImmutable, f_conn = ConnRefusedImmutable,
       f_get = cf_encrypted_dedup, f_set = (\<lambda>v c. c \<lparr> cf_encrypted_dedup := v \<rparr>),
       f_check = enum_check DedupUnset [DedupDisabled, DedupConvergent],
       f_default = DefaultFn (\<lambda>c. if cf_encrypted_dedup c = DedupUnset \<and> is_encrypting_config c
                                  then Some DedupDisabled else None) \<rparr>,
     desc_of HasherUnset \<lparr> f_name = ''ContentHasher'', f_class = ClassImmutable, f_conn = ConnRefusedImmutable,
       f_get = cf_content_hasher, f_set = (\<lambda>v c. c \<lparr> cf_content_hasher := v \<rparr>),
       f_check = enum_check HasherUnset [HashSHA256, HashBLAKE3], f_default = DefaultTo HashSHA256 \<rparr>,
     desc_of 0 \<lparr> f_name = ''SegmentSize'', f_class = ClassImmutable, f_conn = ConnRefusedImmutable,
       f_get = cf_segment_size, f_set = (\<lambda>v c. c \<lparr> cf_segment_size := v \<rparr>),
       f_check = range_val min_segment_cfg max_segment_cfg,
       f_default = DefaultFn (\<lambda>c. if cf_segment_size c = 0 \<and> is_encrypting_config c
                                  then Some default_segment_cfg else None) \<rparr>,
     desc_of IdentityUnset \<lparr> f_name = ''IdentityMode'', f_class = ClassImmutable, f_conn = ConnRefusedImmutable,
       f_get = cf_identity_mode, f_set = (\<lambda>v c. c \<lparr> cf_identity_mode := v \<rparr>),
       f_check = enum_check IdentityUnset [IdentityUnique, IdentityCoalesced], f_default = NoDefault \<rparr>,
     desc_of False \<lparr> f_name = ''DeletionPolicyLock'', f_class = ClassImmutable, f_conn = ConnRefusedImmutable,
       f_get = cf_deletion_policy_lock, f_set = (\<lambda>v c. c \<lparr> cf_deletion_policy_lock := v \<rparr>),
       f_check = (\<lambda>_. None), f_default = NoDefault \<rparr>]"

definition governance_rows :: "desc list" where
  "governance_rows = [
     desc_of DeletionUnset \<lparr> f_name = ''DeletionPolicy'', f_class = ClassGovernance, f_conn = ConnRefusedGovernance,
       f_get = cf_deletion_policy, f_set = (\<lambda>v c. c \<lparr> cf_deletion_policy := v \<rparr>),
       f_check = enum_check DeletionUnset [DeletionFree, DeletionRetention, DeletionNoDelete],
       f_default = DefaultTo DeletionFree \<rparr>,
     desc_of 0 \<lparr> f_name = ''RetentionPeriod'', f_class = ClassGovernance, f_conn = ConnRefusedGovernance,
       f_get = cf_retention_period, f_set = (\<lambda>v c. c \<lparr> cf_retention_period := v \<rparr>),
       f_check = min_val min_retention_period, f_default = NoDefault \<rparr>,
     desc_of 0 \<lparr> f_name = ''TombstoneGracePeriod'', f_class = ClassGovernance, f_conn = ConnRefusedGovernance,
       f_get = cf_tombstone_grace_period, f_set = (\<lambda>v c. c \<lparr> cf_tombstone_grace_period := v \<rparr>),
       f_check = with_sentinel (min_val min_tombstone_grace_period) ErrInvalidTombstoneGracePeriod,
       f_default = DefaultFn (\<lambda>c. if cf_tombstone_grace_period c = 0 then Some (24 * hour) else None) \<rparr>,
     desc_of GCLeaseUnset \<lparr> f_name = ''GCLeasePolicy'', f_class = ClassGovernance, f_conn = ConnRefusedGovernance,
       f_get = cf_gc_lease_policy, f_set = (\<lambda>v c. c \<lparr> cf_gc_lease_policy := v \<rparr>),
       f_check = enum_check GCLeaseUnset [GCLeaseAuto, GCLeaseSingleHost, GCLeaseLeaderElection],
       f_default = DefaultTo GCLeaseAuto \<rparr>,
     desc_of OverridesUnset \<lparr> f_name = ''SessionOverrides'', f_class = ClassGovernance, f_conn = ConnRefusedGovernance,
       f_get = cf_session_overrides, f_set = (\<lambda>v c. c \<lparr> cf_session_overrides := v \<rparr>),
       f_check = enum_check OverridesUnset [OverridesAllow, OverridesDeny], f_default = DefaultTo OverridesAllow \<rparr>,
     desc_of 0 \<lparr> f_name = ''MaxArtifactSize'', f_class = ClassGovernance, f_conn = ConnRefusedGovernance,
       f_get = cf_max_artifact_size, f_set = (\<lambda>v c. c \<lparr> cf_max_artifact_size := v \<rparr>),
       f_check = non_negative, f_default = NoDefault \<rparr>]"

definition pipeline_desc :: desc where
  "pipeline_desc = \<lparr> fd_name = ''Pipeline'', fd_class = ClassSession, fd_conn = ConnDerived,
     fd_validate = (\<lambda>_. None),
     fd_diverges = (\<lambda>req active. \<not> (cf_pipeline req = [] \<or> cf_pipeline req = cf_pipeline active)),
     fd_apply_default = (\<lambda>c. c) \<rparr>"

definition session_rows :: "desc list" where
  "session_rows = [
     desc_of StorageUnset \<lparr> f_name = ''BlobStorage'', f_class = ClassSession, f_conn = ConnOverlay,
       f_get = cf_blob_storage, f_set = (\<lambda>v c. c \<lparr> cf_blob_storage := v \<rparr>),
       f_check = enum_check StorageUnset [StorageTarget, StorageInline], f_default = DefaultTo StorageTarget \<rparr>,
     desc_of VerifyUnset \<lparr> f_name = ''VerifyOnRead'', f_class = ClassSession, f_conn = ConnOverlay,
       f_get = cf_verify_on_read, f_set = (\<lambda>v c. c \<lparr> cf_verify_on_read := v \<rparr>),
       f_check = enum_check VerifyUnset [VerifyAuto, VerifyForceEnabled, VerifyDisabled], f_default = DefaultTo VerifyAuto \<rparr>,
     desc_of 0 \<lparr> f_name = ''InlineBlobLimit'', f_class = ClassSession, f_conn = ConnOverlay,
       f_get = cf_inline_blob_limit, f_set = (\<lambda>v c. c \<lparr> cf_inline_blob_limit := v \<rparr>),
       f_check = max_val max_inline_blob_limit, f_default = NoDefault \<rparr>,
     desc_of 0 \<lparr> f_name = ''PackAlignment'', f_class = ClassSession, f_conn = ConnOverlay,
       f_get = cf_pack_alignment, f_set = (\<lambda>v c. c \<lparr> cf_pack_alignment := v \<rparr>),
       f_check = enum_check 0 [pack_alignment_auto, 0, 512, 4096],
       f_default = DefaultFn (\<lambda>c. if cf_pack_alignment c = 0 then Some pack_alignment_auto else None) \<rparr>,
     desc_of 0 \<lparr> f_name = ''EagerFetchLimit'', f_class = ClassSession, f_conn = ConnOverlay,
       f_get = cf_eager_fetch_limit, f_set = (\<lambda>v c. c \<lparr> cf_eager_fetch_limit := v \<rparr>),
       f_check = (\<lambda>_. None), f_default = NoDefault \<rparr>,
     pipeline_desc]"

definition registry :: "desc list" where
  "registry = immutable_rows @ governance_rows @ session_rows"

definition apply_defaults :: "store_config \<Rightarrow> store_config" where
  "apply_defaults cfg = apply_all_defaults registry cfg"

definition validate_immutable :: "store_config \<Rightarrow> err option" where
  "validate_immutable cfg = validate_all registry cfg"

definition validate_against_active :: "store_config \<Rightarrow> store_config \<Rightarrow> err option" where
  "validate_against_active req active = mismatch_against_active registry req active"

subsection \<open>Connections\<close>

text \<open>The maximal all-crypto suffix of a pipeline.\<close>

definition crypto_tail :: "string list \<Rightarrow> string list" where
  "crypto_tail p = rev (takeWhile is_crypto_algorithm (rev p))"

definition validate_crypto_tail :: "string list \<Rightarrow> string list \<Rightarrow> err option" where
  "validate_crypto_tail req active =
     (let tail = crypto_tail active in
      if tail \<noteq> [] \<and> (length req < length tail \<or> drop (length req - length tail) req \<noteq> tail) then Some ErrConfigMismatch
      else if list_ex is_crypto_algorithm (take (length req - length tail) req) then Some ErrConfigMismatch
      else None)"

definition divergent_governance :: "store_config \<Rightarrow> store_config \<Rightarrow> string list" where
  "divergent_governance req active = divergent_by_class registry ClassGovernance req active"

definition divergent_session :: "store_config \<Rightarrow> store_config \<Rightarrow> string list" where
  "divergent_session req active = divergent_by_class registry ClassSession req active"

definition session_overlay :: "store_config \<Rightarrow> store_config" where
  "session_overlay req = zero_config \<lparr> cf_blob_storage := cf_blob_storage req, cf_verify_on_read := cf_verify_on_read req,
     cf_inline_blob_limit := cf_inline_blob_limit req, cf_pack_alignment := cf_pack_alignment req,
     cf_eager_fetch_limit := cf_eager_fetch_limit req, cf_pipeline := cf_pipeline req \<rparr>"

definition plan_connection :: "store_config \<Rightarrow> store_config \<Rightarrow> store_config res" where
  "plan_connection req active =
     (case validate_against_active req active of
        Some e \<Rightarrow> Inl e
      | None \<Rightarrow>
          if divergent_governance req active \<noteq> [] then Inl ErrGovernanceMismatch
          else if divergent_session req active \<noteq> [] \<and> cf_session_overrides active = OverridesDeny then Inl ErrGovernanceMismatch
          else if cf_pipeline req \<noteq> [] then
            (case validate_crypto_tail (cf_pipeline req) (cf_pipeline active) of
               Some e \<Rightarrow> Inl e
             | None \<Rightarrow> Inr (session_overlay req))
          else Inr (session_overlay req))"

definition merge_session :: "store_config \<Rightarrow> store_config \<Rightarrow> store_config" where
  "merge_session active overlay =
     (let c1 = (if cf_blob_storage overlay \<noteq> StorageUnset then active \<lparr> cf_blob_storage := cf_blob_storage overlay \<rparr> else active);
          c2 = (if cf_verify_on_read overlay \<noteq> VerifyUnset then c1 \<lparr> cf_verify_on_read := cf_verify_on_read overlay \<rparr> else c1);
          c3 = (if cf_inline_blob_limit overlay \<noteq> 0 then c2 \<lparr> cf_inline_blob_limit := cf_inline_blob_limit overlay \<rparr> else c2);
          c4 = (if cf_pack_alignment overlay \<noteq> 0 then c3 \<lparr> cf_pack_alignment := cf_pack_alignment overlay \<rparr> else c3);
          c5 = (if cf_eager_fetch_limit overlay \<noteq> 0 then c4 \<lparr> cf_eager_fetch_limit := cf_eager_fetch_limit overlay \<rparr> else c4)
      in if cf_pipeline overlay \<noteq> [] then c5 \<lparr> cf_pipeline := cf_pipeline overlay \<rparr> else c5)"

subsection \<open>Lemmas\<close>

lemma desc_of_simps [simp]:
  "fd_name (desc_of z f) = f_name f" "fd_class (desc_of z f) = f_class f" "fd_validate (desc_of z f) = field_validate f"
  "fd_diverges (desc_of z f) = field_diverges z f" "fd_apply_default (desc_of z f) = field_apply_default z f"
  by (simp_all add: desc_of_def)

lemmas rows_defs = immutable_rows_def governance_rows_def session_rows_def pipeline_desc_def

lemmas desc_defs = field_validate_def field_diverges_def field_apply_default_def Let_def

lemma crypto_tail_append:
  assumes "\<not> list_ex is_crypto_algorithm p" "list_all is_crypto_algorithm t"
  shows "crypto_tail (p @ t) = t"
proof -
  have "takeWhile is_crypto_algorithm (rev t @ rev p) = rev t @ takeWhile is_crypto_algorithm (rev p)"
    using assms(2) by (intro takeWhile_append2) (simp add: list_all_iff)
  moreover have "takeWhile is_crypto_algorithm (rev p) = []"
    using assms(1) by (cases "rev p") (auto simp: list_ex_iff takeWhile_eq_Nil_iff)
  ultimately show ?thesis by (simp add: crypto_tail_def)
qed

lemma crypto_tail_all: "list_all is_crypto_algorithm (crypto_tail p)"
  by (auto simp: crypto_tail_def list_all_iff dest: set_takeWhileD)

lemma validate_crypto_tail_iff:
  "validate_crypto_tail req active = None \<longleftrightarrow>
     (\<exists>p. req = p @ crypto_tail active \<and> \<not> list_ex is_crypto_algorithm p)"
proof
  assume a: "validate_crypto_tail req active = None"
  let ?t = "crypto_tail active" and ?n = "length req - length (crypto_tail active)"
  have "\<not> list_ex is_crypto_algorithm (take ?n req)" using a by (auto simp: validate_crypto_tail_def Let_def split: if_splits)
  moreover have "drop ?n req = ?t" using a by (cases "?t = []") (auto simp: validate_crypto_tail_def Let_def split: if_splits)
  ultimately show "\<exists>p. req = p @ ?t \<and> \<not> list_ex is_crypto_algorithm p" by (metis append_take_drop_id)
qed (auto simp: validate_crypto_tail_def Let_def)

lemma validate_crypto_tail_keeps: "validate_crypto_tail req active = None \<Longrightarrow> crypto_tail req = crypto_tail active"
  using crypto_tail_append crypto_tail_all by (metis validate_crypto_tail_iff)

lemma divergent_by_class_empty:
  "divergent_by_class reg c req active = [] \<longleftrightarrow> (\<forall>f \<in> set reg. fd_class f = c \<longrightarrow> \<not> fd_diverges f req active)"
  by (auto simp: divergent_by_class_def filter_empty_conv)

text \<open>An accepted connection, in one statement about the registry.\<close>

lemma plan_connection_okD:
  assumes "plan_connection req active = Inr ov"
  shows "ov = session_overlay req"
    and "\<forall>f \<in> set registry. fd_class f \<noteq> ClassSession \<longrightarrow> \<not> fd_diverges f req active"
    and "cf_session_overrides active = OverridesDeny \<Longrightarrow> \<forall>f \<in> set registry. \<not> fd_diverges f req active"
    and "cf_pipeline req \<noteq> [] \<Longrightarrow> validate_crypto_tail (cf_pipeline req) (cf_pipeline active) = None"
proof -
  have i: "\<forall>f \<in> set registry. fd_class f = ClassImmutable \<longrightarrow> \<not> fd_diverges f req active"
    and g: "\<forall>f \<in> set registry. fd_class f = ClassGovernance \<longrightarrow> \<not> fd_diverges f req active"
    and s: "cf_session_overrides active = OverridesDeny \<Longrightarrow> \<forall>f \<in> set registry. fd_class f = ClassSession \<longrightarrow> \<not> fd_diverges f req active"
    using assms
    by (auto simp: plan_connection_def validate_against_active_def mismatch_against_active_def divergent_governance_def
        divergent_session_def divergent_by_class_empty split: if_splits)
  show "ov = session_overlay req" "cf_pipeline req \<noteq> [] \<Longrightarrow> validate_crypto_tail (cf_pipeline req) (cf_pipeline active) = None"
    using assms by (auto simp: plan_connection_def split: if_splits option.splits)
  show ns: "\<forall>f \<in> set registry. fd_class f \<noteq> ClassSession \<longrightarrow> \<not> fd_diverges f req active"
    using i g by (metis field_class.exhaust)
  show "cf_session_overrides active = OverridesDeny \<Longrightarrow> \<forall>f \<in> set registry. \<not> fd_diverges f req active"
    using ns s by metis
qed

lemma merge_session_simps [simp]:
  "cf_blob_storage (merge_session a v) = (if cf_blob_storage v \<noteq> StorageUnset then cf_blob_storage v else cf_blob_storage a)"
  "cf_verify_on_read (merge_session a v) = (if cf_verify_on_read v \<noteq> VerifyUnset then cf_verify_on_read v else cf_verify_on_read a)"
  "cf_inline_blob_limit (merge_session a v) = (if cf_inline_blob_limit v \<noteq> 0 then cf_inline_blob_limit v else cf_inline_blob_limit a)"
  "cf_pack_alignment (merge_session a v) = (if cf_pack_alignment v \<noteq> 0 then cf_pack_alignment v else cf_pack_alignment a)"
  "cf_eager_fetch_limit (merge_session a v) = (if cf_eager_fetch_limit v \<noteq> 0 then cf_eager_fetch_limit v else cf_eager_fetch_limit a)"
  "cf_pipeline (merge_session a v) = (if cf_pipeline v \<noteq> [] then cf_pipeline v else cf_pipeline a)"
  "cf_path_topology (merge_session a v) = cf_path_topology a" "cf_manifest_encoding (merge_session a v) = cf_manifest_encoding a"
  "cf_manifest_crypto (merge_session a v) = cf_manifest_crypto a" "cf_encrypted_dedup (merge_session a v) = cf_encrypted_dedup a"
  "cf_content_hasher (merge_session a v) = cf_content_hasher a" "cf_segment_size (merge_session a v) = cf_segment_size a"
  "cf_identity_mode (merge_session a v) = cf_identity_mode a" "cf_deletion_policy (merge_session a v) = cf_deletion_policy a"
  "cf_deletion_policy_lock (merge_session a v) = cf_deletion_policy_lock a" "cf_retention_period (merge_session a v) = cf_retention_period a"
  "cf_tombstone_grace_period (merge_session a v) = cf_tombstone_grace_period a" "cf_gc_lease_policy (merge_session a v) = cf_gc_lease_policy a"
  "cf_session_overrides (merge_session a v) = cf_session_overrides a" "cf_max_artifact_size (merge_session a v) = cf_max_artifact_size a"
  "cf_kdf_params (merge_session a v) = cf_kdf_params a"
  by (simp_all add: merge_session_def Let_def)

lemma session_overlay_simps [simp]:
  "cf_blob_storage (session_overlay r) = cf_blob_storage r" "cf_verify_on_read (session_overlay r) = cf_verify_on_read r"
  "cf_inline_blob_limit (session_overlay r) = cf_inline_blob_limit r" "cf_pack_alignment (session_overlay r) = cf_pack_alignment r"
  "cf_eager_fetch_limit (session_overlay r) = cf_eager_fetch_limit r" "cf_pipeline (session_overlay r) = cf_pipeline r"
  by (simp_all add: session_overlay_def)

lemma merge_session_conn:
  assumes "\<forall>f \<in> set registry. fd_class f \<noteq> ClassSession \<longrightarrow> \<not> fd_diverges f req active"
  shows "\<forall>f \<in> set registry. \<not> fd_diverges f req (merge_session active (session_overlay req))"
    and "\<forall>f \<in> set registry. fd_class f \<noteq> ClassSession \<longrightarrow>
          \<not> fd_diverges f (merge_session active (session_overlay req)) active \<and> \<not> fd_diverges f active (merge_session active (session_overlay req))"
  using assms by (auto simp: registry_def rows_defs desc_defs)

lemma merge_session_same:
  assumes "\<forall>f \<in> set registry. \<not> fd_diverges f req active"
  shows "merge_session active (session_overlay req) = active"
proof -
  have "\<forall>f \<in> set session_rows. \<not> fd_diverges f req active" using assms by (simp add: registry_def)
  then show ?thesis
    by (intro store_config.equality) (auto simp: rows_defs desc_defs)
qed

text \<open>C31: the contract of a connection.  When \<^verbatim>\<open>PlanConnection\<close> accepts a client configuration, every field the
  client populated is in force in the session (none is silently ignored), no immutable and no governance
  field of the session differs from the store's, the crypto stages at the end of the pipeline are exactly
  the store's, and with \<^verbatim>\<open>SessionOverrides=Deny\<close> the session lives by the store's configuration unchanged.\<close>

theorem connection_contract:
  assumes "plan_connection req active = Inr ov"
  shows "(\<forall>f \<in> set registry. \<not> fd_diverges f req (merge_session active ov))
    \<and> (\<forall>f \<in> set registry. fd_class f \<noteq> ClassSession \<longrightarrow>
          \<not> fd_diverges f (merge_session active ov) active \<and> \<not> fd_diverges f active (merge_session active ov))
    \<and> crypto_tail (cf_pipeline (merge_session active ov)) = crypto_tail (cf_pipeline active)
    \<and> (cf_session_overrides active = OverridesDeny \<longrightarrow> merge_session active ov = active)"
proof -
  note ok = plan_connection_okD [OF assms]
  have "crypto_tail (cf_pipeline (merge_session active ov)) = crypto_tail (cf_pipeline active)"
    using ok(1,4) validate_crypto_tail_keeps by simp
  then show ?thesis
    using merge_session_conn [OF ok(2)] merge_session_same [OF ok(3)] by (simp add: ok(1))
qed

text \<open>Applying a default as one unconditional update.\<close>

definition or_else :: "bool \<Rightarrow> 't \<Rightarrow> 't \<Rightarrow> 't" where
  "or_else b v x = (if b then v else x)"

lemma crypto_or_else:
  "or_else (x = CryptoUnset) CryptoPlain x \<noteq> CryptoUnset \<and> or_else (x = CryptoUnset) CryptoPlain x \<noteq> CryptoPlain
     \<longleftrightarrow> x \<noteq> CryptoUnset \<and> x \<noteq> CryptoPlain"
  by (simp add: or_else_def)

lemma apply_default_to:
  assumes "f_default f = DefaultTo v" "v \<noteq> zero" "f_set f (f_get f c) c = c"
  shows "field_apply_default zero f c = f_set f (or_else (f_get f c = zero) v (f_get f c)) c"
  using assms by (simp add: field_apply_default_def or_else_def)

lemma apply_default_fn:
  assumes "f_default f = DefaultFn g" "f_set f (f_get f c) c = c"
  shows "field_apply_default zero f c = f_set f (case g c of Some v \<Rightarrow> v | None \<Rightarrow> f_get f c) c"
  using assms by (simp add: field_apply_default_def split: option.split)

lemma no_default: "f_default f = NoDefault \<Longrightarrow> field_apply_default zero f c = c"
  by (simp add: field_apply_default_def)

lemma option_if_case: "(case (if b then Some x else None) of Some v \<Rightarrow> v | None \<Rightarrow> y) = or_else b x y"
  by (simp add: or_else_def)

text \<open>What defaulting computes, field by field; the fields not listed are kept.\<close>

lemma apply_defaults_conv:
  "apply_defaults c = c \<lparr>
     cf_path_topology := or_else (cf_path_topology c = TopologyUnset) (TopologySharded) (cf_path_topology c),
     cf_manifest_encoding := or_else (cf_manifest_encoding c = EncodingUnset) (EncodingJSON) (cf_manifest_encoding c),
     cf_manifest_crypto := or_else (cf_manifest_crypto c = CryptoUnset) (CryptoPlain) (cf_manifest_crypto c),
     cf_encrypted_dedup := or_else (cf_encrypted_dedup c = DedupUnset \<and> is_encrypting_config c) (DedupDisabled) (cf_encrypted_dedup c),
     cf_content_hasher := or_else (cf_content_hasher c = HasherUnset) (HashSHA256) (cf_content_hasher c),
     cf_segment_size := or_else (cf_segment_size c = 0 \<and> is_encrypting_config c) (default_segment_cfg) (cf_segment_size c),
     cf_deletion_policy := or_else (cf_deletion_policy c = DeletionUnset) (DeletionFree) (cf_deletion_policy c),
     cf_tombstone_grace_period := or_else (cf_tombstone_grace_period c = 0) (24 * hour) (cf_tombstone_grace_period c),
     cf_gc_lease_policy := or_else (cf_gc_lease_policy c = GCLeaseUnset) (GCLeaseAuto) (cf_gc_lease_policy c),
     cf_session_overrides := or_else (cf_session_overrides c = OverridesUnset) (OverridesAllow) (cf_session_overrides c),
     cf_blob_storage := or_else (cf_blob_storage c = StorageUnset) (StorageTarget) (cf_blob_storage c),
     cf_verify_on_read := or_else (cf_verify_on_read c = VerifyUnset) (VerifyAuto) (cf_verify_on_read c),
     cf_pack_alignment := or_else (cf_pack_alignment c = 0) (pack_alignment_auto) (cf_pack_alignment c) \<rparr>"
  by (simp add: apply_defaults_def registry_def rows_defs apply_default_to apply_default_fn option_if_case no_default
      is_encrypting_config_def crypto_or_else split del: if_split)

lemma apply_defaults_encrypting [simp]: "is_encrypting_config (apply_defaults c) = is_encrypting_config c"
  by (simp add: apply_defaults_conv is_encrypting_config_def crypto_or_else)

declare validate_all.simps [simp del]

lemma validate_all_None: "validate_all reg c = None \<longleftrightarrow> (\<forall>f \<in> set reg. fd_validate f c = None)"
  by (induction reg) (auto simp: validate_all.simps split: option.splits)

text \<open>A row that validates a filled-in default exactly when it validates the value it replaces.\<close>

lemma enum_check_or_else:
  "v \<in> set allowed \<Longrightarrow> (enum_check zero allowed (or_else (x = zero) v x) = None) = (enum_check zero allowed x = None)"
  "v \<in> set allowed \<Longrightarrow> (enum_check zero allowed (or_else (x = zero \<and> b) v x) = None) = (enum_check zero allowed x = None)"
  by (auto simp: enum_check_def or_else_def)

lemma validate_immutable_iff:
  "validate_immutable c = None \<longleftrightarrow>
     enum_check TopologyUnset [TopologyFlat, TopologySharded] (cf_path_topology c) = None
   \<and> encoding_check (cf_manifest_encoding c) = None
   \<and> enum_check CryptoUnset [CryptoPlain, CryptoSealed, CryptoParanoid] (cf_manifest_crypto c) = None
   \<and> enum_check DedupUnset [DedupDisabled, DedupConvergent] (cf_encrypted_dedup c) = None
   \<and> enum_check HasherUnset [HashSHA256, HashBLAKE3] (cf_content_hasher c) = None
   \<and> range_val min_segment_cfg max_segment_cfg (cf_segment_size c) = None
   \<and> enum_check IdentityUnset [IdentityUnique, IdentityCoalesced] (cf_identity_mode c) = None
   \<and> enum_check DeletionUnset [DeletionFree, DeletionRetention, DeletionNoDelete] (cf_deletion_policy c) = None
   \<and> min_val min_retention_period (cf_retention_period c) = None
   \<and> with_sentinel (min_val min_tombstone_grace_period) ErrInvalidTombstoneGracePeriod (cf_tombstone_grace_period c) = None
   \<and> enum_check GCLeaseUnset [GCLeaseAuto, GCLeaseSingleHost, GCLeaseLeaderElection] (cf_gc_lease_policy c) = None
   \<and> enum_check OverridesUnset [OverridesAllow, OverridesDeny] (cf_session_overrides c) = None
   \<and> non_negative (cf_max_artifact_size c) = None
   \<and> enum_check StorageUnset [StorageTarget, StorageInline] (cf_blob_storage c) = None
   \<and> enum_check VerifyUnset [VerifyAuto, VerifyForceEnabled, VerifyDisabled] (cf_verify_on_read c) = None
   \<and> max_val max_inline_blob_limit (cf_inline_blob_limit c) = None
   \<and> enum_check 0 [pack_alignment_auto, 0, 512, 4096] (cf_pack_alignment c) = None"
  by (simp add: validate_immutable_def validate_all_None registry_def rows_defs field_validate_def)

text \<open>The fields of a defaulted configuration.\<close>

lemma apply_defaults_fields:
  "cf_path_topology (apply_defaults c) = or_else (cf_path_topology c = TopologyUnset) TopologySharded (cf_path_topology c)"
  "cf_manifest_encoding (apply_defaults c) = or_else (cf_manifest_encoding c = EncodingUnset) EncodingJSON (cf_manifest_encoding c)"
  "cf_manifest_crypto (apply_defaults c) = or_else (cf_manifest_crypto c = CryptoUnset) CryptoPlain (cf_manifest_crypto c)"
  "cf_encrypted_dedup (apply_defaults c) = or_else (cf_encrypted_dedup c = DedupUnset \<and> is_encrypting_config c) DedupDisabled (cf_encrypted_dedup c)"
  "cf_content_hasher (apply_defaults c) = or_else (cf_content_hasher c = HasherUnset) HashSHA256 (cf_content_hasher c)"
  "cf_segment_size (apply_defaults c) = or_else (cf_segment_size c = 0 \<and> is_encrypting_config c) default_segment_cfg (cf_segment_size c)"
  "cf_deletion_policy (apply_defaults c) = or_else (cf_deletion_policy c = DeletionUnset) DeletionFree (cf_deletion_policy c)"
  "cf_tombstone_grace_period (apply_defaults c) = or_else (cf_tombstone_grace_period c = 0) (24 * hour) (cf_tombstone_grace_period c)"
  "cf_gc_lease_policy (apply_defaults c) = or_else (cf_gc_lease_policy c = GCLeaseUnset) GCLeaseAuto (cf_gc_lease_policy c)"
  "cf_session_overrides (apply_defaults c) = or_else (cf_session_overrides c = OverridesUnset) OverridesAllow (cf_session_overrides c)"
  "cf_blob_storage (apply_defaults c) = or_else (cf_blob_storage c = StorageUnset) StorageTarget (cf_blob_storage c)"
  "cf_verify_on_read (apply_defaults c) = or_else (cf_verify_on_read c = VerifyUnset) VerifyAuto (cf_verify_on_read c)"
  "cf_pack_alignment (apply_defaults c) = or_else (cf_pack_alignment c = 0) pack_alignment_auto (cf_pack_alignment c)"
  "cf_identity_mode (apply_defaults c) = cf_identity_mode c" "cf_retention_period (apply_defaults c) = cf_retention_period c"
  "cf_max_artifact_size (apply_defaults c) = cf_max_artifact_size c" "cf_inline_blob_limit (apply_defaults c) = cf_inline_blob_limit c"
  "cf_deletion_policy_lock (apply_defaults c) = cf_deletion_policy_lock c" "cf_eager_fetch_limit (apply_defaults c) = cf_eager_fetch_limit c"
  "cf_pipeline (apply_defaults c) = cf_pipeline c" "cf_kdf_params (apply_defaults c) = cf_kdf_params c"
  by (simp_all add: apply_defaults_conv)

lemma or_else_idem [simp]: "v \<noteq> z \<Longrightarrow> or_else (or_else (x = z) v x = z) v (or_else (x = z) v x) = or_else (x = z) v x"
  "v \<noteq> z \<Longrightarrow> or_else (or_else (x = z \<and> b) v x = z \<and> b) v (or_else (x = z \<and> b) v x) = or_else (x = z \<and> b) v x"
  by (simp_all add: or_else_def)

lemma apply_defaults_idem: "apply_defaults (apply_defaults c) = apply_defaults c"
  by (rule store_config.equality)
     (simp_all add: apply_defaults_fields default_segment_cfg_def hour_def pack_alignment_auto_def)

lemma defaults_validate: "validate_immutable (apply_defaults c) = None \<longleftrightarrow> validate_immutable c = None"
proof -
  have e: "encoding_check (or_else (cf_manifest_encoding c = EncodingUnset) EncodingJSON (cf_manifest_encoding c)) = encoding_check (cf_manifest_encoding c)"
    by (simp add: encoding_check_def or_else_def)
  have s: "range_val min_segment_cfg max_segment_cfg (or_else (cf_segment_size c = 0 \<and> is_encrypting_config c) default_segment_cfg (cf_segment_size c))
      = range_val min_segment_cfg max_segment_cfg (cf_segment_size c)"
    by (simp add: range_val_def or_else_def min_segment_cfg_def max_segment_cfg_def default_segment_cfg_def)
  have t: "with_sentinel (min_val min_tombstone_grace_period) x (or_else (cf_tombstone_grace_period c = 0) (24 * hour) (cf_tombstone_grace_period c))
      = with_sentinel (min_val min_tombstone_grace_period) x (cf_tombstone_grace_period c)" for x
    by (simp add: with_sentinel_def min_val_def or_else_def min_tombstone_grace_period_def hour_def)
  show ?thesis
    by (simp only: validate_immutable_iff apply_defaults_fields e s t enum_check_or_else list.set insert_iff simp_thms)
qed

text \<open>C32: defaulting is idempotent, keeps every value the operator populated, and neither repairs nor breaks the
  validity of a configuration.\<close>

theorem defaults_contract:
  "apply_defaults (apply_defaults c) = apply_defaults c
    \<and> (\<forall>f \<in> set registry. \<not> fd_diverges f c (apply_defaults c))
    \<and> (validate_immutable (apply_defaults c) = None \<longleftrightarrow> validate_immutable c = None)"
proof -
  have "\<forall>f \<in> set registry. \<not> fd_diverges f c (apply_defaults c)"
    by (simp add: registry_def rows_defs field_diverges_def Let_def apply_defaults_fields) (simp add: or_else_def)
  then show ?thesis using apply_defaults_idem defaults_validate by blast
qed

subsection \<open>Concrete instances\<close>

definition sealed_config :: store_config where
  "sealed_config = zero_config \<lparr> cf_manifest_crypto := CryptoSealed, cf_pipeline := [''zstd'', ''aes-gcm''],
     cf_segment_size := 128 * 2 ^ 20 \<rparr>"

definition raw_client :: store_config where
  "raw_client = zero_config \<lparr> cf_pipeline := [''aes-gcm''], cf_manifest_crypto := CryptoSealed \<rparr>"

lemma sample_crypto_algos [simp]: "is_crypto_algorithm ''aes-gcm''" "\<not> is_crypto_algorithm ''zstd''"
  by (simp_all add: is_crypto_algorithm_def to_lower_def lower_char_def)

theorem connection_contract_witness:
  "\<exists>ov. plan_connection raw_client sealed_config = Inr ov
    \<and> cf_pipeline (merge_session sealed_config ov) = [''aes-gcm'']
    \<and> crypto_tail (cf_pipeline (merge_session sealed_config ov)) = crypto_tail (cf_pipeline sealed_config)"
proof -
  have p: "plan_connection raw_client sealed_config = Inr (session_overlay raw_client)"
    by (simp add: plan_connection_def validate_against_active_def mismatch_against_active_def divergent_governance_def
        divergent_session_def divergent_by_class_def registry_def rows_defs desc_defs raw_client_def sealed_config_def
        zero_config_def validate_crypto_tail_def crypto_tail_def)
  have "cf_pipeline (merge_session sealed_config (session_overlay raw_client)) = [''aes-gcm'']"
    by (simp add: raw_client_def)
  then show ?thesis using connection_contract [OF p] p by blast
qed

theorem defaults_contract_witness:
  "validate_immutable (apply_defaults sealed_config) = None
    \<and> \<not> fd_diverges (hd registry) sealed_config (apply_defaults sealed_config)"
proof -
  have "validate_immutable sealed_config = None"
    by (simp add: validate_immutable_iff enum_check_def min_val_def max_val_def range_val_def
        non_negative_def with_sentinel_def encoding_check_def sealed_config_def zero_config_def min_segment_cfg_def max_segment_cfg_def)
  moreover have "hd registry \<in> set registry" by (simp add: registry_def immutable_rows_def)
  ultimately show ?thesis using defaults_contract [of sealed_config] by blast
qed

end
