(* ===== verification/Pipeline.thy ===== *)
theory Pipeline
  imports Segaead Config
begin

text \<open>
  The transformation pipeline of a blob: the factory and registry contracts of
  \<^verbatim>\<open>engine/pipeline/transformer.go\<close>, the two stages the engine ships (\<^verbatim>\<open>stage/aesgcm\<close> over the segmented AEAD of
  \<^verbatim>\<open>Segaead\<close>, and \<^verbatim>\<open>stage/zstd\<close> over an external compressor), and the runner that composes encoders on the
  write path, decoders in reverse on the read path, and tees the hashes (\<^verbatim>\<open>engine/pipeline/runner.go\<close>).

  A stage is a function from the stream it reads to the stream it yields; a stream is the bytes and the
  error it ends with.  A stage reads its input to the end, so the bytes a tee feeds to its hasher are
  the bytes of the stream.  The compressor is a parameter \<open>zstd_lib\<close>.
\<close>

subsection \<open>Contracts\<close>

record encode_context =
  ec_key_id :: string
  ec_encrypted_dedup :: encrypted_dedup
  ec_segment_size :: int

record transform_result =
  tr_output_size :: nat
  tr_iv :: bytes
  tr_key_id :: string

record transformer =
  tf_encode :: "encode_context \<Rightarrow> reader \<Rightarrow> reader \<times> transform_result"
  tf_decode :: "pipeline_stage \<Rightarrow> reader \<Rightarrow> reader"
  tf_aead :: bool

type_synonym transformer_registry = "string \<Rightarrow> transformer option"

definition transformer_get :: "transformer_registry \<Rightarrow> string \<Rightarrow> transformer res" where
  "transformer_get T i = (case T i of None \<Rightarrow> Inl ErrUnsupportedAlgorithm | Some f \<Rightarrow> Inr f)"

definition transformer_register :: "string \<Rightarrow> transformer \<Rightarrow> transformer_registry \<Rightarrow> transformer_registry" where
  "transformer_register i f T = T(i \<mapsto> f)"

text \<open>The stream of a reader that is read with a buffer of 512 bytes until it reports an error; \<open>k\<close> bounds the
  number of reads, and running out of it is an error of its own.\<close>

definition stream_of :: "('s \<Rightarrow> nat \<Rightarrow> (bytes \<times> err option) \<times> 's) \<Rightarrow> 's \<Rightarrow> nat \<Rightarrow> reader" where
  "stream_of rd st k = (case drain rd st (replicate k 512) of
      (b, None) \<Rightarrow> (b, Some (ErrMsg ''fuel''))
    | (b, Some e) \<Rightarrow> (b, if e = ErrEOF then None else Some e))"

subsection \<open>The AES-GCM stage\<close>

definition iv_mode_for :: "encrypted_dedup \<Rightarrow> iv_mode" where
  "iv_mode_for d = (if d = DedupConvergent then IVModeConvergent else IVModeRandom)"

definition err_reader :: "err \<Rightarrow> reader" where
  "err_reader e = ([], Some e)"

definition decrypt_err_reader :: "reader \<Rightarrow> reader" where
  "decrypt_err_reader r = (fst r, if snd r = Some ErrSegmentAuth then Some ErrDecryptionFailed else snd r)"

text \<open>Draining the sealing reader over \<open>n\<close> plaintext bytes takes at most the header and 33 bytes per byte.\<close>

definition seal_reads :: "seal_params \<Rightarrow> nat \<Rightarrow> nat" where
  "seal_reads p n = fixed_header_len + length (sp_key_id p) + 33 * n + 1"

definition gcm_encode :: "cipher \<Rightarrow> iv_source \<Rightarrow> seal_params \<Rightarrow> reader \<Rightarrow> reader" where
  "gcm_encode C V p src = (case seal src p of
      Inl e \<Rightarrow> err_reader e
    | Inr s \<Rightarrow> stream_of (seal_read C V) s (seal_reads p (length (fst src))))"

definition gcm_decode :: "cipher \<Rightarrow> bytes list \<Rightarrow> reader \<Rightarrow> reader" where
  "gcm_decode C keys src = (case seg_open src keys of
      Inl e \<Rightarrow> err_reader e
    | Inr r \<Rightarrow> decrypt_err_reader (stream_of (open_read C) r (length (fst src) + 1)))"

text \<open>Size reported by \<^verbatim>\<open>Result\<close>: what was handed out by the sealing reader, 0 when it was never built.\<close>

definition gcm_result :: "seal_params \<Rightarrow> reader \<Rightarrow> transform_result" where
  "gcm_result p out = \<lparr> tr_output_size = length (fst out), tr_iv = [], tr_key_id = sp_key_id p \<rparr>"

definition resolve_keys :: "key_provider option \<Rightarrow> string \<Rightarrow> bytes list res" where
  "resolve_keys R kid = (case R of
      None \<Rightarrow> Inl (ErrMsg ''aesgcm: KeyResolver not provided'')
    | Some g \<Rightarrow> (case g kid of
        Inl e \<Rightarrow> Inl e
      | Inr keys \<Rightarrow> if keys = [] then Inl (ErrMsg ''aesgcm: KeyResolver returned no keys'') else Inr keys))"

fun build_aeads :: "bytes list \<Rightarrow> bytes list res" where
  "build_aeads [] = Inr []"
| "build_aeads (k # ks) = (case new_gcm k of
      Inl e \<Rightarrow> Inl e
    | Inr _ \<Rightarrow> (case build_aeads ks of Inl e \<Rightarrow> Inl e | Inr out \<Rightarrow> Inr (k # out)))"

definition resolve_aeads :: "key_provider option \<Rightarrow> string \<Rightarrow> bytes list res" where
  "resolve_aeads R kid = (case resolve_keys R kid of Inl e \<Rightarrow> Inl e | Inr keys \<Rightarrow> build_aeads keys)"

definition gcm_params :: "encode_context \<Rightarrow> bytes \<Rightarrow> string \<Rightarrow> seal_params" where
  "gcm_params ec dek kid = \<lparr> sp_mode = iv_mode_for (ec_encrypted_dedup ec), sp_dek = dek, sp_key_id = kid,
     sp_segment_size = ec_segment_size ec \<rparr>"

definition resolver_encode ::
    "cipher \<Rightarrow> iv_source \<Rightarrow> key_provider option \<Rightarrow> encode_context \<Rightarrow> reader \<Rightarrow> reader \<times> transform_result" where
  "resolver_encode C V R ec src =
     (case resolve_keys R (ec_key_id ec) of
        Inl e \<Rightarrow> (err_reader e, \<lparr> tr_output_size = 0, tr_iv = [], tr_key_id = ec_key_id ec \<rparr>)
      | Inr keys \<Rightarrow>
     (case new_gcm (hd keys) of
        Inl e \<Rightarrow> (err_reader e, \<lparr> tr_output_size = 0, tr_iv = [], tr_key_id = ec_key_id ec \<rparr>)
      | Inr _ \<Rightarrow>
          let p = gcm_params ec (hd keys) (ec_key_id ec); out = gcm_encode C V p src in (out, gcm_result p out)))"

definition resolver_decode :: "cipher \<Rightarrow> key_provider option \<Rightarrow> pipeline_stage \<Rightarrow> reader \<Rightarrow> reader" where
  "resolver_decode C R stage src =
     (case resolve_aeads R (ps_key_id stage) of
        Inl e \<Rightarrow> err_reader e
      | Inr keys \<Rightarrow> gcm_decode C keys src)"

definition aesgcm_resolver :: "cipher \<Rightarrow> iv_source \<Rightarrow> key_provider option \<Rightarrow> transformer" where
  "aesgcm_resolver C V R = \<lparr> tf_encode = resolver_encode C V R, tf_decode = resolver_decode C R, tf_aead = True \<rparr>"

text \<open>The pinned-DEK factory: a fixed key and an empty key identifier.\<close>

definition aesgcm_pinned :: "cipher \<Rightarrow> iv_source \<Rightarrow> bytes \<Rightarrow> transformer res" where
  "aesgcm_pinned C V key =
     (case new_gcm key of
        Inl e \<Rightarrow> Inl e
      | Inr _ \<Rightarrow> Inr \<lparr>
          tf_encode = (\<lambda>ec src. let p = gcm_params ec key []; out = gcm_encode C V p src in (out, gcm_result p out)),
          tf_decode = (\<lambda>_ src. gcm_decode C [key] src),
          tf_aead = True \<rparr>)"

text \<open>\<^verbatim>\<open>staticKeyResolver.GetKeys\<close>: one key for every identifier, none once it is closed.\<close>

definition static_get_keys :: "bytes option \<Rightarrow> key_provider" where
  "static_get_keys dek kid = Inr (case dek of None \<Rightarrow> [] | Some k \<Rightarrow> [k])"

subsection \<open>The zstd stage\<close>

record zstd_lib =
  z_new_writer :: "err option"
  z_compress :: "bytes \<Rightarrow> bytes"
  z_new_reader :: "reader \<Rightarrow> err option"
  z_decompress :: "reader \<Rightarrow> reader"

text \<open>The frame is closed before the error of the source is passed on, so the bytes of an interrupted source are
  still flushed.\<close>

definition zstd_encode :: "zstd_lib \<Rightarrow> reader \<Rightarrow> reader" where
  "zstd_encode Z src = (case z_new_writer Z of
      Some e \<Rightarrow> err_reader e
    | None \<Rightarrow> (z_compress Z (fst src), snd src))"

definition zstd_decode :: "zstd_lib \<Rightarrow> reader \<Rightarrow> reader" where
  "zstd_decode Z src = (case z_new_reader Z src of
      Some e \<Rightarrow> err_reader e
    | None \<Rightarrow> (case z_decompress Z src of (b, e) \<Rightarrow> (b, if e = Some ErrEOF then None else e)))"

definition zstd_stage :: "zstd_lib \<Rightarrow> transformer" where
  "zstd_stage Z = \<lparr>
     tf_encode = (\<lambda>_ src. let out = zstd_encode Z src in
        (out, \<lparr> tr_output_size = length (fst out), tr_iv = [], tr_key_id = [] \<rparr>)),
     tf_decode = (\<lambda>_ src. zstd_decode Z src),
     tf_aead = False \<rparr>"

subsection \<open>The runner\<close>

record put_stage =
  st_algorithm :: string
  st_result :: transform_result
  st_fed :: bytes

record put_pipeline =
  pp_stages :: "put_stage list"
  pp_content :: bytes
  pp_blob :: bytes
  pp_algo :: string
  pp_hash :: hash_fun

fun encode_stages :: "transformer_registry \<Rightarrow> encode_context \<Rightarrow> string list \<Rightarrow> reader \<Rightarrow> (reader \<times> put_stage list) res" where
  "encode_stages T ec [] cur = Inr (cur, [])"
| "encode_stages T ec (a # as) cur =
     (case transformer_get T a of
        Inl e \<Rightarrow> Inl e
      | Inr f \<Rightarrow>
          let (out, r) = tf_encode f ec cur in
          (case encode_stages T ec as out of
             Inl e \<Rightarrow> Inl e
           | Inr (fin, sts) \<Rightarrow> Inr (fin, \<lparr> st_algorithm = a, st_result = r, st_fed = fst out \<rparr> # sts)))"

text \<open>The last stage shares its hasher with the blob reference; only a pipeline without stages tees its input into
  that hasher directly.\<close>

definition build_put ::
    "hash_registry \<Rightarrow> transformer_registry \<Rightarrow> string \<Rightarrow> reader \<Rightarrow> string list \<Rightarrow> encode_context
      \<Rightarrow> (reader \<times> put_pipeline) res" where
  "build_put H T algo input algos ec =
     (case new_hasher H algo of
        Inl e \<Rightarrow> Inl e
      | Inr h \<Rightarrow>
     (case encode_stages T ec algos input of
        Inl e \<Rightarrow> Inl e
      | Inr (out, sts) \<Rightarrow> Inr (out, \<lparr> pp_stages = sts, pp_content = fst input,
          pp_blob = (if algos = [] then fst out else st_fed (last sts)), pp_algo = algo, pp_hash = h \<rparr>)))"

definition finalize :: "put_pipeline \<Rightarrow> string \<times> string \<times> pipeline_stage list" where
  "finalize pp = (hex_encode (pp_hash pp (pp_content pp)), hex_encode (pp_hash pp (pp_blob pp)),
     map (\<lambda>st. \<lparr> ps_algorithm = st_algorithm st, ps_hash = hash_format (pp_algo pp) (pp_hash pp (st_fed st)),
                 ps_iv = tr_iv (st_result st), ps_key_id = tr_key_id (st_result st) \<rparr>) (pp_stages pp))"

definition content_bytes_read :: "put_pipeline \<Rightarrow> nat" where
  "content_bytes_read pp = length (pp_content pp)"

fun decode_chain :: "transformer_registry \<Rightarrow> pipeline_stage list \<Rightarrow> reader \<Rightarrow> reader res" where
  "decode_chain T [] cur = Inr cur"
| "decode_chain T (s # ss) cur =
     (case transformer_get T (ps_algorithm s) of
        Inl e \<Rightarrow> Inl e
      | Inr f \<Rightarrow> decode_chain T ss (tf_decode f s cur))"

definition build_get :: "transformer_registry \<Rightarrow> pipeline_stage list \<Rightarrow> reader \<Rightarrow> reader res" where
  "build_get T stages underlying = decode_chain T (rev stages) underlying"

definition aead_terminal_err :: "transformer \<Rightarrow> nat \<Rightarrow> string list \<Rightarrow> err option" where
  "aead_terminal_err f i algos = (if tf_aead f \<and> int i \<noteq> int (length algos) - 1 then Some ErrInvalidPipeline else None)"

fun validate_algos_from :: "transformer_registry \<Rightarrow> string list \<Rightarrow> nat \<Rightarrow> string list \<Rightarrow> err option" where
  "validate_algos_from T algos i [] = None"
| "validate_algos_from T algos i (a # as) =
     (case transformer_get T a of
        Inl e \<Rightarrow> Some e
      | Inr f \<Rightarrow> (case aead_terminal_err f i algos of
           Some e \<Rightarrow> Some e
         | None \<Rightarrow> validate_algos_from T algos (i + 1) as))"

definition validate_algos :: "transformer_registry \<Rightarrow> string list \<Rightarrow> err option" where
  "validate_algos T algos = validate_algos_from T algos 0 algos"

fun validate_composition_from :: "transformer_registry \<Rightarrow> string list \<Rightarrow> nat \<Rightarrow> string list \<Rightarrow> err option" where
  "validate_composition_from T algos i [] = None"
| "validate_composition_from T algos i (a # as) =
     (case transformer_get T a of
        Inl e \<Rightarrow> validate_composition_from T algos (i + 1) as
      | Inr f \<Rightarrow> (case aead_terminal_err f i algos of
           Some e \<Rightarrow> Some e
         | None \<Rightarrow> validate_composition_from T algos (i + 1) as))"

definition validate_composition :: "transformer_registry \<Rightarrow> string list \<Rightarrow> err option" where
  "validate_composition T algos = validate_composition_from T algos 0 algos"

subsection \<open>The AES-GCM stage is lossless\<close>

lemma length_chunks: "n \<noteq> 0 \<Longrightarrow> length (chunks n xs) \<le> length xs"
proof (induction n xs rule: chunks.induct)
  case (1 n xs)
  show ?case
  proof (cases "xs = []")
    case False
    then have "length (drop n xs) < length xs" "length (chunks n (drop n xs)) \<le> length (drop n xs)" using 1 by auto
    then have "Suc (length (chunks n (drop n xs))) \<le> length xs" by linarith
    then show ?thesis using 1(2) False by simp
  qed simp
qed

lemma stream_of_total:
  "drain rd st (replicate k 512) = (b, Some e) \<Longrightarrow> stream_of rd st k = (b, if e = ErrEOF then None else Some e)"
  by (simp add: stream_of_def)

lemma gcm_encode_blob:
  assumes "aead_correct C" "ivs_ok V" "seal (b, e) p = Inr s" "eof_like e"
  obtains hdr seg where "encode_header \<lparr> sh_mode = sp_mode p, sh_segment_size = seg, sh_key_id = sp_key_id p \<rparr> = Inr hdr"
    "0 < seg" "seg \<le> max_segment_size"
    "gcm_encode C V p (b, e)
       = (hdr @ concat (map fst (blob_frames C V (sp_mode p) (sp_dek p) (sp_key_id p) 0 (chunks seg b))), None)"
proof -
  obtain hdr seg where h: "encode_header \<lparr> sh_mode = sp_mode p, sh_segment_size = seg, sh_key_id = sp_key_id p \<rparr> = Inr hdr"
    "0 < seg" "seg \<le> max_segment_size" "seal_good s" "fr_err s = None"
    "sealing.total C V s = (hdr @ concat (map fst (blob_frames C V (sp_mode p) (sp_dek p) (sp_key_id p) 0 (chunks seg b))), ErrEOF)"
    by (rule sealed_total [OF assms(3,2,4)])
  let ?blob = "hdr @ concat (map fst (blob_frames C V (sp_mode p) (sp_dek p) (sp_key_id p) 0 (chunks seg b)))"
  have "length ?blob = fixed_header_len + length (sp_key_id p) + length b + 32 * length (chunks seg b)"
    using decode_encode_header(2) [OF h(1)] h(2,3) length_blob_frames [OF assms(2,1)] by (simp add: concat_chunks)
  also have "\<dots> < seal_reads p (length b)" using length_chunks [of seg b] h(2) by (simp add: seal_reads_def)
  finally have "drain (seal_read C V) s (replicate (seal_reads p (length b)) 512) = (?blob, Some ErrEOF)"
    using sealing.drain_all [OF h(4,5), of "replicate (seal_reads p (length b)) 512" C V] h(6) by (simp add: seal_read_def [abs_def])
  then have "gcm_encode C V p (b, e) = (?blob, None)" using assms(3) by (simp add: gcm_encode_def stream_of_total)
  then show thesis by (rule that [OF h(1-3)])
qed

lemma gcm_decode_frames:
  assumes "encode_header \<lparr> sh_mode = m, sh_segment_size = seg, sh_key_id = kid \<rparr> = Inr hdr" "seg \<le> max_segment_size" "keys \<noteq> []"
    and "open_frames C keys fr None = (plain, ErrEOF)" "length plain \<le> length hdr + length fr"
  shows "gcm_decode C keys (hdr @ fr, None) = (plain, None)"
proof -
  obtain r where o: "seg_open (hdr @ fr, None) keys = Inr r" using assms(3) by (simp add: seg_open_def)
  have t: "unsealing.total C r = (plain, ErrEOF)" "fr_err r = None"
    using opened_total [OF assms(1) _ o] assms(2,4) by simp_all
  have "drain (open_read C) r (replicate (length (hdr @ fr) + 1) 512) = (plain, Some ErrEOF)"
    using unsealing.drain_all [OF _ t(2), of "replicate (length (hdr @ fr) + 1) 512" C] t(1) assms(5)
    by (simp add: open_read_def [abs_def])
  then show ?thesis
    using o by (simp add: gcm_decode_def stream_of_total decrypt_err_reader_def)
qed

lemma gcm_roundtrip:
  assumes "aead_correct C" "ivs_ok V" "key_committing C (sp_dek p) keys" "sp_dek p \<in> set keys"
    and "seal (b, e) p = Inr s" "eof_like e"
  shows "\<exists>blob. gcm_encode C V p (b, e) = (blob, None) \<and> gcm_decode C keys (blob, None) = (b, None)"
proof -
  obtain hdr seg where h: "encode_header \<lparr> sh_mode = sp_mode p, sh_segment_size = seg, sh_key_id = sp_key_id p \<rparr> = Inr hdr"
    "0 < seg" "seg \<le> max_segment_size"
    "gcm_encode C V p (b, e)
       = (hdr @ concat (map fst (blob_frames C V (sp_mode p) (sp_dek p) (sp_key_id p) 0 (chunks seg b))), None)"
    by (rule gcm_encode_blob [OF assms(1,2,5,6)])
  let ?fs = "blob_frames C V (sp_mode p) (sp_dek p) (sp_key_id p) 0 (chunks seg b)"
  have "open_frames C keys (concat (map fst ?fs)) None = (b, ErrEOF)"
    using open_frames_any [OF assms(1,3,4) blob_frames_small [OF assms(2) h(2,3)]]
      seal_segments_frames [OF assms(2)] h(2) by (simp add: concat_chunks)
  moreover have "length b \<le> length hdr + length (concat (map fst ?fs))"
    using length_blob_frames [OF assms(2,1)] h(2) by (simp add: concat_chunks)
  ultimately have "gcm_decode C keys (hdr @ concat (map fst ?fs), None) = (b, None)"
    using gcm_decode_frames [OF h(1,3)] assms(4) by (cases keys) auto
  then show ?thesis using h(4) by blast
qed

text \<open>What a stage promises the runner: on a context it is \<open>good\<close> for, encoding a complete stream gives a complete
  stream, and its decoder, given the stage the encoder recorded, inverts it.\<close>

locale stage_codec =
  fixes f :: transformer and good :: "encode_context \<Rightarrow> bool"
  assumes roundtrip: "good ec \<Longrightarrow> \<exists>c. fst (tf_encode f ec (b, None)) = (c, None)
      \<and> (\<forall>s. ps_key_id s = tr_key_id (snd (tf_encode f ec (b, None))) \<longrightarrow> tf_decode f s (c, None) = (b, None))"

definition gcm_good :: "cipher \<Rightarrow> iv_source \<Rightarrow> key_provider option \<Rightarrow> encode_context \<Rightarrow> bool" where
  "gcm_good C V R ec = (aead_correct C \<and> ivs_ok V \<and> length (ec_key_id ec) \<le> max_seg_key_id_len
     \<and> ec_segment_size ec \<le> int max_segment_size
     \<and> (case resolve_aeads R (ec_key_id ec) of Inl _ \<Rightarrow> False | Inr keys \<Rightarrow> key_committing C (hd keys) keys))"

definition gcm_pinned_good :: "cipher \<Rightarrow> iv_source \<Rightarrow> encode_context \<Rightarrow> bool" where
  "gcm_pinned_good C V ec = (aead_correct C \<and> ivs_ok V \<and> ec_segment_size ec \<le> int max_segment_size)"

definition zstd_faithful :: "zstd_lib \<Rightarrow> bool" where
  "zstd_faithful Z = (z_new_writer Z = None \<and> (\<forall>b. z_new_reader Z (z_compress Z b, None) = None
     \<and> z_decompress Z (z_compress Z b, None) = (b, None)))"

lemma build_aeads_ok: "build_aeads ks = Inr out \<Longrightarrow> out = ks \<and> (\<forall>k \<in> set ks. length k = dek_len)"
  by (induction ks arbitrary: out) (auto simp: new_gcm_def split: sum.splits if_splits)

lemma build_aeads_all: "(\<forall>k \<in> set ks. length k = dek_len) \<Longrightarrow> build_aeads ks = Inr ks"
  by (induction ks) (auto simp: new_gcm_def)

lemma seal_ok:
  assumes "length dek = dek_len" "length kid \<le> max_seg_key_id_len" "ec_segment_size ec \<le> int max_segment_size"
  shows "\<exists>s. seal src (gcm_params ec dek kid) = Inr s"
proof -
  have "dek \<noteq> []" using assms(1) by (auto simp: dek_len_def)
  moreover have "default_segment_size \<le> max_segment_size" by (simp add: default_segment_size_def max_segment_size_def)
  ultimately show ?thesis
    using assms(2,3) by (auto simp: seal_def gcm_params_def encode_header_def Let_def nat_le_iff)
qed

interpretation gcm_stage: stage_codec "aesgcm_resolver C V R" "gcm_good C V R" for C V R
proof
  fix ec b
  assume g: "gcm_good C V R ec"
  obtain keys where k: "resolve_aeads R (ec_key_id ec) = Inr keys" "key_committing C (hd keys) keys"
    using g by (auto simp: gcm_good_def split: sum.splits)
  have r: "resolve_keys R (ec_key_id ec) = Inr keys" "\<forall>k \<in> set keys. length k = dek_len"
    using k(1) by (auto simp: resolve_aeads_def dest: build_aeads_ok split: sum.splits)
  have ne: "keys \<noteq> []" using r(1) by (auto simp: resolve_keys_def split: option.splits sum.splits if_splits)
  then have hk: "hd keys \<in> set keys" by simp
  let ?p = "gcm_params ec (hd keys) (ec_key_id ec)"
  obtain s where s: "seal (b, None) ?p = Inr s"
    using seal_ok [of "hd keys" "ec_key_id ec" ec "(b, None)"] g r(2) hk by (auto simp: gcm_good_def)
  have p: "sp_dek ?p = hd keys" "sp_key_id ?p = ec_key_id ec" by (simp_all add: gcm_params_def)
  obtain blob where bl: "gcm_encode C V ?p (b, None) = (blob, None)" "gcm_decode C keys (blob, None) = (b, None)"
    using gcm_roundtrip [of C V ?p keys b None s] g k(2) hk s p by (auto simp: gcm_good_def eof_like_def)
  have "resolver_encode C V R ec (b, None) = ((blob, None), gcm_result ?p (blob, None))"
    using r hk bl(1) by (simp add: resolver_encode_def new_gcm_def Let_def)
  then show "\<exists>c. fst (tf_encode (aesgcm_resolver C V R) ec (b, None)) = (c, None)
      \<and> (\<forall>s. ps_key_id s = tr_key_id (snd (tf_encode (aesgcm_resolver C V R) ec (b, None)))
            \<longrightarrow> tf_decode (aesgcm_resolver C V R) s (c, None) = (b, None))"
    using bl(2) k(1) p(2) by (simp add: aesgcm_resolver_def resolver_decode_def gcm_result_def)
qed

interpretation zstd_codec: stage_codec "zstd_stage Z" "\<lambda>_. zstd_faithful Z" for Z
  by unfold_locales (simp add: zstd_stage_def zstd_encode_def zstd_decode_def zstd_faithful_def Let_def)

lemma pinned_stage_codec:
  assumes "aesgcm_pinned C V key = Inr f"
  shows "stage_codec f (gcm_pinned_good C V)"
proof
  fix ec b
  assume g: "gcm_pinned_good C V ec"
  have k: "length key = dek_len" using assms by (auto simp: aesgcm_pinned_def new_gcm_def split: if_splits)
  obtain s where s: "seal (b, None) (gcm_params ec key []) = Inr s"
    using seal_ok [of key "[]" ec "(b, None)"] g k by (auto simp: gcm_pinned_good_def)
  have c: "key_committing C key [key]" by (simp add: key_committing_def)
  obtain blob where bl: "gcm_encode C V (gcm_params ec key []) (b, None) = (blob, None)" "gcm_decode C [key] (blob, None) = (b, None)"
    using gcm_roundtrip [of C V "gcm_params ec key []" "[key]" b None s] g c s
    by (auto simp: gcm_pinned_good_def eof_like_def gcm_params_def)
  then show "\<exists>c. fst (tf_encode f ec (b, None)) = (c, None)
      \<and> (\<forall>s. ps_key_id s = tr_key_id (snd (tf_encode f ec (b, None))) \<longrightarrow> tf_decode f s (c, None) = (b, None))"
    using assms k by (auto simp: aesgcm_pinned_def new_gcm_def Let_def)
qed

subsection \<open>The runner composes lossless stages\<close>

text \<open>Every configured algorithm is registered with a stage that is lossless in this context.\<close>

definition stages_good :: "transformer_registry \<Rightarrow> encode_context \<Rightarrow> string list \<Rightarrow> bool" where
  "stages_good T ec algos = (\<forall>a \<in> set algos. \<exists>f good. T a = Some f \<and> stage_codec f good \<and> good ec)"

definition stage_of :: "string \<Rightarrow> hash_fun \<Rightarrow> put_stage \<Rightarrow> pipeline_stage" where
  "stage_of algo h st = \<lparr> ps_algorithm = st_algorithm st, ps_hash = hash_format algo (h (st_fed st)),
     ps_iv = tr_iv (st_result st), ps_key_id = tr_key_id (st_result st) \<rparr>"

lemma finalize_stage_of:
  "finalize pp = (hex_encode (pp_hash pp (pp_content pp)), hex_encode (pp_hash pp (pp_blob pp)),
     map (stage_of (pp_algo pp) (pp_hash pp)) (pp_stages pp))"
  by (simp add: finalize_def stage_of_def [abs_def])

lemma decode_chain_append:
  "decode_chain T (xs @ ys) cur = (case decode_chain T xs cur of Inl e \<Rightarrow> Inl e | Inr r \<Rightarrow> decode_chain T ys r)"
  by (induction xs arbitrary: cur) (auto split: sum.splits)

lemma encode_stages_lossless:
  assumes "stages_good T ec algos"
  shows "\<exists>c sts. encode_stages T ec algos (b, None) = Inr ((c, None), sts) \<and> map st_algorithm sts = algos
    \<and> (algos \<noteq> [] \<longrightarrow> st_fed (last sts) = c)
    \<and> build_get T (map (stage_of algo h) sts) (c, None) = Inr (b, None)"
  using assms
proof (induction algos arbitrary: b)
  case (Cons a as)
  obtain f good where f: "T a = Some f" "stage_codec f good" "good ec" using Cons.prems by (auto simp: stages_good_def)
  obtain o1 r where e: "tf_encode f ec (b, None) = (o1, r)" by fastforce
  obtain c where c: "o1 = (c, None)" "\<forall>s. ps_key_id s = tr_key_id r \<longrightarrow> tf_decode f s (c, None) = (b, None)"
    using stage_codec.roundtrip [OF f(2,3), of b] e by auto
  obtain d sts where d: "encode_stages T ec as (c, None) = Inr ((d, None), sts)" "map st_algorithm sts = as"
      "as \<noteq> [] \<longrightarrow> st_fed (last sts) = d" "build_get T (map (stage_of algo h) sts) (d, None) = Inr (c, None)"
    using Cons.IH [of c] Cons.prems by (auto simp: stages_good_def)
  let ?st = "\<lparr> st_algorithm = a, st_result = r, st_fed = c \<rparr>"
  have "encode_stages T ec (a # as) (b, None) = Inr ((d, None), ?st # sts)"
    using f(1) e c(1) d(1) by (simp add: transformer_get_def)
  moreover have "st_fed (last (?st # sts)) = d" using d by (cases "as = []") auto
  moreover have "build_get T (map (stage_of algo h) (?st # sts)) (d, None) = Inr (b, None)"
    using d(4) c(2) f(1) by (simp add: build_get_def decode_chain_append transformer_get_def stage_of_def)
  ultimately show ?case using d(2) by (metis list.simps(9) put_stage.select_convs(1))
qed (simp add: build_get_def)

text \<open>C18: the pipeline is lossless and its hashes are those of its ends.  Over lossless stages the write path never
  fails on a complete payload, and the recorded stages lead the read path back to it.  The content hash
  is that of the payload and the blob reference that of the stored bytes, which the last stage's own hash
  repeats.\<close>

theorem stages_roundtrip:
  assumes "stages_good T ec algos" and "H algo = Some h"
  shows "\<exists>blob pp stages. build_put H T algo (b, None) algos ec = Inr ((blob, None), pp)
    \<and> finalize pp = (hex_encode (h b), hex_encode (h blob), stages)
    \<and> content_bytes_read pp = length b
    \<and> map ps_algorithm stages = algos
    \<and> (stages \<noteq> [] \<longrightarrow> ps_hash (last stages) = hash_format algo (h blob))
    \<and> build_get T stages (blob, None) = Inr (b, None)"
proof -
  obtain c sts where c: "encode_stages T ec algos (b, None) = Inr ((c, None), sts)" "map st_algorithm sts = algos"
      "algos \<noteq> [] \<longrightarrow> st_fed (last sts) = c" "build_get T (map (stage_of algo h) sts) (c, None) = Inr (b, None)"
    using encode_stages_lossless [OF assms(1)] by blast
  let ?pp = "\<lparr> pp_stages = sts, pp_content = b, pp_blob = c, pp_algo = algo, pp_hash = h \<rparr>"
  have "build_put H T algo (b, None) algos ec = Inr ((c, None), ?pp)"
    using assms(2) c(1,3) by (simp add: build_put_def new_hasher_def)
  moreover have "ps_hash (last (map (stage_of algo h) sts)) = hash_format algo (h c)" if "sts \<noteq> []"
    using that c(2,3) by (auto simp: last_map stage_of_def)
  moreover have "map ps_algorithm (map (stage_of algo h) sts) = algos"
    using c(2) by (simp add: stage_of_def comp_def)
  ultimately show ?thesis
    using c(4) by (intro exI [of _ c] exI [of _ ?pp] exI [of _ "map (stage_of algo h) sts"])
                  (simp add: finalize_stage_of content_bytes_read_def)
qed

text \<open>The shape of a pipeline the write path accepts.\<close>

lemma validate_algos_from_iff:
  "length algos = i + length as \<Longrightarrow>
    validate_algos_from T algos i as = None \<longleftrightarrow>
      (\<forall>j < length as. \<exists>f. T (as ! j) = Some f \<and> (tf_aead f \<longrightarrow> Suc j = length as))"
proof (induction as arbitrary: i)
  case (Cons a as)
  have l: "length algos = (i + 1) + length as" using Cons.prems by simp
  have t: "aead_terminal_err f i algos = (if tf_aead f \<and> as \<noteq> [] then Some ErrInvalidPipeline else None)" for f
    using Cons.prems by (auto simp: aead_terminal_err_def)
  show ?case
  proof (cases "T a")
    case None
    then show ?thesis by (auto simp: transformer_get_def intro: exI [of _ 0])
  next
    case (Some f)
    have "(\<forall>j < length (a # as). \<exists>f. T ((a # as) ! j) = Some f \<and> (tf_aead f \<longrightarrow> Suc j = length (a # as)))
      \<longleftrightarrow> (tf_aead f \<longrightarrow> as = []) \<and> (\<forall>j < length as. \<exists>f. T (as ! j) = Some f \<and> (tf_aead f \<longrightarrow> Suc j = length as))"
      using Some by (auto simp: less_Suc_eq_0_disj all_conj_distrib) (auto simp: nth_Cons split: nat.splits)
    then show ?thesis
      using Some Cons.IH [OF l] by (simp add: transformer_get_def t)
  qed
qed simp

lemma validate_composition_from_iff:
  "length algos = i + length as \<Longrightarrow>
    validate_composition_from T algos i as = None \<longleftrightarrow>
      (\<forall>j < length as. \<forall>f. T (as ! j) = Some f \<and> tf_aead f \<longrightarrow> Suc j = length as)"
proof (induction as arbitrary: i)
  case (Cons a as)
  have l: "length algos = (i + 1) + length as" using Cons.prems by simp
  have t: "aead_terminal_err f i algos = (if tf_aead f \<and> as \<noteq> [] then Some ErrInvalidPipeline else None)" for f
    using Cons.prems by (auto simp: aead_terminal_err_def)
  have "(\<forall>j < length (a # as). \<forall>f. T ((a # as) ! j) = Some f \<and> tf_aead f \<longrightarrow> Suc j = length (a # as))
    \<longleftrightarrow> (\<forall>f. T a = Some f \<and> tf_aead f \<longrightarrow> as = []) \<and> (\<forall>j < length as. \<forall>f. T (as ! j) = Some f \<and> tf_aead f \<longrightarrow> Suc j = length as)"
    by (auto simp: less_Suc_eq_0_disj all_conj_distrib)
  then show ?case
    using Cons.IH [OF l] by (cases "T a") (simp_all add: transformer_get_def t)
qed simp

text \<open>What the two pipeline validators accept.  The write path accepts exactly the pipelines whose every stage is
  registered and in which only the last may encrypt; the check at open time is the same without the
  presence requirement, so a pipeline accepted for writing is always accepted at open.\<close>

theorem pipeline_validation:
  "(validate_algos T algos = None \<longleftrightarrow>
      (\<forall>j < length algos. \<exists>f. T (algos ! j) = Some f \<and> (tf_aead f \<longrightarrow> Suc j = length algos)))
    \<and> (validate_composition T algos = None \<longleftrightarrow>
      (\<forall>j < length algos. \<forall>f. T (algos ! j) = Some f \<and> tf_aead f \<longrightarrow> Suc j = length algos))
    \<and> (validate_algos T algos = None \<longrightarrow> validate_composition T algos = None)"
  using validate_algos_from_iff [of algos 0 algos T] validate_composition_from_iff [of algos 0 algos T]
  by (auto simp: validate_algos_def validate_composition_def)

text \<open>C33: the configuration accepts segment sizes the encrypting stage refuses.  Every size above the 64 MiB limit of
  the segmented format and within the 1 GiB bound of the configuration passes validation as well as the
  default size does, and then every write through the stage fails without reading the payload.\<close>

theorem segment_size_gap:
  assumes "validate_immutable cfg = None" and "int max_segment_size < n" and "n \<le> max_segment_cfg"
    and "resolve_keys R kid = Inr keys" and "length (hd keys) = dek_len"
  shows "validate_immutable (cfg \<lparr> cf_segment_size := n \<rparr>) = None
    \<and> fst (tf_encode (aesgcm_resolver C V R)
        \<lparr> ec_key_id = kid, ec_encrypted_dedup = d, ec_segment_size = cf_segment_size (cfg \<lparr> cf_segment_size := n \<rparr>) \<rparr> src)
      = ([], Some ErrSegmentTooLarge)"
proof -
  have r: "range_val min_segment_cfg max_segment_cfg n = None"
    using assms(2,3) by (simp add: range_val_def min_segment_cfg_def max_segment_size_def)
  have v: "validate_immutable (cfg \<lparr> cf_segment_size := n \<rparr>) = None"
    using assms(1) r by (simp add: validate_immutable_iff)
  let ?ec = "\<lparr> ec_key_id = kid, ec_encrypted_dedup = d, ec_segment_size = n \<rparr>"
  have "hd keys \<noteq> []" using assms(5) by (auto simp: dek_len_def)
  moreover have "0 < n" "max_segment_size < nat n" using assms(2) by (simp_all add: max_segment_size_def)
  ultimately have "seal src (gcm_params ?ec (hd keys) kid) = Inl ErrSegmentTooLarge"
    by (simp add: seal_def gcm_params_def Let_def)
  then have "fst (tf_encode (aesgcm_resolver C V R) ?ec src) = ([], Some ErrSegmentTooLarge)"
    using assms(4,5) by (simp add: aesgcm_resolver_def resolver_encode_def new_gcm_def gcm_encode_def err_reader_def Let_def)
  then show ?thesis using v by simp
qed

subsection \<open>Interrupted sources\<close>

text \<open>A stage that relays the failure of its source: an input that ends with an error other than an end of file gives an
  output that does too.  The stages the engine ships do, provided the compressor and the key provider do not themselves
  report an end of file as their error.\<close>

definition relays :: "transformer \<Rightarrow> bool" where
  "relays f = (\<forall>ec b e. \<not> eof_like (Some e) \<longrightarrow> \<not> eof_like (snd (fst (tf_encode f ec (b, Some e)))))"

definition engine_stage :: "transformer \<Rightarrow> bool" where
  "engine_stage f =
     ((\<exists>Z. f = zstd_stage Z \<and> (\<forall>e. z_new_writer Z = Some e \<longrightarrow> \<not> eof_like (Some e)))
      \<or> (\<exists>C V R. f = aesgcm_resolver C V R \<and> (\<forall>g kid e. R = Some g \<and> g kid = Inl e \<longrightarrow> \<not> eof_like (Some e)))
      \<or> (\<exists>C V key. aesgcm_pinned C V key = Inr f))"

lemma seal_segments_end: "snd (seal_segments C V mode dek kid idx cs fin) \<in> {fin, ErrMsg ''random IV''}"
proof (induction cs arbitrary: idx)
  case (Cons c cs)
  have "segment_iv V mode dek kid c idx = Inl x \<Longrightarrow> x = ErrMsg ''random IV''" for x
    by (auto simp: segment_iv_def random_iv_def split: iv_mode.splits option.splits)
  then show ?case
    using Cons.IH [of "(idx + 1) mod 2 ^ 64"] by (auto split: sum.splits prod.splits)
qed simp

lemma gcm_encode_relays:
  assumes "\<not> eof_like (Some e)"
  shows "\<not> eof_like (snd (gcm_encode C V p (b, Some e)))"
proof (cases "seal (b, Some e) p")
  case (Inl x)
  then have "\<not> eof_like (Some x)"
    by (auto simp: seal_def encode_header_def eof_like_def Let_def split: if_splits)
  then show ?thesis using Inl by (simp add: gcm_encode_def err_reader_def)
next
  case (Inr st)
  obtain hdr seg where h: "0 < seg" "seg \<le> max_segment_size"
    "st = \<lparr> fr_src = (b, Some e), fr_pending = hdr, fr_done = False, fr_err = None, sr_mode = sp_mode p, sr_dek = sp_dek p,
       sr_key_id = sp_key_id p, sr_seg_size = seg, sr_index = 0, sr_written = 0 \<rparr>"
    by (rule seal_init [OF Inr])
  have g: "seal_good st" "fr_err st = None" using h by (simp_all add: seal_good_def)
  have t: "\<not> eof_like (Some (snd (sealing.total C V st)))"
    using assms seal_segments_end [of C V "sp_mode p" "sp_dek p" "sp_key_id p" 0 "chunks seg (whole_segments seg b)" e] h(3)
    by (auto simp: sealing.total_def seal_rest_def Let_def eof_like_def)
  let ?ns = "replicate (seal_reads p (length b)) (512 :: nat)"
  obtain out x where d: "drain (seal_read C V) st ?ns = (out, x)" by fastforce
  have "x = None \<or> x = Some (snd (sealing.total C V st))"
    using sealing.drain_spec [OF g, of ?ns C V out x] d by (auto simp: seal_read_def [abs_def])
  then show ?thesis using Inr d t by (auto simp: gcm_encode_def stream_of_def eof_like_def)
qed

lemma engine_stage_relays:
  assumes "engine_stage f"
  shows "relays f"
  using assms unfolding engine_stage_def
proof (elim disjE exE conjE)
  fix Z assume "f = zstd_stage Z" "\<forall>e. z_new_writer Z = Some e \<longrightarrow> \<not> eof_like (Some e)"
  then show ?thesis by (auto simp: relays_def zstd_stage_def zstd_encode_def err_reader_def Let_def split: option.splits)
next
  fix C V R
  assume f: "f = aesgcm_resolver C V R" and R: "\<forall>g kid e. R = Some g \<and> g kid = Inl e \<longrightarrow> \<not> eof_like (Some e)"
  have k: "\<not> eof_like (Some x)" if "resolve_keys R kid = Inl x" for kid x
    using that R by (auto simp: resolve_keys_def eof_like_def split: option.splits sum.splits if_splits)
  have n: "\<not> eof_like (Some x)" if "new_gcm key = Inl x" for key x
    using that by (auto simp: new_gcm_def eof_like_def split: if_splits)
  show ?thesis
    using gcm_encode_relays k n
    by (auto simp: relays_def f aesgcm_resolver_def resolver_encode_def err_reader_def Let_def split: sum.splits)
next
  fix C V key assume "aesgcm_pinned C V key = Inr f"
  then show ?thesis
    using gcm_encode_relays by (auto simp: relays_def aesgcm_pinned_def Let_def split: sum.splits)
qed

lemma encode_stages_relay:
  assumes "\<forall>a \<in> set algos. \<forall>f. T a = Some f \<longrightarrow> relays f" "\<not> eof_like (snd src)"
    and "encode_stages T ec algos src = Inr (out, sts)"
  shows "\<not> eof_like (snd out)"
  using assms
proof (induction algos arbitrary: src sts)
  case (Cons a as)
  obtain b e where src: "src = (b, Some e)" using Cons.prems(2) by (cases src; cases "snd src") (auto simp: eof_like_def)
  obtain f r cur where f: "T a = Some f" "tf_encode f ec src = (cur, r)" "\<exists>sts. encode_stages T ec as cur = Inr (out, sts)"
    using Cons.prems(3) by (auto simp: transformer_get_def split: option.splits prod.splits sum.splits)
  have "\<not> eof_like (snd (fst (tf_encode f ec (b, Some e))))" using Cons.prems(1,2) f(1) src by (simp add: relays_def)
  then show ?case using Cons.IH [of cur] Cons.prems(1) f src by auto
qed simp

subsection \<open>Concrete instances\<close>

definition escape_zstd :: zstd_lib where
  "escape_zstd = \<lparr> z_new_writer = None, z_compress = (\<lambda>b. ''z'' @ b),
     z_new_reader = (\<lambda>_. None),
     z_decompress = (\<lambda>r. if has_prefix (fst r) ''z'' then (tl (fst r), snd r) else ([], Some (ErrMsg ''bad frame''))) \<rparr>"

definition sample_resolver :: "key_provider option" where
  "sample_resolver = Some (static_get_keys (Some sample_dek))"

definition sample_transformers :: transformer_registry where
  "sample_transformers = transformer_register ''zstd'' (zstd_stage escape_zstd)
     (transformer_register ''aes-gcm'' (aesgcm_resolver const_tag_cipher sample_ivs sample_resolver) (\<lambda>_. None))"

definition sample_context :: encode_context where
  "sample_context = \<lparr> ec_key_id = [], ec_encrypted_dedup = DedupConvergent, ec_segment_size = 4096 \<rparr>"

lemma escape_zstd_faithful: "zstd_faithful escape_zstd"
  by (simp add: zstd_faithful_def escape_zstd_def has_prefix_def)

lemma sample_resolver_keys: "resolve_keys sample_resolver kid = Inr [sample_dek]" "length sample_dek = dek_len"
  by (simp_all add: resolve_keys_def sample_resolver_def static_get_keys_def sample_dek_def dek_len_def)

lemma sample_engine_stages:
  assumes "sample_transformers a = Some f"
  shows "engine_stage f"
proof -
  have "f = zstd_stage escape_zstd \<or> f = aesgcm_resolver const_tag_cipher sample_ivs sample_resolver"
    using assms by (auto simp: sample_transformers_def transformer_register_def split: if_splits)
  moreover have "z_new_writer escape_zstd = None" by (simp add: escape_zstd_def)
  moreover have "g kid \<noteq> Inl e" if "sample_resolver = Some g" for g kid e
    using that by (auto simp: sample_resolver_def static_get_keys_def)
  ultimately show ?thesis unfolding engine_stage_def by fastforce
qed

lemma sample_gcm_good: "gcm_good const_tag_cipher sample_ivs sample_resolver sample_context"
  using const_tag_correct sample_ivs_ok sample_committing sample_resolver_keys
  by (simp add: gcm_good_def resolve_aeads_def new_gcm_def sample_context_def max_segment_size_def)

lemma sample_stages_good: "set algos \<subseteq> {''zstd'', ''aes-gcm''} \<Longrightarrow> stages_good sample_transformers sample_context algos"
  unfolding stages_good_def sample_transformers_def transformer_register_def
  using zstd_codec.stage_codec_axioms [of escape_zstd] escape_zstd_faithful
    gcm_stage.stage_codec_axioms [of const_tag_cipher sample_ivs sample_resolver] sample_gcm_good
  by fastforce

theorem stages_roundtrip_witness:
  "\<exists>blob pp stages. build_put sample_registry sample_transformers ''sha256'' (''payload'', None) [''zstd'', ''aes-gcm''] sample_context
       = Inr ((blob, None), pp)
    \<and> build_get sample_transformers stages (blob, None) = Inr (''payload'', None)"
  using stages_roundtrip [OF sample_stages_good, of "[''zstd'', ''aes-gcm'']" sample_registry "''sha256''" len_hash "''payload''"]
  by (auto simp: sample_registry_def)

theorem pipeline_validation_witness:
  "validate_algos sample_transformers [''zstd'', ''aes-gcm''] = None
    \<and> validate_algos sample_transformers [''aes-gcm'', ''zstd''] \<noteq> None
    \<and> validate_composition sample_transformers [''zstd'', ''aes-gcm''] = None"
proof -
  have "\<forall>j < length [''zstd'', ''aes-gcm'']. \<exists>f. sample_transformers ([''zstd'', ''aes-gcm''] ! j) = Some f
      \<and> (tf_aead f \<longrightarrow> Suc j = length [''zstd'', ''aes-gcm''])"
    by (auto simp: less_Suc_eq sample_transformers_def transformer_register_def zstd_stage_def)
  moreover have "\<not> (\<forall>j < length [''aes-gcm'', ''zstd'']. \<exists>f. sample_transformers ([''aes-gcm'', ''zstd''] ! j) = Some f
      \<and> (tf_aead f \<longrightarrow> Suc j = length [''aes-gcm'', ''zstd'']))"
    by (intro notI, drule spec [of _ 0]) (simp add: sample_transformers_def transformer_register_def aesgcm_resolver_def)
  ultimately show ?thesis
    using pipeline_validation [of sample_transformers "[''zstd'', ''aes-gcm'']"]
      pipeline_validation [of sample_transformers "[''aes-gcm'', ''zstd'']"] by blast
qed

theorem segment_size_gap_witness:
  "validate_immutable (zero_config \<lparr> cf_segment_size := 128 * 2 ^ 20 \<rparr>) = None
    \<and> fst (tf_encode (aesgcm_resolver const_tag_cipher sample_ivs sample_resolver)
        \<lparr> ec_key_id = [], ec_encrypted_dedup = DedupDisabled, ec_segment_size = 128 * 2 ^ 20 \<rparr> (''payload'', None))
      = ([], Some ErrSegmentTooLarge)"
proof -
  have "validate_immutable zero_config = None"
    by (simp add: validate_immutable_iff zero_config_def enum_check_def encoding_check_def range_val_def min_val_def max_val_def
        with_sentinel_def non_negative_def)
  then show ?thesis
    using segment_size_gap [of zero_config "128 * 2 ^ 20" sample_resolver "[]" "[sample_dek]" const_tag_cipher sample_ivs DedupDisabled]
      sample_resolver_keys by (simp add: max_segment_size_def max_segment_cfg_def)
qed

end
