(* ===== verification/Cas.thy ===== *)
theory Cas
  imports Pipeline System_Artifact Index_Spec
begin

text \<open>
  The artifact I/O layer (\<^verbatim>\<open>engine/internal/cas\<close>): placing a payload as an inline body or a blob with
  deduplication, assembling and persisting its manifest (\<^verbatim>\<open>write.go\<close>), loading a manifest by handle or
  digest, opening and verifying the blob behind it (\<^verbatim>\<open>read.go\<close>), and the read handles (\<^verbatim>\<open>handle.go\<close>).

  The layer is stateless: \<open>cas_io\<close> is its \<^verbatim>\<open>IO\<close> value over an arbitrary driver and index, \<open>world\<close>
  the states of the two.  What a call draws at random (the staging name, the identity nonce, the nonces
  of the manifest body) and the time it reads are the fields of \<open>draws\<close>.
\<close>

record ('d, 'i) cas_io =
  io_drv :: "'d driver"
  io_index :: "'i store_index"
  io_hashes :: hash_registry
  io_transformers :: transformer_registry
  io_json :: json_codec
  io_cipher :: cipher

record ('d, 'i) world =
  w_drv :: 'd
  w_idx :: 'i

record draws =
  dr_uuid :: string
  dr_nonce :: bytes
  dr_seal :: nonces
  dr_now :: time

record artifact =
  ar_payload :: "reader option"
  ar_ext :: bytes
  ar_usr :: bytes

record put_options =
  po_session_id :: string
  po_retention_until :: time
  po_blob_type :: blob_type
  po_parent_refs :: "string list"

record cas_result =
  rs_content_hash :: string
  rs_blob_ref :: string
  rs_original_size :: int
  rs_stages :: "pipeline_stage list"
  rs_inline :: "bytes option"
  rs_addr :: physical_address

definition no_address :: physical_address where
  "no_address = \<lparr> pa_workspace = [], pa_path = [], pa_offset = 0, pa_size = 0 \<rparr>"

definition address_at :: "path \<Rightarrow> physical_address" where
  "address_at p = \<lparr> pa_workspace = [], pa_path = p, pa_offset = 0, pa_size = 0 \<rparr>"

definition make_staging_path :: "string \<Rightarrow> path" where
  "make_staging_path uuid = staging_prefix @ ''/'' @ uuid"

subsection \<open>The write path\<close>

definition dedup_probe :: "('d, 'i) cas_io \<Rightarrow> string \<Rightarrow> int \<Rightarrow> string \<Rightarrow> string \<Rightarrow> 'i \<Rightarrow> string option res" where
  "dedup_probe io ch n ref crypto i =
     (if crypto = [] then si_exists_by_content (io_index io) ch n [] i
      else case si_resolve (io_index io) ref i of
        Inl e \<Rightarrow> if e = ErrArtifactNotFound then Inr None else Inl e
      | Inr _ \<Rightarrow> Inr (Some ref))"

definition commit_blob ::
    "('d, 'i) cas_io \<Rightarrow> store_config \<Rightarrow> path \<Rightarrow> string \<Rightarrow> int \<Rightarrow> string \<Rightarrow> string \<Rightarrow> ('d, 'i) world
      \<Rightarrow> (string \<times> physical_address) res \<times> ('d, 'i) world" where
  "commit_blob io cfg staging ch n ref crypto s = (let D = io_drv io in
     case dedup_probe io ch n ref crypto (w_idx s) of
       Inl e \<Rightarrow> (Inl e, s \<lparr> w_drv := snd (d_remove D (w_drv s) staging) \<rparr>)
     | Inr (Some existing) \<Rightarrow>
         (case d_remove D (w_drv s) staging of
            (Inl e, d) \<Rightarrow> (Inl e, s \<lparr> w_drv := d \<rparr>)
          | (Inr _, d) \<Rightarrow>
              (case si_resolve (io_index io) existing (w_idx s) of
                 Inl e \<Rightarrow> (Inl e, s \<lparr> w_drv := d \<rparr>)
               | Inr addr \<Rightarrow> (Inr (existing, addr), s \<lparr> w_drv := d \<rparr>)))
     | Inr None \<Rightarrow>
         (case blob_path (cf_path_topology cfg) BlobTypeRegular ref of
            Inl e \<Rightarrow> (Inl e, s \<lparr> w_drv := snd (d_remove D (w_drv s) staging) \<rparr>)
          | Inr final \<Rightarrow>
              (case d_rename D (w_drv s) staging final of
                 (Inl e, d) \<Rightarrow> (Inl e, s \<lparr> w_drv := snd (d_remove D d staging) \<rparr>)
               | (Inr _, d) \<Rightarrow> (Inr (ref, address_at final), s \<lparr> w_drv := d \<rparr>))))"

definition encode_ctx :: "store_config \<Rightarrow> string \<Rightarrow> encode_context" where
  "encode_ctx cfg kid = \<lparr> ec_key_id = kid, ec_encrypted_dedup = cf_encrypted_dedup cfg, ec_segment_size = cf_segment_size cfg \<rparr>"

definition stream_to_target ::
    "('d, 'i) cas_io \<Rightarrow> store_config \<Rightarrow> string \<Rightarrow> string \<Rightarrow> string \<Rightarrow> reader \<Rightarrow> ('d, 'i) world
      \<Rightarrow> cas_result res \<times> ('d, 'i) world" where
  "stream_to_target io cfg algo kid uuid input s =
     (case build_put (io_hashes io) (io_transformers io) algo input (cf_pipeline cfg) (encode_ctx cfg kid) of
        Inl e \<Rightarrow> (Inl e, s)
      | Inr (stream, pp) \<Rightarrow>
     (let staging = make_staging_path uuid in
      case d_put (io_drv io) (w_drv s) staging stream False of
        (Inl e, d) \<Rightarrow> (Inl e, s \<lparr> w_drv := d \<rparr>)
      | (Inr _, d) \<Rightarrow>
     (case finalize pp of (ch, ref, stages) \<Rightarrow>
      let n = int (content_bytes_read pp) in
      case commit_blob io cfg staging ch n ref (crypto_identity_of stages) (s \<lparr> w_drv := d \<rparr>) of
        (Inl e, s') \<Rightarrow> (Inl e, s')
      | (Inr (cref, addr), s') \<Rightarrow>
          (Inr \<lparr> rs_content_hash = ch, rs_blob_ref = cref, rs_original_size = n, rs_stages = stages, rs_inline = None,
                 rs_addr = addr \<rparr>, s'))))"

definition materialize_inline :: "('d, 'i) cas_io \<Rightarrow> string \<Rightarrow> bytes \<Rightarrow> cas_result res" where
  "materialize_inline io algo body =
     (case new_hasher (io_hashes io) algo of
        Inl e \<Rightarrow> Inl e
      | Inr h \<Rightarrow> Inr \<lparr> rs_content_hash = hex_encode (h body), rs_blob_ref = [], rs_original_size = int (length body),
                       rs_stages = [], rs_inline = Some body, rs_addr = no_address \<rparr>)"

text \<open>In inline mode the payload is read up to one byte past the limit: a payload within the limit is embedded, a longer
  one is streamed from its first byte.\<close>

definition materialize ::
    "('d, 'i) cas_io \<Rightarrow> store_config \<Rightarrow> reader \<Rightarrow> string \<Rightarrow> string \<Rightarrow> ('d, 'i) world
      \<Rightarrow> cas_result res \<times> ('d, 'i) world" where
  "materialize io cfg payload kid uuid s = (let algo = hasher_name (cf_content_hasher cfg); lim = nat (cf_inline_blob_limit cfg) in
     if cf_blob_storage cfg = StorageInline \<and> cf_inline_blob_limit cfg > 0 then
       (if length (fst payload) \<le> lim then
          (case snd payload of
             Some e \<Rightarrow> (Inl e, s)
           | None \<Rightarrow> (materialize_inline io algo (fst payload), s))
        else stream_to_target io cfg algo kid uuid payload s)
     else stream_to_target io cfg algo kid uuid payload s)"

definition identity_nonce_for :: "identity_mode \<Rightarrow> bytes \<Rightarrow> bytes" where
  "identity_nonce_for mode nonce = (if mode = IdentityCoalesced then [] else nonce)"

definition put_manifest :: "put_options \<Rightarrow> artifact \<Rightarrow> cas_result \<Rightarrow> time \<Rightarrow> manifest" where
  "put_manifest opts a blob now =
     \<lparr> artifact_id = [], name = [], digest = [], identity_meta_hash = [], identity_nonce = [],
       session_id = po_session_id opts, created_at = now, content_hash = rs_content_hash blob,
       original_size = rs_original_size blob, hash_algo = [],
       blob_refs = (if rs_blob_ref blob \<noteq> [] then [rs_blob_ref blob] else []),
       handle_refs = po_parent_refs opts,
       blob_storage = (if rs_inline blob \<noteq> None then layout_inline else layout_target),
       pipeline = rs_stages blob, inline_blob = (case rs_inline blob of None \<Rightarrow> [] | Some b \<Rightarrow> b),
       retention_until = po_retention_until opts, key_id = [], ext = ar_ext a, usr = ar_usr a \<rparr>"

definition assemble_manifest ::
    "('d, 'i) cas_io \<Rightarrow> store_config \<Rightarrow> draws \<Rightarrow> artifact \<Rightarrow> put_options \<Rightarrow> cas_result \<Rightarrow> bytes \<Rightarrow> string
      \<Rightarrow> (manifest \<times> bytes) res" where
  "assemble_manifest io cfg w a opts blob dek kid = (let algo = hasher_name (cf_content_hasher cfg) in
     case compute_handle (io_hashes io) (put_manifest opts a blob (dr_now w)) algo naming_key_public
            (identity_nonce_for (cf_identity_mode cfg) (dr_nonce w)) of
       Inl e \<Rightarrow> Inl e
     | Inr m \<Rightarrow>
    (case compute_manifest_digest (io_json io) (io_cipher io) (io_hashes io) (dr_seal w) m algo
            (cf_manifest_encoding cfg) (cf_manifest_crypto cfg) dek kid of
       Inl e \<Rightarrow> Inl e
     | Inr (_, fb, m') \<Rightarrow> Inr (m', fb)))"

definition persist_manifest ::
    "('d, 'i) cas_io \<Rightarrow> manifest \<Rightarrow> bytes \<Rightarrow> physical_address \<Rightarrow> time \<Rightarrow> ('d, 'i) world \<Rightarrow> unit res \<times> ('d, 'i) world" where
  "persist_manifest io m fb addr now s =
     (case manifest_path (digest m) of
        Inl e \<Rightarrow> (Inl e, s)
      | Inr p \<Rightarrow>
     (case d_put (io_drv io) (w_drv s) p (fb, None) False of
        (Inl e, d) \<Rightarrow> (Inl e, s \<lparr> w_drv := d \<rparr>)
      | (Inr _, d) \<Rightarrow>
     (case si_index_manifest (io_index io) m addr now (w_idx s) of
        (r, i) \<Rightarrow> (r, s \<lparr> w_drv := d, w_idx := i \<rparr>))))"

definition headless_manifest :: "cas_result \<Rightarrow> time \<Rightarrow> manifest" where
  "headless_manifest blob now =
     \<lparr> artifact_id = [], name = [], digest = [], identity_meta_hash = [], identity_nonce = [], session_id = [],
       created_at = now, content_hash = rs_content_hash blob, original_size = rs_original_size blob, hash_algo = [],
       blob_refs = [rs_blob_ref blob], handle_refs = [], blob_storage = layout_target, pipeline = rs_stages blob,
       inline_blob = [], retention_until = 0, key_id = [], ext = [], usr = [] \<rparr>"

definition write_headless ::
    "('d, 'i) cas_io \<Rightarrow> store_config \<Rightarrow> draws \<Rightarrow> reader \<Rightarrow> bytes \<Rightarrow> string \<Rightarrow> ('d, 'i) world
      \<Rightarrow> string res \<times> ('d, 'i) world" where
  "write_headless io cfg w input dek kid s = (let algo = hasher_name (cf_content_hasher cfg) in
     case stream_to_target io cfg algo kid (dr_uuid w) input s of
       (Inl e, s1) \<Rightarrow> (Inl e, s1)
     | (Inr blob, s1) \<Rightarrow>
    (case compute_manifest_digest (io_json io) (io_cipher io) (io_hashes io) (dr_seal w) (headless_manifest blob (dr_now w)) algo
            (cf_manifest_encoding cfg) (cf_manifest_crypto cfg) dek kid of
       Inl e \<Rightarrow> (Inl e, s1)
     | Inr (_, fb, m) \<Rightarrow>
    (case persist_manifest io m fb (rs_addr blob) (dr_now w) s1 of
       (Inl e, s2) \<Rightarrow> (Inl e, s2)
     | (Inr _, s2) \<Rightarrow> (Inr (digest m), s2))))"

subsection \<open>The read path\<close>

definition load_manifest_by_digest ::
    "('d, 'i) cas_io \<Rightarrow> 'd \<Rightarrow> string \<Rightarrow> key_provider option \<Rightarrow> string \<Rightarrow> manifest res" where
  "load_manifest_by_digest io d dg keys algo =
     (case manifest_path dg of
        Inl e \<Rightarrow> Inl e
      | Inr p \<Rightarrow>
     (case d_get (io_drv io) d p of
        Inl e \<Rightarrow> Inl (if e = ErrNotExist then ErrArtifactNotFound else e)
      | Inr body \<Rightarrow>
          let raw = take (max_manifest_size + 1) body in
          if length raw > max_manifest_size then Inl ErrManifestTooLarge
          else case verify_manifest_digest (io_hashes io) dg raw algo of
            Inl e \<Rightarrow> Inl e
          | Inr _ \<Rightarrow>
         (case decode_encrypted (io_json io) (io_cipher io) raw keys of
            Inl e \<Rightarrow> Inl e
          | Inr m \<Rightarrow> Inr (m \<lparr> digest := dg \<rparr>))))"

definition cas_load ::
    "('d, 'i) cas_io \<Rightarrow> ('d, 'i) world \<Rightarrow> string \<Rightarrow> key_provider option \<Rightarrow> string \<Rightarrow> manifest res" where
  "cas_load io s i keys algo =
     (if i = [] then Inl ErrArtifactNotFound
      else case si_resolve_manifest_digest (io_index io) i (w_idx s) of
        Inl e \<Rightarrow> Inl e
      | Inr None \<Rightarrow> Inl ErrArtifactNotFound
      | Inr (Some dg) \<Rightarrow>
     (case load_manifest_by_digest io (w_drv s) dg keys algo of
        Inl e \<Rightarrow> Inl e
      | Inr m \<Rightarrow> Inr (m \<lparr> artifact_id := i \<rparr>)))"

definition open_raw_blob :: "('d, 'i) cas_io \<Rightarrow> ('d, 'i) world \<Rightarrow> manifest \<Rightarrow> reader res" where
  "open_raw_blob io s m =
     (if blob_storage m = layout_inline then Inr (inline_blob m, None)
      else if blob_storage m = layout_target then
        (case si_resolve (io_index io) (primary_blob_ref m) (w_idx s) of
           Inl e \<Rightarrow> Inl e
         | Inr addr \<Rightarrow>
             (case d_get (io_drv io) (w_drv s) (pa_path addr) of
                Inl e \<Rightarrow> Inl (if e = ErrNotExist then ErrCorruptedBlob else e)
              | Inr b \<Rightarrow> Inr (b, None)))
      else Inl (ErrMsg ''unknown BlobStorage''))"

definition open_blob :: "('d, 'i) cas_io \<Rightarrow> ('d, 'i) world \<Rightarrow> manifest \<Rightarrow> reader res" where
  "open_blob io s m =
     (case open_raw_blob io s m of
        Inl e \<Rightarrow> Inl e
      | Inr raw \<Rightarrow> build_get (io_transformers io) (pipeline m) raw)"

definition verify_blob :: "('d, 'i) cas_io \<Rightarrow> ('d, 'i) world \<Rightarrow> manifest \<Rightarrow> unit res" where
  "verify_blob io s m =
     (case parse_content_hash (io_hashes io) (hash_algo m) (content_hash m) of
        Inl e \<Rightarrow> Inl e
      | Inr (want, h) \<Rightarrow>
     (case open_blob io s m of
        Inl e \<Rightarrow> Inl e
      | Inr (b, err) \<Rightarrow>
          (case err of
             Some e \<Rightarrow> Inl (if e = ErrContext then e else ErrCorruptedBlob)
           | None \<Rightarrow> if h b \<noteq> want then Inl ErrCorruptedBlob else Inr ())))"

subsection \<open>Read handles\<close>

text \<open>An inline handle is its manifest, payload and cursor; a target handle its manifest, blob path, the decoded
  stream once opened, and whether it is closed; a verifying handle its inner handle, the wanted and the
  hash function, the bytes fed so far, the declared size (or -1), whether the end was seen, and
  whether it is closed.\<close>

datatype read_handle =
    InlineHandle manifest bytes nat
  | TargetHandle manifest path "reader option" bool
  | VerifyingHandle read_handle bytes hash_fun bytes int bool bool

fun handle_manifest :: "read_handle \<Rightarrow> manifest" where
  "handle_manifest (InlineHandle m p k) = m"
| "handle_manifest (TargetHandle m p rc c) = m"
| "handle_manifest (VerifyingHandle h w f b l e c) = handle_manifest h"

fun supports_random_access :: "read_handle \<Rightarrow> bool" where
  "supports_random_access (InlineHandle m p k) = True"
| "supports_random_access (TargetHandle m p rc c) = (pipeline m = [])"
| "supports_random_access (VerifyingHandle h w f b l e c) = supports_random_access h"

definition new_inline_handle :: "manifest \<Rightarrow> read_handle" where
  "new_inline_handle m = InlineHandle m (inline_blob m) 0"

definition open_handle :: "('d, 'i) cas_io \<Rightarrow> 'i \<Rightarrow> manifest \<Rightarrow> read_handle res" where
  "open_handle io i m =
     (if blob_storage m = layout_inline then Inr (new_inline_handle m)
      else if blob_storage m = layout_target then
        (case si_resolve (io_index io) (primary_blob_ref m) i of
           Inl e \<Rightarrow> Inl e
         | Inr addr \<Rightarrow> Inr (TargetHandle m (pa_path addr) None False))
      else Inl (ErrMsg ''unknown BlobStorage''))"

definition open_handle_without_index :: "manifest \<Rightarrow> path_topology \<Rightarrow> read_handle res" where
  "open_handle_without_index m topology =
     (if blob_storage m = layout_inline then Inr (new_inline_handle m)
      else if blob_storage m = layout_target then
        (case blob_path topology BlobTypeRegular (primary_blob_ref m) of
           Inl e \<Rightarrow> Inl e
         | Inr p \<Rightarrow> Inr (TargetHandle m p None False))
      else Inl (ErrMsg ''unknown BlobStorage''))"

definition open_handle_by_digest ::
    "('d, 'i) cas_io \<Rightarrow> ('d, 'i) world \<Rightarrow> string \<Rightarrow> key_provider option \<Rightarrow> string \<Rightarrow> read_handle res" where
  "open_handle_by_digest io s dg keys algo =
     (case load_manifest_by_digest io (w_drv s) dg keys algo of
        Inl e \<Rightarrow> Inl e
      | Inr m \<Rightarrow> open_handle io (w_idx s) m)"

definition wrap_verifying :: "hash_registry \<Rightarrow> read_handle \<Rightarrow> read_handle res" where
  "wrap_verifying H rh = (let m = handle_manifest rh in
     if content_hash m = [] then Inr rh
     else case parse_content_hash H (hash_algo m) (content_hash m) of
       Inl e \<Rightarrow> Inl e
     | Inr (want, h) \<Rightarrow>
         Inr (VerifyingHandle rh want h [] (if original_size m > 0 then original_size m else -1) False False))"

text \<open>Reading \<open>n > 0\<close> bytes off a stream: the end is reported by a read of its own.\<close>

definition read_stream :: "nat \<Rightarrow> reader \<Rightarrow> (bytes \<times> err option) \<times> reader" where
  "read_stream n r =
     (if fst r = [] then (([], Some (case snd r of None \<Rightarrow> ErrEOF | Some e \<Rightarrow> e)), r)
      else ((take n (fst r), None), (drop n (fst r), snd r)))"

definition open_target :: "('d, 'i) cas_io \<Rightarrow> 'd \<Rightarrow> manifest \<Rightarrow> path \<Rightarrow> reader res" where
  "open_target io d m p =
     (case d_get (io_drv io) d p of
        Inl e \<Rightarrow> Inl (if e = ErrNotExist then ErrCorruptedBlob else e)
      | Inr b \<Rightarrow> build_get (io_transformers io) (pipeline m) (b, None))"

definition verify_end :: "bytes \<Rightarrow> hash_fun \<Rightarrow> bytes \<Rightarrow> int \<Rightarrow> bool \<Rightarrow> err option" where
  "verify_end want h fed limit eof_seen =
     (if eof_seen then None
      else if limit \<ge> 0 \<and> int (length fed) \<noteq> limit then Some ErrCorruptedBlob
      else if h fed \<noteq> want then Some ErrCorruptedBlob
      else None)"

fun handle_read :: "('d, 'i) cas_io \<Rightarrow> 'd \<Rightarrow> nat \<Rightarrow> read_handle \<Rightarrow> (bytes \<times> err option) \<times> read_handle" where
  "handle_read io d n (InlineHandle m p k) =
     (if k \<ge> length p then (([], Some ErrEOF), InlineHandle m p k)
      else ((take n (drop k p), None), InlineHandle m p (k + length (take n (drop k p)))))"
| "handle_read io d n (TargetHandle m p rc closed) =
     (if closed then (([], Some ErrClosed), TargetHandle m p rc closed)
      else case (case rc of None \<Rightarrow> open_target io d m p | Some r \<Rightarrow> Inr r) of
        Inl e \<Rightarrow> (([], Some e), TargetHandle m p rc closed)
      | Inr r \<Rightarrow> (case read_stream n r of (out, r') \<Rightarrow> (out, TargetHandle m p (Some r') closed)))"
| "handle_read io d n (VerifyingHandle h want f fed limit eof_seen closed) =
     (if closed then (([], Some ErrClosed), VerifyingHandle h want f fed limit eof_seen closed)
      else case handle_read io d n h of
        ((b, e), h') \<Rightarrow>
          let fed' = fed @ b in
          if e = Some ErrEOF then
            ((b, case verify_end want f fed' limit eof_seen of Some v \<Rightarrow> Some v | None \<Rightarrow> e),
             VerifyingHandle h' want f fed' limit True closed)
          else ((b, e), VerifyingHandle h' want f fed' limit eof_seen closed))"

fun handle_close :: "read_handle \<Rightarrow> read_handle" where
  "handle_close (InlineHandle m p k) = InlineHandle m p k"
| "handle_close (TargetHandle m p rc closed) = TargetHandle m p (if closed then rc else None) True"
| "handle_close (VerifyingHandle h w f b l e closed) = VerifyingHandle (if closed then h else handle_close h) w f b l e True"

subsection \<open>What a handle delivers\<close>

text \<open>The bytes still to come from a handle and the error its last read reports.\<close>

fun handle_total :: "('d, 'i) cas_io \<Rightarrow> 'd \<Rightarrow> read_handle \<Rightarrow> bytes \<times> err" where
  "handle_total io d (InlineHandle m p k) = (drop k p, ErrEOF)"
| "handle_total io d (TargetHandle m p rc closed) =
     (if closed then ([], ErrClosed)
      else case (case rc of None \<Rightarrow> open_target io d m p | Some r \<Rightarrow> Inr r) of
        Inl e \<Rightarrow> ([], e)
      | Inr r \<Rightarrow> (fst r, case snd r of None \<Rightarrow> ErrEOF | Some e \<Rightarrow> e))"
| "handle_total io d (VerifyingHandle h want f fed limit eof_seen closed) =
     (if closed then ([], ErrClosed)
      else case handle_total io d h of (b, e) \<Rightarrow>
        (b, if e = ErrEOF then (case verify_end want f (fed @ b) limit eof_seen of Some v \<Rightarrow> v | None \<Rightarrow> e) else e))"

lemma handle_read_step:
  assumes "0 < n" "handle_read io d n h = ((b, e), h')"
  shows "case e of
      None \<Rightarrow> b \<noteq> [] \<and> handle_total io d h = (b @ fst (handle_total io d h'), snd (handle_total io d h'))
    | Some x \<Rightarrow> b = [] \<and> handle_total io d h = ([], x)"
  using assms(2)
proof (induction h arbitrary: b e h')
  case (InlineHandle m p k)
  show ?case
  proof (cases "k \<ge> length p")
    case True
    then show ?thesis using InlineHandle by auto
  next
    case False
    then have b: "b = take n (drop k p)" "e = None" "h' = InlineHandle m p (k + length (take n (drop k p)))"
      using InlineHandle by auto
    have "take n x @ drop (length (take n x)) x = x" for x :: bytes by (simp add: min_def)
    from this [of "drop k p"] have "drop k p = b @ drop (k + length b) p" by (simp add: b(1) add.commute)
    moreover have "b \<noteq> []" using False assms(1) by (simp add: b(1))
    ultimately show ?thesis using b by simp
  qed
next
  case (TargetHandle m p rc closed)
  let ?o = "case rc of None \<Rightarrow> open_target io d m p | Some r \<Rightarrow> Inr r"
  show ?case
  proof (cases ?o)
    case (Inl x)
    then show ?thesis using TargetHandle by (auto split: if_splits)
  next
    case (Inr r)
    obtain c x where r: "r = (c, x)" by (cases r)
    show ?thesis
      using TargetHandle Inr assms(1) by (cases x) (auto simp: r read_stream_def split: if_splits)
  qed
next
  case (VerifyingHandle h want f fed limit eof_seen closed)
  show ?case
  proof (cases closed)
    case True
    then show ?thesis using VerifyingHandle.prems by auto
  next
    case False
    obtain b1 e1 h1 where i: "handle_read io d n h = ((b1, e1), h1)" by (metis prod.collapse)
    show ?thesis
    proof (cases e1)
      case None
      then have t: "b1 \<noteq> []" "handle_total io d h = (b1 @ fst (handle_total io d h1), snd (handle_total io d h1))"
        using VerifyingHandle.IH [OF i] by simp_all
      have "b = b1" "e = None" "h' = VerifyingHandle h1 want f (fed @ b1) limit eof_seen closed"
        using VerifyingHandle.prems False i None by auto
      then show ?thesis using t False by (simp add: case_prod_beta)
    next
      case (Some x)
      then have t: "b1 = []" "handle_total io d h = ([], x)" using VerifyingHandle.IH [OF i] by simp_all
      show ?thesis
      proof (cases "x = ErrEOF")
        case True
        then have "b = []" "e = (case verify_end want f fed limit eof_seen of Some v \<Rightarrow> Some v | None \<Rightarrow> Some x)"
          using VerifyingHandle.prems False i Some t(1) by (auto simp: Let_def)
        then show ?thesis using t False True by (cases "verify_end want f fed limit eof_seen") simp_all
      next
        case notEOF: False
        then have "b = []" "e = Some x" using VerifyingHandle.prems False i Some t(1) by (auto simp: Let_def)
        then show ?thesis using t False notEOF by simp
      qed
    qed
  qed
qed

text \<open>Reading to the end delivers exactly that, whatever the sizes of the reads.\<close>

lemma drain_handle:
  assumes "\<forall>n \<in> set ns. 0 < n" "length (fst (handle_total io d h)) < length ns"
  shows "drain (\<lambda>h n. handle_read io d n h) h ns = (fst (handle_total io d h), Some (snd (handle_total io d h)))"
  using assms
proof (induction ns arbitrary: h)
  case (Cons n ns)
  obtain b e h' where r: "handle_read io d n h = ((b, e), h')" by (metis prod.collapse)
  have n: "0 < n" using Cons.prems(1) by simp
  show ?case
  proof (cases e)
    case None
    then have t: "b \<noteq> []" "handle_total io d h = (b @ fst (handle_total io d h'), snd (handle_total io d h'))"
      using handle_read_step [OF n r] by simp_all
    then have "length (fst (handle_total io d h')) < length ns" using Cons.prems(2) by (cases b) auto
    then show ?thesis using Cons.IH [of h'] Cons.prems(1) r None t(2) by simp
  next
    case (Some x)
    then show ?thesis using handle_read_step [OF n r] r by simp
  qed
qed simp

lemma drain_handle_end:
  assumes "\<forall>n \<in> set ns. 0 < n" "drain (\<lambda>h n. handle_read io d n h) h ns = (b, Some e)"
  shows "handle_total io d h = (b, e)"
  using assms
proof (induction ns arbitrary: h b)
  case (Cons n ns)
  obtain c x h' where r: "handle_read io d n h = ((c, x), h')" by (metis prod.collapse)
  have n: "0 < n" using Cons.prems(1) by simp
  show ?case
  proof (cases x)
    case None
    then obtain c' where c': "drain (\<lambda>h n. handle_read io d n h) h' ns = (c', Some e)" "b = c @ c'"
      using Cons.prems(2) r by (auto split: prod.splits)
    then show ?thesis using Cons.IH [OF _ c'(1)] Cons.prems(1) handle_read_step [OF n r] None by simp
  next
    case (Some y)
    then show ?thesis using Cons.prems(2) handle_read_step [OF n r] r by simp
  qed
qed simp

text \<open>C17: a verified read never passes off wrong bytes as the artifact.  Whatever the reader's buffer sizes, a read of
  a freshly wrapped handle that ends cleanly delivered exactly the inner stream, its hash is the content
  hash of the manifest and its length the declared size; a complete inner stream that differs is
  reported as a corrupted blob.\<close>

theorem verified_read_sound:
  assumes "wrap_verifying H h = Inr vh" "content_hash (handle_manifest h) \<noteq> []"
    and "\<forall>n \<in> set ns. 0 < n" "drain (\<lambda>h n. handle_read io d n h) vh ns = (b, Some e)"
  shows "(e = ErrEOF \<longleftrightarrow> handle_total io d h = (b, ErrEOF)
        \<and> (\<exists>f. H (hash_algo (handle_manifest h)) = Some f \<and> hex_decode (content_hash (handle_manifest h)) = Some (f b))
        \<and> (0 < original_size (handle_manifest h) \<longrightarrow> original_size (handle_manifest h) = int (length b)))
    \<and> (handle_total io d h = (b, ErrEOF) \<and> e \<noteq> ErrEOF \<longrightarrow> e = ErrCorruptedBlob)"
proof -
  let ?m = "handle_manifest h"
  obtain want f where p: "hex_decode (content_hash ?m) = Some want" "H (hash_algo ?m) = Some f"
    and vh: "vh = VerifyingHandle h want f [] (if original_size ?m > 0 then original_size ?m else -1) False False"
    using assms(1,2) by (auto simp: wrap_verifying_def Let_def parse_content_hash_def new_hasher_def split: option.splits sum.splits)
  obtain c x where t: "handle_total io d h = (c, x)" by fastforce
  have "handle_total io d vh = (b, e)" using drain_handle_end [OF assms(3,4)] .
  then have b: "b = c" "e = (if x = ErrEOF then
      (case verify_end want f c (if original_size ?m > 0 then original_size ?m else -1) False of Some v \<Rightarrow> v | None \<Rightarrow> x) else x)"
    by (auto simp: vh t)
  show ?thesis
    using b t p by (auto simp: verify_end_def split: if_splits)
qed

theorem verified_read_sound_witness:
  "\<exists>m vh. m = inline_manifest ''cfg'' 5 ''payload'' (hex_encode (len_hash ''payload'')) \<lparr> hash_algo := ''sha256'' \<rparr>
    \<and> wrap_verifying sample_registry (new_inline_handle m) = Inr vh
    \<and> (\<forall>(io :: (unit, unit) cas_io) d. drain (\<lambda>h n. handle_read io d n h) vh (replicate 8 2) = (''payload'', Some ErrEOF))
    \<and> (\<exists>f. sample_registry ''sha256'' = Some f \<and> hex_decode (content_hash m) = Some (f ''payload''))"
proof -
  let ?m = "inline_manifest ''cfg'' 5 ''payload'' (hex_encode (len_hash ''payload'')) \<lparr> hash_algo := ''sha256'' \<rparr>"
  let ?h = "new_inline_handle ?m"
  let ?vh = "VerifyingHandle ?h (len_hash ''payload'') len_hash [] 7 False False"
  have r: "sample_registry ''sha256'' = Some len_hash" by (simp add: sample_registry_def)
  have ne: "content_hash (handle_manifest ?h) \<noteq> []" by (simp add: new_inline_handle_def inline_manifest_def len_hash_def hex_byte_def Let_def)
  have w: "wrap_verifying sample_registry ?h = Inr ?vh"
    using ne by (simp add: wrap_verifying_def new_inline_handle_def inline_manifest_def parse_content_hash_def new_hasher_def r)
  have "handle_total (io :: (unit, unit) cas_io) d ?vh = (''payload'', ErrEOF)" for io d
    by (simp add: new_inline_handle_def inline_manifest_def verify_end_def)
  then have dr: "drain (\<lambda>h n. handle_read (io :: (unit, unit) cas_io) d n h) ?vh (replicate 8 2) = (''payload'', Some ErrEOF)" for io d
    by (subst drain_handle) simp_all
  then show ?thesis
    using verified_read_sound [OF w ne _ dr] w by (intro exI [of _ ?m] exI [of _ ?vh]) (simp add: new_inline_handle_def inline_manifest_def)
qed

end
