(* ===== verification/Cas_Sound.thy ===== *)
theory Cas_Sound
  imports Cas
begin

text \<open>
  Soundness of the write path over any driver and index that keep their contracts.  \<open>holds\<close> says which payload
  the store holds under a handle: an index row leads to a manifest file that verifies and decodes, and
  its blob decodes to the payload.  \<open>sound\<close> is the invariant: every row and every blob of the index is
  backed by its files.  Writing an artifact adds exactly that artifact, and a write that fails at any
  step adds and loses nothing.
\<close>

subsection \<open>What the store holds\<close>

definition stored_as :: "('d, 'i) cas_io \<Rightarrow> key_provider option \<Rightarrow> string \<Rightarrow> (path \<Rightarrow> bytes option) \<Rightarrow> string \<Rightarrow> manifest \<Rightarrow> bool" where
  "stored_as io keys algo v dg m = (\<exists>p fb. manifest_path dg = Inr p \<and> v p = Some fb \<and> length fb \<le> max_manifest_size
     \<and> verify_manifest_digest (io_hashes io) dg fb algo = Inr () \<and> decode_encrypted (io_json io) (io_cipher io) fb keys = Inr m)"

definition reads_as :: "('d, 'i) cas_io \<Rightarrow> (path \<Rightarrow> bytes option) \<Rightarrow> (string \<Rightarrow> ix_blob option) \<Rightarrow> manifest \<Rightarrow> bytes \<Rightarrow> bool" where
  "reads_as io v bl m p = (if blob_storage m = layout_inline then p = inline_blob m
     else blob_storage m = layout_target \<and> (\<exists>b c. bl (primary_blob_ref m) = Some b \<and> v (ib_path b) = Some c
       \<and> build_get (io_transformers io) (pipeline m) (c, None) = Inr (p, None)))"

definition claims :: "hash_registry \<Rightarrow> string \<Rightarrow> manifest \<Rightarrow> bytes \<Rightarrow> bool" where
  "claims H algo m p = (hash_algo m = algo \<and> (\<exists>h. H algo = Some h \<and> content_hash m = hex_encode (h p))
     \<and> original_size m = int (length p))"

definition artifact_row ::
    "('d, 'i) cas_io \<Rightarrow> key_provider option \<Rightarrow> string \<Rightarrow> (path \<Rightarrow> bytes option) \<Rightarrow> (string \<Rightarrow> ix_blob option)
      \<Rightarrow> string \<Rightarrow> ix_manifest \<Rightarrow> bytes \<Rightarrow> bool" where
  "artifact_row io keys algo v bl dg r p = (\<exists>m. stored_as io keys algo v dg m \<and> im_aid r = Some (artifact_id m)
     \<and> im_refs r = indexed_refs m \<and> claims (io_hashes io) algo m p \<and> reads_as io v bl m p)"

definition holds ::
    "('d, 'i) cas_io \<Rightarrow> key_provider option \<Rightarrow> string \<Rightarrow> (path \<Rightarrow> bytes option) \<Rightarrow> (string \<Rightarrow> ix_manifest option)
      \<Rightarrow> (string \<Rightarrow> ix_blob option) \<Rightarrow> string \<Rightarrow> bytes \<Rightarrow> bool" where
  "holds io keys algo v mf bl a p = (\<exists>dg r. mf dg = Some r \<and> im_aid r = Some a \<and> artifact_row io keys algo v bl dg r p)"

definition blob_sound ::
    "transformer_registry \<Rightarrow> path_topology \<Rightarrow> string list \<Rightarrow> hash_fun \<Rightarrow> (path \<Rightarrow> bytes option) \<Rightarrow> string \<Rightarrow> ix_blob \<Rightarrow> bool" where
  "blob_sound T topo pl h v r b = (wf_ref r \<and> blob_path topo BlobTypeRegular r = Inr (ib_path b)
     \<and> (\<exists>c. v (ib_path b) = Some c \<and> r = hex_encode (h c)
        \<and> (ib_crypto b = [] \<longrightarrow> (\<forall>ss. map ps_algorithm ss = pl \<and> crypto_identity_of ss = [] \<longrightarrow>
             (\<exists>p. build_get T ss (c, None) = Inr (p, None) \<and> ib_content b = hex_encode (h p) \<and> ib_size b = int (length p))))))"

text \<open>A row is stale when its manifest file is gone: what a deletion interrupted before the index leaves behind.\<close>

definition stale :: "(path \<Rightarrow> bytes option) \<Rightarrow> string \<Rightarrow> bool" where
  "stale v dg = (\<forall>p. manifest_path dg = Inr p \<longrightarrow> v p = None)"

definition sound ::
    "('d, 'i) cas_io \<Rightarrow> key_provider option \<Rightarrow> store_config \<Rightarrow> hash_fun \<Rightarrow> (path \<Rightarrow> bytes option) \<Rightarrow> (string \<Rightarrow> ix_manifest option)
      \<Rightarrow> (string \<Rightarrow> ix_blob option) \<Rightarrow> bool" where
  "sound io keys cfg h v mf bl =
     ((\<forall>r b. bl r = Some b \<longrightarrow> blob_sound (io_transformers io) (cf_path_topology cfg) (cf_pipeline cfg) h v r b)
      \<and> (\<forall>dg r. mf dg = Some r \<longrightarrow> wf_ref dg
          \<and> (\<forall>a. im_aid r = Some a \<longrightarrow>
               stale v dg \<or> (\<exists>p. artifact_row io keys (hasher_name (cf_content_hasher cfg)) v bl dg r p)))
      \<and> (\<forall>dg dg' r r' a. mf dg = Some r \<and> mf dg' = Some r' \<and> im_aid r = Some a \<and> im_aid r' = Some a \<longrightarrow> dg = dg'))"

text \<open>The file paths the index answers for.\<close>

lemma sound_unique:
  "sound io keys cfg h v mf bl \<Longrightarrow> mf d = Some r \<Longrightarrow> mf d' = Some r' \<Longrightarrow> im_aid r = Some a \<Longrightarrow> im_aid r' = Some a \<Longrightarrow> d = d'"
  unfolding sound_def by metis

definition indexed_paths :: "(string \<Rightarrow> ix_manifest option) \<Rightarrow> (string \<Rightarrow> ix_blob option) \<Rightarrow> path set" where
  "indexed_paths mf bl = {p. \<exists>dg. mf dg \<noteq> None \<and> manifest_path dg = Inr p} \<union> {p. \<exists>r b. bl r = Some b \<and> p = ib_path b}"

lemma indexed_pathsI [intro]:
  "mf dg \<noteq> None \<Longrightarrow> manifest_path dg = Inr p \<Longrightarrow> p \<in> indexed_paths mf bl" "bl r = Some b \<Longrightarrow> ib_path b \<in> indexed_paths mf bl"
  by (auto simp: indexed_paths_def)

lemma stored_as_frame:
  assumes "\<And>p. manifest_path dg = Inr p \<Longrightarrow> v' p = v p"
  shows "stored_as io keys algo v' dg m = stored_as io keys algo v dg m"
  using assms unfolding stored_as_def by metis

lemma reads_as_frame:
  assumes "\<And>b. bl (primary_blob_ref m) = Some b \<Longrightarrow> v' (ib_path b) = v (ib_path b)"
  shows "reads_as io v' bl m p = reads_as io v bl m p"
  using assms unfolding reads_as_def by metis

lemma artifact_row_frame:
  assumes "\<And>p. p \<in> indexed_paths mf bl \<Longrightarrow> v' p = v p" "mf dg \<noteq> None"
  shows "artifact_row io keys algo v' bl dg r p = artifact_row io keys algo v bl dg r p"
proof -
  have "stored_as io keys algo v' dg m = stored_as io keys algo v dg m" for m
    using assms by (intro stored_as_frame assms(1)) blast
  moreover have "reads_as io v' bl m p = reads_as io v bl m p" for m
    by (intro reads_as_frame assms(1)) blast
  ultimately show ?thesis by (simp add: artifact_row_def)
qed

lemma holds_frame:
  assumes "\<And>p. p \<in> indexed_paths mf bl \<Longrightarrow> v' p = v p"
  shows "holds io keys algo v' mf bl a p = holds io keys algo v mf bl a p"
proof -
  have "artifact_row io keys algo v' bl dg r p = artifact_row io keys algo v bl dg r p" if "mf dg = Some r" for dg r
    by (rule artifact_row_frame [where mf = mf]) (simp_all add: assms that)
  then show ?thesis unfolding holds_def by blast
qed

lemma sound_frame:
  assumes "sound io keys cfg h v mf bl" "\<And>p. p \<in> indexed_paths mf bl \<Longrightarrow> v' p = v p"
  shows "sound io keys cfg h v' mf bl"
proof -
  have "blob_sound T topo pl h v' r b = blob_sound T topo pl h v r b" if "bl r = Some b" for T topo pl r b
  proof -
    have "v' (ib_path b) = v (ib_path b)" using that by (intro assms(2)) blast
    then show ?thesis by (simp add: blob_sound_def)
  qed
  moreover have "artifact_row io keys algo v' bl dg r = artifact_row io keys algo v bl dg r" if "mf dg = Some r" for algo dg r
    by (rule ext, rule artifact_row_frame [where mf = mf]) (simp_all add: assms(2) that)
  moreover have "stale v' dg = stale v dg" if "mf dg = Some r" for dg r
  proof -
    have "v' p = v p" if "manifest_path dg = Inr p" for p
      using that \<open>mf dg = Some r\<close> by (intro assms(2)) auto
    then show ?thesis unfolding stale_def by auto
  qed
  ultimately show ?thesis using assms(1) unfolding sound_def by simp
qed

subsection \<open>What is relied on of a run\<close>

text \<open>No two byte strings in play have the same hash: neither the new blob and a stored file, nor the payload and
  the payload of a stored blob.\<close>

definition no_clash :: "transformer_registry \<Rightarrow> hash_fun \<Rightarrow> (path \<Rightarrow> bytes option) \<Rightarrow> (string \<Rightarrow> ix_blob option) \<Rightarrow> bytes \<Rightarrow> bytes \<Rightarrow> bool" where
  "no_clash T h v bl p c = ((\<forall>q c'. v q = Some c' \<and> h c' = h c \<longrightarrow> c' = c)
     \<and> (\<forall>r b c' ss p'. bl r = Some b \<and> v (ib_path b) = Some c' \<and> build_get T ss (c', None) = Inr (p', None) \<and> h p' = h p \<longrightarrow> p' = p))"

definition clash_free ::
    "('d, 'i) cas_io \<Rightarrow> store_config \<Rightarrow> string \<Rightarrow> string \<Rightarrow> hash_fun \<Rightarrow> (path \<Rightarrow> bytes option) \<Rightarrow> (string \<Rightarrow> ix_blob option) \<Rightarrow> bytes \<Rightarrow> bool" where
  "clash_free io cfg algo kid h v bl p = (\<forall>c pp.
     build_put (io_hashes io) (io_transformers io) algo (p, None) (cf_pipeline cfg) (encode_ctx cfg kid) = Inr ((c, None), pp) \<longrightarrow>
       no_clash (io_transformers io) h v bl p c)"

text \<open>The decoders of a pipeline without crypto stages take nothing from the manifest but the algorithms.\<close>

definition plain_blind :: "transformer_registry \<Rightarrow> string list \<Rightarrow> bool" where
  "plain_blind T pl = (\<forall>ss ss' r. map ps_algorithm ss = pl \<and> map ps_algorithm ss' = pl \<and> crypto_identity_of ss = [] \<longrightarrow>
     build_get T ss r = build_get T ss' r)"

definition is_uuid :: "string \<Rightarrow> bool" where
  "is_uuid u = (u \<noteq> [] \<and> list_all (\<lambda>c. is_lower_hex c \<or> c = CHR ''-'') u)"

text \<open>Where a payload was placed: inside the result, or as a blob that decodes to it.\<close>

definition placed ::
    "('d, 'i) cas_io \<Rightarrow> store_config \<Rightarrow> hash_fun \<Rightarrow> (path \<Rightarrow> bytes option) \<Rightarrow> bytes \<Rightarrow> cas_result \<Rightarrow> bool" where
  "placed io cfg h v p rs = (rs_content_hash rs = hex_encode (h p) \<and> rs_original_size rs = int (length p)
     \<and> (case rs_inline rs of
          Some b \<Rightarrow> b = p \<and> rs_blob_ref rs = [] \<and> rs_stages rs = []
        | None \<Rightarrow> map ps_algorithm (rs_stages rs) = cf_pipeline cfg
            \<and> wf_ref (rs_blob_ref rs) \<and> blob_path (cf_path_topology cfg) BlobTypeRegular (rs_blob_ref rs) = Inr (pa_path (rs_addr rs))
            \<and> (\<exists>c. v (pa_path (rs_addr rs)) = Some c \<and> rs_blob_ref rs = hex_encode (h c)
                \<and> build_get (io_transformers io) (rs_stages rs) (c, None) = Inr (p, None))))"

lemma staging_disjoint:
  "manifest_path dg = Inr p \<Longrightarrow> p \<noteq> make_staging_path u" "blob_path tp t r = Inr p \<Longrightarrow> p \<noteq> make_staging_path u"
proof -
  show "manifest_path dg = Inr p \<Longrightarrow> p \<noteq> make_staging_path u"
    by (auto simp: manifest_path_def make_staging_path_def staging_prefix_def split: if_splits sum.splits)
  show "blob_path tp t r = Inr p \<Longrightarrow> p \<noteq> make_staging_path u"
    by (drule blob_path_root) (auto simp: blob_roots_eq make_staging_path_def staging_prefix_def)
qed

lemma placed_manifest:
  assumes "placed io cfg h v p rs" "manifest_path dg = Inr mp"
  shows "placed io cfg h (v(mp \<mapsto> fb)) p rs"
proof (cases "rs_inline rs")
  case None
  then have "pa_path (rs_addr rs) \<noteq> mp" using assms blob_manifest_paths_disjoint by (fastforce simp: placed_def)
  then show ?thesis using assms(1) None by (simp add: placed_def)
qed (use assms(1) in \<open>simp add: placed_def\<close>)

lemma staging_not_indexed:
  assumes "sound io keys cfg h v mf bl"
  shows "make_staging_path u \<notin> indexed_paths mf bl"
proof -
  have "make_staging_path u \<noteq> ib_path b" if "bl r = Some b" for r b
  proof -
    have "blob_path (cf_path_topology cfg) BlobTypeRegular r = Inr (ib_path b)"
      using that assms unfolding sound_def blob_sound_def by blast
    then show ?thesis using staging_disjoint(2) by metis
  qed
  moreover have "manifest_path dg \<noteq> Inr (make_staging_path u)" for dg using staging_disjoint(1) by blast
  ultimately show ?thesis unfolding indexed_paths_def by blast
qed

lemma manifest_not_indexed:
  assumes "sound io keys cfg h v mf bl" "wf_ref dg" "mf dg = None" "manifest_path dg = Inr mp"
  shows "mp \<notin> indexed_paths mf bl"
proof -
  have "mp \<noteq> ib_path b" if "bl r = Some b" for r b
  proof -
    have "blob_path (cf_path_topology cfg) BlobTypeRegular r = Inr (ib_path b)"
      using that assms(1) unfolding sound_def blob_sound_def by blast
    then show ?thesis using blob_manifest_paths_disjoint assms(4) by metis
  qed
  moreover have "manifest_path dg' \<noteq> Inr mp" if "mf dg' \<noteq> None" for dg'
  proof
    assume a: "manifest_path dg' = Inr mp"
    have "wf_ref dg'" using that assms(1) unfolding sound_def by blast
    then show False using manifest_path_inj [OF assms(2) _ assms(4) a] that assms(3) by simp
  qed
  ultimately show ?thesis unfolding indexed_paths_def by blast
qed

lemma build_put_good:
  assumes "stages_good T ec pl" "H algo = Some h"
  shows "\<exists>c pp stages. build_put H T algo (p, None) pl ec = Inr ((c, None), pp)
    \<and> finalize pp = (hex_encode (h p), hex_encode (h c), stages) \<and> content_bytes_read pp = length p
    \<and> map ps_algorithm stages = pl \<and> build_get T stages (c, None) = Inr (p, None)"
proof -
  obtain c sts where c: "encode_stages T ec pl (p, None) = Inr ((c, None), sts)" "map st_algorithm sts = pl"
      "pl \<noteq> [] \<longrightarrow> st_fed (last sts) = c" "build_get T (map (stage_of algo h) sts) (c, None) = Inr (p, None)"
    using encode_stages_lossless [OF assms(1)] by blast
  let ?pp = "\<lparr> pp_stages = sts, pp_content = p, pp_blob = c, pp_algo = algo, pp_hash = h \<rparr>"
  have "build_put H T algo (p, None) pl ec = Inr ((c, None), ?pp)"
    using assms(2) c(1,3) by (simp add: build_put_def new_hasher_def)
  moreover have "map ps_algorithm (map (stage_of algo h) sts) = pl" using c(2) by (simp add: stage_of_def comp_def)
  ultimately show ?thesis
    using c(4) by (intro exI [of _ c] exI [of _ ?pp] exI [of _ "map (stage_of algo h) sts"])
                  (simp add: finalize_stage_of content_bytes_read_def)
qed

lemma blob_sound_refs [simp]: "blob_sound T topo pl h v r (b \<lparr> ib_refs := n \<rparr>) = blob_sound T topo pl h v r b"
  by (simp add: blob_sound_def)

lemma reads_as_fun: "reads_as io v bl m p \<Longrightarrow> reads_as io v bl m q \<Longrightarrow> p = q"
  by (auto simp: reads_as_def split: if_splits)

lemma reads_as_more:
  assumes "reads_as io v bl m p" "\<And>r b. bl r = Some b \<Longrightarrow> \<exists>b'. bl' r = Some b' \<and> ib_path b' = ib_path b"
  shows "reads_as io v bl' m p"
proof (cases "blob_storage m = layout_inline")
  case False
  then obtain b c where b: "blob_storage m = layout_target" "bl (primary_blob_ref m) = Some b" "v (ib_path b) = Some c"
      "build_get (io_transformers io) (pipeline m) (c, None) = Inr (p, None)"
    using assms(1) by (auto simp: reads_as_def)
  then show ?thesis using assms(2) [OF b(2)] False by (auto simp: reads_as_def)
qed (use assms(1) in \<open>simp add: reads_as_def\<close>)

lemma reads_as_retag [simp]:
  "reads_as io v bl (m \<lparr> digest := d \<rparr>) p = reads_as io v bl m p" "reads_as io v bl (m \<lparr> artifact_id := i \<rparr>) p = reads_as io v bl m p"
  by (simp_all add: reads_as_def primary_blob_ref_def)

lemma stored_as_fun: "stored_as io keys algo v dg m \<Longrightarrow> stored_as io keys algo v dg m' \<Longrightarrow> m = m'"
  by (auto simp: stored_as_def)

lemma artifact_row_fun: "artifact_row io keys algo v bl dg r p \<Longrightarrow> artifact_row io keys algo v bl dg r q \<Longrightarrow> p = q"
  unfolding artifact_row_def by (blast dest: stored_as_fun intro: reads_as_fun)

lemma artifact_row_not_stale: "artifact_row io keys algo v bl dg r p \<Longrightarrow> \<not> stale v dg"
  by (auto simp: artifact_row_def stored_as_def stale_def)

lemma artifact_row_more:
  assumes "artifact_row io keys algo v bl dg r p" "\<And>r b. bl r = Some b \<Longrightarrow> \<exists>b'. bl' r = Some b' \<and> ib_path b' = ib_path b"
  shows "artifact_row io keys algo v bl' dg r p"
proof -
  obtain m where m: "stored_as io keys algo v dg m" "im_aid r = Some (artifact_id m)" "im_refs r = indexed_refs m"
      "claims (io_hashes io) algo m p" "reads_as io v bl m p"
    using assms(1) by (auto simp: artifact_row_def)
  have "reads_as io v bl' m p" by (rule reads_as_more [OF m(5)]) (rule assms(2))
  then show ?thesis using m(1-4) unfolding artifact_row_def by blast
qed

text \<open>What the codec needs for a manifest written with \<open>dek\<close> to be read back through \<open>keys\<close>.\<close>

definition manifest_env ::
    "('d, 'i) cas_io \<Rightarrow> store_config \<Rightarrow> nonces \<Rightarrow> key_provider option \<Rightarrow> bytes \<Rightarrow> string \<Rightarrow> (bytes \<Rightarrow> bool) \<Rightarrow> bool" where
  "manifest_env io cfg ns keys dek kid compact = (json_faithful (io_json io) compact
     \<and> (\<not> is_plain (cf_manifest_crypto cfg) \<longrightarrow> aead_correct (io_cipher io) \<and> nonces_ok ns
        \<and> (\<exists>gk cands. keys = Some gk \<and> gk kid = Inr cands \<and> dek \<in> set cands \<and> key_committing (io_cipher io) dek cands)))"

lemma persisted_fields [simp]:
  "artifact_id (persisted m) = artifact_id m" "content_hash (persisted m) = content_hash m" "original_size (persisted m) = original_size m"
  "hash_algo (persisted m) = hash_algo m" "blob_refs (persisted m) = blob_refs m" "blob_storage (persisted m) = blob_storage m"
  "pipeline (persisted m) = pipeline m" "primary_blob_ref (persisted m) = primary_blob_ref m" "indexed_refs (persisted m) = indexed_refs m"
  "persisted (m \<lparr> digest := d \<rparr>) = persisted m" "session_id (persisted m) = session_id m"
  by (simp_all add: persisted_def primary_blob_ref_def indexed_refs_def)

lemma digest_readable:
  assumes "manifest_env io cfg ns keys dek kid compact" "manifest_utf8 (m \<lparr> hash_algo := algo \<rparr>)" "compact (ext m)" "compact (usr m)"
    and "compute_manifest_digest (io_json io) (io_cipher io) H ns m algo enc (cf_manifest_crypto cfg) dek kid = Inr (d, fb, m')"
    and "length fb \<le> max_manifest_size" "H algo = Some h"
  shows "m' = m \<lparr> hash_algo := algo, digest := d \<rparr> \<and> d = hex_encode (h fb) \<and> verify_manifest_digest H d fb algo = Inr ()
    \<and> decode_encrypted (io_json io) (io_cipher io) fb keys = Inr (persisted m')"
proof -
  let ?m = "m \<lparr> hash_algo := algo \<rparr>" and ?c = "cf_manifest_crypto cfg"
  have e: "(if is_plain ?c then encode (io_json io) ?m enc ?c
           else encode_encrypted (io_json io) (io_cipher io) ns ?m enc ?c dek kid) = Inr fb"
    and d: "m' = ?m \<lparr> digest := d \<rparr>" "d = hex_encode (h fb)"
    using assms(5,7) by (auto simp: compute_manifest_digest_def Let_def new_hasher_def split: sum.splits)
  have j: "json_faithful (io_json io) compact" using assms(1) by (simp add: manifest_env_def)
  have "decode_encrypted (io_json io) (io_cipher io) fb keys = Inr (persisted ?m)"
  proof (cases "is_plain ?c")
    case True
    then show ?thesis using decode_encode_plain [OF j assms(2)] assms(3,4,6) e by simp
  next
    case False
    then obtain gk cands where g: "keys = Some gk" "gk kid = Inr cands" "dek \<in> set cands" "key_committing (io_cipher io) dek cands"
        "aead_correct (io_cipher io)" "nonces_ok ns"
      using assms(1) by (auto simp: manifest_env_def)
    have "encode_encrypted (io_json io) (io_cipher io) ns ?m enc ?c dek kid = Inr fb" using e False by simp
    then show ?thesis
      using decode_encode_encrypted [where get_keys = gk, OF j assms(2) _ _ g(5,4,3,6) _ g(2) assms(6)] assms(3,4) g(1) by simp
  qed
  then show ?thesis using d assms(7) by (simp add: verify_manifest_digest_def new_hasher_def)
qed

lemma hash_format_nonempty: "hash_format algo b \<noteq> []"
  by (simp add: hash_format_def)

lemma compute_handle_okD:
  assumes "compute_handle H m algo nk nonce = Inr m1"
  shows "\<exists>aid md. aid \<noteq> [] \<and> m1 = m \<lparr> artifact_id := aid, identity_meta_hash := md, identity_nonce := nonce \<rparr>"
proof -
  obtain h where h: "new_hasher H algo = Inr h" using assms by (auto simp: compute_handle_def split: sum.splits)
  let ?md = "hash_format algo (h identity_meta_canon_empty)"
  obtain aid where a: "handle_of H algo nk (content_hash m) ?md nonce = Inr aid"
      "m1 = m \<lparr> artifact_id := aid, identity_meta_hash := ?md, identity_nonce := nonce \<rparr>"
    using assms h by (auto simp: compute_handle_def Let_def split: sum.splits)
  have "aid \<noteq> []" using a(1) by (auto simp: handle_of_def hash_format_nonempty split: option.splits sum.splits)
  then show ?thesis using a(2) by blast
qed

lemma assemble_okD:
  assumes "assemble_manifest io cfg w a opts rs dek kid = Inr (m, fb)"
    and "io_hashes io (hasher_name (cf_content_hasher cfg)) = Some h"
  shows "\<exists>aid md nonce. aid \<noteq> [] \<and> m = put_manifest opts a rs (dr_now w) \<lparr> artifact_id := aid, identity_meta_hash := md,
      identity_nonce := nonce, hash_algo := hasher_name (cf_content_hasher cfg), digest := hex_encode (h fb) \<rparr>
    \<and> compute_manifest_digest (io_json io) (io_cipher io) (io_hashes io) (dr_seal w)
        (put_manifest opts a rs (dr_now w) \<lparr> artifact_id := aid, identity_meta_hash := md, identity_nonce := nonce \<rparr>)
        (hasher_name (cf_content_hasher cfg)) (cf_manifest_encoding cfg) (cf_manifest_crypto cfg) dek kid = Inr (hex_encode (h fb), fb, m)"
proof -
  let ?algo = "hasher_name (cf_content_hasher cfg)"
  obtain m1 d where m1: "compute_handle (io_hashes io) (put_manifest opts a rs (dr_now w)) ?algo naming_key_public
        (identity_nonce_for (cf_identity_mode cfg) (dr_nonce w)) = Inr m1"
      "compute_manifest_digest (io_json io) (io_cipher io) (io_hashes io) (dr_seal w) m1 ?algo
        (cf_manifest_encoding cfg) (cf_manifest_crypto cfg) dek kid = Inr (d, fb, m)"
    using assms(1) by (auto simp: assemble_manifest_def Let_def split: sum.splits)
  have d: "d = hex_encode (h fb)" "m = m1 \<lparr> hash_algo := ?algo, digest := d \<rparr>"
    using m1(2) assms(2) by (auto simp: compute_manifest_digest_def Let_def new_hasher_def split: sum.splits)
  obtain aid md nonce where a: "aid \<noteq> []"
      "m1 = put_manifest opts a rs (dr_now w) \<lparr> artifact_id := aid, identity_meta_hash := md, identity_nonce := nonce \<rparr>"
    using compute_handle_okD [OF m1(1)] by blast
  have "m = put_manifest opts a rs (dr_now w) \<lparr> artifact_id := aid, identity_meta_hash := md,
      identity_nonce := nonce, hash_algo := ?algo, digest := hex_encode (h fb) \<rparr>"
    by (simp add: d a(2))
  then show ?thesis using a d(1) m1(2) by blast
qed

subsection \<open>Registering a new manifest\<close>

text \<open>A manifest describes a placed payload when its fields are those of the result.\<close>

definition describes :: "manifest \<Rightarrow> cas_result \<Rightarrow> string \<Rightarrow> bool" where
  "describes m rs algo = (hash_algo m = algo \<and> content_hash m = rs_content_hash rs \<and> original_size m = rs_original_size rs
     \<and> pipeline m = rs_stages rs \<and> artifact_id m \<noteq> []
     \<and> (case rs_inline rs of
          Some b \<Rightarrow> blob_storage m = layout_inline \<and> inline_blob m = b
        | None \<Rightarrow> blob_storage m = layout_target \<and> blob_refs m = [rs_blob_ref rs]))"

lemma wf_ref_nonempty: "wf_ref r \<Longrightarrow> r \<noteq> []"
  by (auto dest: wf_ref_facts)

lemma describes_reads:
  assumes "describes m rs algo" "placed io cfg h v p rs" "io_hashes io algo = Some h"
  shows "claims (io_hashes io) algo m p"
    and "reads_as io v (spec_index_blobs m (pa_path (rs_addr rs)) bl) m p \<or> (\<exists>b. bl (rs_blob_ref rs) = Some b \<and> ib_path b \<noteq> pa_path (rs_addr rs))"
proof -
  show "claims (io_hashes io) algo m p"
    using assms by (auto simp: describes_def placed_def claims_def)
  show "reads_as io v (spec_index_blobs m (pa_path (rs_addr rs)) bl) m p \<or> (\<exists>b. bl (rs_blob_ref rs) = Some b \<and> ib_path b \<noteq> pa_path (rs_addr rs))"
  proof (cases "rs_inline rs")
    case (Some b)
    then show ?thesis using assms by (auto simp: describes_def placed_def reads_as_def)
  next
    case None
    then obtain c where c: "blob_storage m = layout_target" "blob_refs m = [rs_blob_ref rs]" "pipeline m = rs_stages rs"
        "v (pa_path (rs_addr rs)) = Some c" "build_get (io_transformers io) (rs_stages rs) (c, None) = Inr (p, None)"
      using assms by (auto simp: describes_def placed_def)
    show ?thesis
    proof (cases "bl (rs_blob_ref rs)")
      case (Some b)
      then show ?thesis
        using c by (cases "ib_path b = pa_path (rs_addr rs)") (auto simp: reads_as_def primary_blob_ref_def spec_index_blobs_def)
    qed (use c in \<open>auto simp: reads_as_def primary_blob_ref_def spec_index_blobs_def indexed_refs_def\<close>)
  qed
qed

lemma blob_sound_register:
  assumes "\<And>r b. bl r = Some b \<Longrightarrow> blob_sound (io_transformers io) (cf_path_topology cfg) (cf_pipeline cfg) h v r b"
    and "describes m rs algo" "placed io cfg h v p rs" "plain_blind (io_transformers io) (cf_pipeline cfg)"
    and "spec_index_blobs m (pa_path (rs_addr rs)) bl r = Some b"
  shows "blob_sound (io_transformers io) (cf_path_topology cfg) (cf_pipeline cfg) h v r b"
proof (cases "bl r")
  case (Some b0)
  then have "b = b0 \<lparr> ib_refs := ib_refs b \<rparr>" using assms(5) by (auto simp: spec_index_blobs_def)
  then show ?thesis using assms(1) [OF Some] blob_sound_refs by metis
next
  case None
  then have r: "r \<in> set (indexed_refs m)" and b: "ib_path b = pa_path (rs_addr rs)" "ib_content b = content_hash m"
      "ib_size b = original_size m" "ib_crypto b = crypto_identity_of (pipeline m)"
    using assms(5) by (auto simp: spec_index_blobs_def split: if_splits)
  have n: "rs_inline rs = None" "r = rs_blob_ref rs"
    using r assms(2) by (auto simp: indexed_refs_def describes_def split: if_splits option.splits)
  obtain c where c: "map ps_algorithm (rs_stages rs) = cf_pipeline cfg" "wf_ref r"
      "blob_path (cf_path_topology cfg) BlobTypeRegular r = Inr (pa_path (rs_addr rs))" "v (pa_path (rs_addr rs)) = Some c"
      "r = hex_encode (h c)" "build_get (io_transformers io) (rs_stages rs) (c, None) = Inr (p, None)"
      "content_hash m = hex_encode (h p)" "original_size m = int (length p)" "pipeline m = rs_stages rs"
    using assms(2,3) n by (auto simp: placed_def describes_def)
  have "build_get (io_transformers io) ss (c, None) = Inr (p, None)"
    if "map ps_algorithm ss = cf_pipeline cfg" "crypto_identity_of ss = []" for ss
    using assms(4) that c(1,6) unfolding plain_blind_def by metis
  then show ?thesis using b c by (auto simp: blob_sound_def)
qed

lemma sound_register:
  assumes so: "sound io keys cfg h v mf bl" and ds: "describes m rs (hasher_name (cf_content_hasher cfg))"
    and pl: "placed io cfg h v p rs" "plain_blind (io_transformers io) (cf_pipeline cfg)"
    and H: "io_hashes io (hasher_name (cf_content_hasher cfg)) = Some h"
    and st: "stored_as io keys (hasher_name (cf_content_hasher cfg)) v (digest m) (persisted m)" "wf_ref (digest m)"
    and new: "mf (digest m) = None" "\<And>dg r. mf dg = Some r \<Longrightarrow> im_aid r \<noteq> Some (artifact_id m)"
    and pm: "describes (persisted m) rs (hasher_name (cf_content_hasher cfg))"
  shows "sound io keys cfg h v (spec_index_rows m n mf) (spec_index_blobs m (pa_path (rs_addr rs)) bl)"
    and "holds io keys (hasher_name (cf_content_hasher cfg)) v (spec_index_rows m n mf) (spec_index_blobs m (pa_path (rs_addr rs)) bl) a q
      \<longleftrightarrow> holds io keys (hasher_name (cf_content_hasher cfg)) v mf bl a q \<or> a = artifact_id m \<and> q = p"
proof -
  let ?algo = "hasher_name (cf_content_hasher cfg)" and ?mf = "spec_index_rows m n mf" and ?bl = "spec_index_blobs m (pa_path (rs_addr rs)) bl"
  let ?r = "\<lparr> im_aid = Some (artifact_id m), im_session = session_id m, im_refs = indexed_refs m, im_order = n \<rparr>"
  have mf: "?mf = mf(digest m \<mapsto> ?r)" using new(1) ds by (simp add: spec_index_rows_def describes_def)
  have bs: "\<And>r b. bl r = Some b \<Longrightarrow> blob_sound (io_transformers io) (cf_path_topology cfg) (cf_pipeline cfg) h v r b"
    using so by (simp add: sound_def)
  have more: "\<exists>b'. ?bl r = Some b' \<and> ib_path b' = ib_path b" if "bl r = Some b" for r b
    using that by (simp add: spec_index_blobs_def)
  have eqb: "spec_index_blobs (persisted m) x bl = spec_index_blobs m x bl" for x
    unfolding spec_index_blobs_def persisted_fields ..
  have "ib_path b = pa_path (rs_addr rs)" if "bl (rs_blob_ref rs) = Some b" "rs_inline rs = None" for b
    using bs [OF that(1)] pl(1) that(2) by (auto simp: blob_sound_def placed_def)
  moreover have "rs_inline rs \<noteq> None \<Longrightarrow> reads_as io v ?bl (persisted m) p"
    using pm pl(1) by (auto simp: describes_def placed_def reads_as_def)
  ultimately have rd: "reads_as io v ?bl (persisted m) p"
    using describes_reads(2) [OF pm pl(1) H, of bl] eqb by metis
  have row: "artifact_row io keys ?algo v ?bl (digest m) ?r p"
    using st(1) describes_reads(1) [OF pm pl(1) H] rd unfolding artifact_row_def by (intro exI [of _ "persisted m"]) simp
  have old: "stale v dg \<or> (\<exists>p0. artifact_row io keys ?algo v bl dg r p0 \<and> artifact_row io keys ?algo v ?bl dg r p0)"
    if "mf dg = Some r" "im_aid r = Some x" for dg r x
    using so that artifact_row_more [of io keys ?algo v bl dg r _ ?bl] more unfolding sound_def by meson
  show "sound io keys cfg h v ?mf ?bl"
    unfolding sound_def
  proof (intro conjI allI impI)
    fix r b assume "?bl r = Some b"
    then show "blob_sound (io_transformers io) (cf_path_topology cfg) (cf_pipeline cfg) h v r b"
      by (rule blob_sound_register [where bl = bl, OF _ ds pl, rotated]) (rule bs)
  next
    fix dg r assume "?mf dg = Some r"
    then show "wf_ref dg" using so st(2) by (auto simp: mf sound_def split: if_splits)
  next
    fix dg r x assume "?mf dg = Some r" "im_aid r = Some x"
    then show "stale v dg \<or> (\<exists>p. artifact_row io keys ?algo v ?bl dg r p)"
      using row old [of dg r x] by (cases "dg = digest m") (auto simp: mf)
  next
    fix dg dg' r r' x assume "?mf dg = Some r \<and> ?mf dg' = Some r' \<and> im_aid r = Some x \<and> im_aid r' = Some x"
    then show "dg = dg'"
      using new(2) so by (cases "dg = digest m"; cases "dg' = digest m") (auto simp: mf sound_def)
  qed
  show "holds io keys ?algo v ?mf ?bl a q \<longleftrightarrow> holds io keys ?algo v mf bl a q \<or> a = artifact_id m \<and> q = p"
  proof
    assume "holds io keys ?algo v ?mf ?bl a q"
    then obtain dg r where d: "?mf dg = Some r" "im_aid r = Some a" "artifact_row io keys ?algo v ?bl dg r q"
      by (auto simp: holds_def)
    show "holds io keys ?algo v mf bl a q \<or> a = artifact_id m \<and> q = p"
    proof (cases "dg = digest m")
      case True
      then have r: "r = ?r" using d(1) mf by simp
      then have "artifact_row io keys ?algo v ?bl (digest m) ?r q" using d(3) True by simp
      then show ?thesis using artifact_row_fun row d(2) r by fastforce
    next
      case False
      then have "mf dg = Some r" using d(1) mf by simp
      moreover have "\<not> stale v dg" using artifact_row_not_stale [OF d(3)] .
      ultimately show ?thesis using old [OF _ d(2)] artifact_row_fun [OF d(3)] d(2) unfolding holds_def by metis
    qed
  next
    assume "holds io keys ?algo v mf bl a q \<or> a = artifact_id m \<and> q = p"
    then show "holds io keys ?algo v ?mf ?bl a q"
    proof
      assume "holds io keys ?algo v mf bl a q"
      then obtain dg r where d: "mf dg = Some r" "im_aid r = Some a" "artifact_row io keys ?algo v bl dg r q"
        by (auto simp: holds_def)
      have "?mf dg = Some r" using d(1) new(1) mf by auto
      moreover have "artifact_row io keys ?algo v ?bl dg r q" by (rule artifact_row_more [OF d(3)]) (rule more)
      ultimately show ?thesis using d(2) unfolding holds_def by blast
    next
      assume "a = artifact_id m \<and> q = p"
      then show ?thesis unfolding holds_def using row mf by (intro exI [of _ "digest m"] exI [of _ ?r]) simp
    qed
  qed
qed

text \<open>A manifest no row of the index is known by, small enough to be read back.\<close>

definition fresh_manifest :: "(string \<Rightarrow> ix_manifest option) \<Rightarrow> manifest \<Rightarrow> bytes \<Rightarrow> bool" where
  "fresh_manifest mf m fb = (manifest_utf8 m \<and> length fb \<le> max_manifest_size \<and> mf (digest m) = None
     \<and> (\<forall>dg r. mf dg = Some r \<longrightarrow> im_aid r \<noteq> Some (artifact_id m)))"

lemma assemble_describes:
  assumes "assemble_manifest io cfg w a opts rs dek kid = Inr (m, fb)" "placed io cfg h v p rs"
    and H: "io_hashes io (hasher_name (cf_content_hasher cfg)) = Some h" "\<And>x. 2 \<le> length (h x)"
  shows "describes m rs (hasher_name (cf_content_hasher cfg))" "describes (persisted m) rs (hasher_name (cf_content_hasher cfg))"
    and "indexable m" "wf_ref (digest m)" "digest m = hex_encode (h fb)" "ext m = ar_ext a" "usr m = ar_usr a" "session_id m = po_session_id opts"
proof -
  obtain aid md nonce where m: "aid \<noteq> []" "m = put_manifest opts a rs (dr_now w) \<lparr> artifact_id := aid, identity_meta_hash := md,
      identity_nonce := nonce, hash_algo := hasher_name (cf_content_hasher cfg), digest := hex_encode (h fb) \<rparr>"
    using assemble_okD [OF assms(1) H(1)] by blast
  have ne: "h x \<noteq> []" for x using H(2) [of x] by auto
  show d: "describes m rs (hasher_name (cf_content_hasher cfg))"
    using assms(2) m wf_ref_nonempty by (auto simp: describes_def placed_def put_manifest_def split: option.splits)
  then show "describes (persisted m) rs (hasher_name (cf_content_hasher cfg))"
    by (auto simp: describes_def persisted_def split: option.splits)
  show "digest m = hex_encode (h fb)" using m(2) by simp
  then show "wf_ref (digest m)" using H(2) by auto
  show "indexable m"
    using d assms(2) \<open>digest m = hex_encode (h fb)\<close> ne
    by (auto simp: indexable_def indexed_refs_def describes_def placed_def split: option.splits)
  show "ext m = ar_ext a" "usr m = ar_usr a" "session_id m = po_session_id opts" using m(2) by (simp_all add: put_manifest_def)
qed

lemma assemble_stored:
  assumes "assemble_manifest io cfg w a opts rs dek kid = Inr (m, fb)"
    and "manifest_env io cfg (dr_seal w) keys dek kid compact" "compact (ar_ext a)" "compact (ar_usr a)"
    and "manifest_utf8 m" "length fb \<le> max_manifest_size" "io_hashes io (hasher_name (cf_content_hasher cfg)) = Some h"
    and "manifest_path (digest m) = Inr mp" "v mp = Some fb"
  shows "stored_as io keys (hasher_name (cf_content_hasher cfg)) v (digest m) (persisted m)"
proof -
  obtain aid md nonce where m: "m = put_manifest opts a rs (dr_now w) \<lparr> artifact_id := aid, identity_meta_hash := md,
      identity_nonce := nonce, hash_algo := hasher_name (cf_content_hasher cfg), digest := hex_encode (h fb) \<rparr>"
    "compute_manifest_digest (io_json io) (io_cipher io) (io_hashes io) (dr_seal w)
        (put_manifest opts a rs (dr_now w) \<lparr> artifact_id := aid, identity_meta_hash := md, identity_nonce := nonce \<rparr>)
        (hasher_name (cf_content_hasher cfg)) (cf_manifest_encoding cfg) (cf_manifest_crypto cfg) dek kid = Inr (hex_encode (h fb), fb, m)"
    using assemble_okD [OF assms(1,7)] by blast
  let ?m = "put_manifest opts a rs (dr_now w) \<lparr> artifact_id := aid, identity_meta_hash := md, identity_nonce := nonce \<rparr>"
  have "manifest_utf8 (?m \<lparr> hash_algo := hasher_name (cf_content_hasher cfg) \<rparr>)"
    using assms(5) m(1) by (simp add: manifest_utf8_def)
  moreover have "compact (ext ?m)" "compact (usr ?m)" using assms(3,4) by (simp_all add: put_manifest_def)
  ultimately have "verify_manifest_digest (io_hashes io) (hex_encode (h fb)) fb (hasher_name (cf_content_hasher cfg)) = Inr ()
      \<and> decode_encrypted (io_json io) (io_cipher io) fb keys = Inr (persisted m)"
    using digest_readable [OF assms(2) _ _ _ m(2) assms(6,7)] by blast
  moreover have "digest m = hex_encode (h fb)" using m(1) by simp
  ultimately show ?thesis using assms(6,8,9) by (simp add: stored_as_def)
qed

text \<open>Nothing but the collector depends on the reference counts.\<close>

lemma counts_blind:
  assumes "\<And>k. bl' k = map_option (\<lambda>b. b \<lparr> ib_refs := f k b \<rparr>) (bl k)"
  shows "sound io keys cfg h v mf bl' = sound io keys cfg h v mf bl"
    and "holds io keys algo v mf bl' a q = holds io keys algo v mf bl a q"
proof -
  have r: "reads_as io v bl' m p = reads_as io v bl m p" for m p
    by (cases "bl (primary_blob_ref m)") (simp_all add: reads_as_def assms)
  then have a: "artifact_row io keys algo v bl' dg w p = artifact_row io keys algo v bl dg w p" for algo dg w p
    by (simp add: artifact_row_def)
  show "holds io keys algo v mf bl' a q = holds io keys algo v mf bl a q" by (simp add: holds_def a)
  have "(\<forall>b. bl' r = Some b \<longrightarrow> blob_sound T tp pl h v r b) = (\<forall>b. bl r = Some b \<longrightarrow> blob_sound T tp pl h v r b)" for T tp pl r
    by (cases "bl r") (simp_all add: assms)
  then show "sound io keys cfg h v mf bl' = sound io keys cfg h v mf bl" by (simp add: sound_def a)
qed

subsection \<open>Removing a manifest file and its row\<close>

lemma remove_manifest_frame:
  assumes so: "sound io keys cfg h v mf bl" and mp: "manifest_path dg = Inr mp" "wf_ref dg"
    and q: "q \<in> indexed_paths (mf(dg := None)) bl"
  shows "(v(mp := None)) q = v q"
proof -
  have so': "sound io keys cfg h v (mf(dg := None)) bl" using so unfolding sound_def by auto
  have "mp \<notin> indexed_paths (mf(dg := None)) bl" using manifest_not_indexed [OF so' mp(2) _ mp(1)] by simp
  then show ?thesis using q by auto
qed

lemma sound_remove:
  assumes so: "sound io keys cfg h v mf bl" and mp: "manifest_path dg = Inr mp" "wf_ref dg"
  shows "sound io keys cfg h (v(mp := None)) mf bl" "sound io keys cfg h (v(mp := None)) (mf(dg := None)) bl"
    and "mf dg = Some r \<Longrightarrow> im_aid r = Some i \<Longrightarrow>
      holds io keys (hasher_name (cf_content_hasher cfg)) (v(mp := None)) mf bl a q
        \<longleftrightarrow> holds io keys (hasher_name (cf_content_hasher cfg)) v mf bl a q \<and> a \<noteq> i"
    and "mf dg = Some r \<Longrightarrow> im_aid r = Some i \<Longrightarrow>
      holds io keys (hasher_name (cf_content_hasher cfg)) (v(mp := None)) (mf(dg := None)) bl a q
        \<longleftrightarrow> holds io keys (hasher_name (cf_content_hasher cfg)) v mf bl a q \<and> a \<noteq> i"
proof -
  let ?v = "v(mp := None)" and ?mf = "mf(dg := None)" and ?algo = "hasher_name (cf_content_hasher cfg)"
  have so': "sound io keys cfg h v ?mf bl" using so unfolding sound_def by auto
  note fr = remove_manifest_frame [OF so mp]
  show s2: "sound io keys cfg h ?v ?mf bl" by (rule sound_frame [OF so' fr])
  have st: "stale ?v dg" using mp(1) by (simp add: stale_def)
  show "sound io keys cfg h ?v mf bl"
    unfolding sound_def
  proof (intro conjI allI impI)
    fix r b assume "bl r = Some b"
    then show "blob_sound (io_transformers io) (cf_path_topology cfg) (cf_pipeline cfg) h ?v r b" using s2 unfolding sound_def by blast
  next
    fix d r assume "mf d = Some r"
    then show "wf_ref d" using so unfolding sound_def by blast
  next
    fix d r x assume "mf d = Some r" "im_aid r = Some x"
    then show "stale ?v d \<or> (\<exists>p. artifact_row io keys ?algo ?v bl d r p)"
      using s2 st unfolding sound_def by (cases "d = dg") auto
  next
    fix d d' r r' x assume "mf d = Some r \<and> mf d' = Some r' \<and> im_aid r = Some x \<and> im_aid r' = Some x"
    then show "d = d'" using so unfolding sound_def by blast
  qed
  have hs: "holds io keys ?algo ?v ?mf bl a q \<longleftrightarrow> holds io keys ?algo v ?mf bl a q" for a q by (rule holds_frame [OF fr])
  show k: "holds io keys ?algo ?v ?mf bl a q \<longleftrightarrow> holds io keys ?algo v mf bl a q \<and> a \<noteq> i"
    if r: "mf dg = Some r" "im_aid r = Some i" for a q r i
  proof -
    have u: "d = dg" if "mf d = Some r'" "im_aid r' = Some i" for d r' by (rule sound_unique [OF so that(1) r(1) that(2) r(2)])
    have e: "?mf d = Some r' \<and> im_aid r' = Some a \<and> X \<longleftrightarrow> (mf d = Some r' \<and> im_aid r' = Some a \<and> X) \<and> a \<noteq> i" for d r' X
    proof (cases "d = dg")
      case False
      then show ?thesis using u [of d r'] by auto
    qed (use r in auto)
    show ?thesis unfolding hs unfolding holds_def e by blast
  qed
  show "holds io keys ?algo ?v mf bl a q \<longleftrightarrow> holds io keys ?algo v mf bl a q \<and> a \<noteq> i"
    if r: "mf dg = Some r" "im_aid r = Some i" for a q r i
  proof -
    have e: "?mf d = Some r' \<and> im_aid r' = Some a \<and> artifact_row io keys ?algo ?v bl d r' q
        \<longleftrightarrow> mf d = Some r' \<and> im_aid r' = Some a \<and> artifact_row io keys ?algo ?v bl d r' q" for d r'
      using artifact_row_not_stale [of io keys ?algo ?v bl d r' q] st by (cases "d = dg") auto
    have "holds io keys ?algo ?v mf bl a q \<longleftrightarrow> holds io keys ?algo ?v ?mf bl a q" unfolding holds_def e ..
    then show ?thesis using k [OF r] by simp
  qed
qed

subsection \<open>The write path keeps the store sound\<close>

locale cas_world = drv: driver_laws "io_drv io" view ok dinv + idx: index_laws "io_index io" imf ibl iinv
  for io :: "('d, 'i) cas_io" and view :: "'d \<Rightarrow> path \<Rightarrow> bytes option" and ok :: "path \<Rightarrow> bool" and dinv :: "'d \<Rightarrow> bool"
    and imf :: "'i \<Rightarrow> string \<Rightarrow> ix_manifest option" and ibl :: "'i \<Rightarrow> string \<Rightarrow> ix_blob option" and iinv :: "'i \<Rightarrow> bool" +
  assumes ok_staging: "is_uuid u \<Longrightarrow> ok (make_staging_path u)"
    and ok_blob: "wf_ref r \<Longrightarrow> blob_path tp BlobTypeRegular r = Inr p \<Longrightarrow> ok p"
    and ok_manifest: "wf_ref dg \<Longrightarrow> manifest_path dg = Inr q \<Longrightarrow> ok q"
    and get_no_eof: "dinv d \<Longrightarrow> ok q \<Longrightarrow> d_get (io_drv io) d q \<noteq> Inl ErrEOF"
begin

lemma commit_blob_err:
  assumes "dinv (w_drv s)" "is_uuid u" "wf_ref ref"
    and "commit_blob io cfg (make_staging_path u) ch n ref crypto s = (Inl e, s')"
  shows "w_idx s' = w_idx s \<and> dinv (w_drv s') \<and> (\<forall>q. q \<noteq> make_staging_path u \<longrightarrow> view (w_drv s') q = view (w_drv s) q)"
proof -
  let ?st = "make_staging_path u"
  note o = ok_staging [OF assms(2)]
  have rm: "dinv (snd (d_remove (io_drv io) d ?st)) \<and> (q \<noteq> ?st \<longrightarrow> view (snd (d_remove (io_drv io) d ?st)) q = view d q)"
    if "dinv d" for d q
    using that drv.inv_keep(2) drv.remove_frame [OF that o] by blast
  show ?thesis
  proof (cases "dedup_probe io ch n ref crypto (w_idx s)")
    case (Inl x)
    then show ?thesis using assms(1,4) rm [OF assms(1)] by (auto simp: commit_blob_def)
  next
    case (Inr x)
    show ?thesis
    proof (cases x)
      case (Some r)
      obtain y d where y: "d_remove (io_drv io) (w_drv s) ?st = (y, d)" by fastforce
      then have "w_idx s' = w_idx s" "w_drv s' = d"
        using assms(4) Inr Some by (auto simp: commit_blob_def split: sum.splits)
      then show ?thesis using rm [OF assms(1)] y by (metis snd_conv)
    next
      case None
      show ?thesis
      proof (cases "blob_path (cf_path_topology cfg) BlobTypeRegular ref")
        case (Inl y)
        then show ?thesis using assms(4) Inr None rm [OF assms(1)] by (auto simp: commit_blob_def)
      next
        case (Inr p)
        have op: "ok p" using ok_blob [OF assms(3) Inr] .
        obtain y d where y: "d_rename (io_drv io) (w_drv s) ?st p = (y, d)" by fastforce
        then obtain x' where x': "y = Inl x'" and s': "s' = s \<lparr> w_drv := snd (d_remove (io_drv io) d ?st) \<rparr>"
          using assms(4) \<open>dedup_probe io ch n ref crypto (w_idx s) = Inr x\<close> None Inr
          by (auto simp: commit_blob_def split: sum.splits)
        have "dinv d" using drv.inv_keep(3) [OF assms(1), of ?st p] y by simp
        moreover have "view d = view (w_drv s)" using drv.rename_err [OF assms(1) o op] y x' by blast
        ultimately show ?thesis using rm [of d] s' by simp
      qed
    qed
  qed
qed

lemma commit_blob_ok:
  assumes "dinv (w_drv s)" "is_uuid u" "wf_ref ref"
    and "commit_blob io cfg (make_staging_path u) ch n ref crypto s = (Inr (cref, addr), s')"
  shows "w_idx s' = w_idx s \<and> dinv (w_drv s')
    \<and> (dedup_probe io ch n ref crypto (w_idx s) = Inr (Some cref) \<and> si_resolve (io_index io) cref (w_idx s) = Inr addr
          \<and> view (w_drv s') = (view (w_drv s))(make_staging_path u := None)
      \<or> dedup_probe io ch n ref crypto (w_idx s) = Inr None \<and> cref = ref
          \<and> blob_path (cf_path_topology cfg) BlobTypeRegular ref = Inr (pa_path addr)
          \<and> (\<exists>c. view (w_drv s) (make_staging_path u) = Some c
              \<and> view (w_drv s') = (view (w_drv s))(make_staging_path u := None, pa_path addr \<mapsto> c)))"
proof -
  let ?st = "make_staging_path u"
  note o = ok_staging [OF assms(2)]
  obtain x where x: "dedup_probe io ch n ref crypto (w_idx s) = Inr x"
    using assms(4) by (cases "dedup_probe io ch n ref crypto (w_idx s)") (auto simp: commit_blob_def)
  show ?thesis
  proof (cases x)
    case (Some r)
    then obtain d where d: "d_remove (io_drv io) (w_drv s) ?st = (Inr (), d)" "si_resolve (io_index io) r (w_idx s) = Inr addr"
        "cref = r" "s' = s \<lparr> w_drv := d \<rparr>"
      using assms(4) x by (auto simp: commit_blob_def split: sum.splits prod.splits)
    have "dinv d" using drv.inv_keep(2) [OF assms(1), of ?st] d(1) by simp
    then show ?thesis using drv.remove_ok [OF assms(1) o d(1)] d Some x by simp
  next
    case None
    then obtain p d where p: "blob_path (cf_path_topology cfg) BlobTypeRegular ref = Inr p"
        "d_rename (io_drv io) (w_drv s) ?st p = (Inr (), d)" "cref = ref" "addr = address_at p" "s' = s \<lparr> w_drv := d \<rparr>"
      using assms(4) x by (cases "blob_path (cf_path_topology cfg) BlobTypeRegular ref")
        (auto simp: commit_blob_def Let_def split: sum.splits prod.splits)
    have "?st \<noteq> p" using staging_disjoint(2) [OF p(1)] by metis
    from drv.rename_ok [OF assms(1) o ok_blob [OF assms(3) p(1)] this p(2)]
    obtain c where "view (w_drv s) ?st = Some c" "view d = (view (w_drv s))(?st := None, p \<mapsto> c)" by blast
    moreover have "dinv d" using drv.inv_keep(3) [OF assms(1), of ?st p] p(2) by simp
    ultimately show ?thesis using p x None by (simp add: address_at_def)
  qed
qed

text \<open>Replacing the file at the path of an indexed blob by a blob with the same reference changes nothing.\<close>

lemma rename_indexed:
  assumes "sound io keys cfg h v mf bl" "wf_ref (hex_encode (h c))" "no_clash T h v bl p c"
    and "blob_path (cf_path_topology cfg) BlobTypeRegular (hex_encode (h c)) = Inr f" "q \<in> indexed_paths mf bl"
  shows "(v(make_staging_path u := None, f \<mapsto> c)) q = v q"
proof (cases "q = f")
  case True
  have "manifest_path dg \<noteq> Inr f" for dg using blob_manifest_paths_disjoint [OF assms(4)] by blast
  then obtain r b where b: "bl r = Some b" "f = ib_path b" using assms(5) True unfolding indexed_paths_def by blast
  then have bs: "blob_sound (io_transformers io) (cf_path_topology cfg) (cf_pipeline cfg) h v r b"
    using assms(1) unfolding sound_def by blast
  then obtain c' where c': "v f = Some c'" "r = hex_encode (h c')" "wf_ref r" unfolding blob_sound_def b(2) by blast
  have "r = hex_encode (h c)"
    using bs c'(3) blob_path_inj [OF c'(3) assms(2) _ assms(4)] unfolding blob_sound_def b(2) by blast
  then have "c' = c" using c' assms(3) by (simp add: no_clash_def)
  then show ?thesis using c'(1) True by simp
next
  case False
  then show ?thesis using assms(5) staging_not_indexed [OF assms(1), of u] by auto
qed

lemma dedup_hit:
  assumes "iinv i" "sound io keys cfg h v (imf i) (ibl i)" "no_clash (io_transformers io) h v (ibl i) p c"
    and "dedup_probe io (hex_encode (h p)) (int (length p)) (hex_encode (h c)) (crypto_identity_of stages) i = Inr (Some cref)"
    and "si_resolve (io_index io) cref i = Inr addr"
    and "map ps_algorithm stages = cf_pipeline cfg" "build_get (io_transformers io) stages (c, None) = Inr (p, None)"
    and "\<And>x. 2 \<le> length (h x)"
  shows "\<exists>b c'. ibl i cref = Some b \<and> pa_path addr = ib_path b \<and> v (ib_path b) = Some c' \<and> cref = hex_encode (h c')
    \<and> build_get (io_transformers io) stages (c', None) = Inr (p, None)"
proof -
  have hp: "is_hex_ref (hex_encode (h p))" "is_hex_ref (hex_encode (h c))" using assms(8) [of p] assms(8) [of c] by auto
  show ?thesis
  proof (cases "crypto_identity_of stages = []")
    case True
    then have e: "si_exists_by_content (io_index io) (hex_encode (h p)) (int (length p)) [] i = Inr (Some cref)"
      using assms(4) by (simp add: dedup_probe_def)
    obtain b where b: "ibl i cref = Some b" "ib_content b = hex_encode (h p)" "ib_size b = int (length p)" "ib_crypto b = []"
      using idx.content_ok [OF assms(1) hp(1) e] by blast
    then obtain c' where c': "v (ib_path b) = Some c'" "cref = hex_encode (h c')"
        "\<exists>p'. build_get (io_transformers io) stages (c', None) = Inr (p', None) \<and> ib_content b = hex_encode (h p')"
      using assms(2,6) True unfolding sound_def blob_sound_def by blast
    then obtain p' where p': "build_get (io_transformers io) stages (c', None) = Inr (p', None)" "h p' = h p" using b(2) by auto
    then have "p' = p" using assms(3) b(1) c'(1) unfolding no_clash_def by blast
    moreover have "is_hex_ref cref" using c'(2) assms(8) [of c'] by auto
    then have "pa_path addr = ib_path b" using idx.resolve_ok [OF assms(1) _ assms(5)] b(1) by auto
    ultimately show ?thesis using b(1) c' p'(1) by blast
  next
    case False
    then have "cref = hex_encode (h c)" using assms(4) by (auto simp: dedup_probe_def split: sum.splits if_splits)
    then obtain b where b: "ibl i cref = Some b" "pa_path addr = ib_path b" using idx.resolve_ok [OF assms(1) _ assms(5)] hp(2) by blast
    then obtain c' where c': "v (ib_path b) = Some c'" "cref = hex_encode (h c')"
      using assms(2) unfolding sound_def blob_sound_def by blast
    then have "c' = c" using assms(3) \<open>cref = hex_encode (h c)\<close> by (simp add: no_clash_def)
    then show ?thesis using b c' assms(7) by blast
  qed
qed

lemma stream_to_target_spec:
  assumes inv: "dinv (w_drv s)" "iinv (w_idx s)" "is_uuid u"
    and so: "sound io keys cfg h (view (w_drv s)) (imf (w_idx s)) (ibl (w_idx s))"
    and H: "io_hashes io algo = Some h" "\<And>x. 2 \<le> length (h x)"
    and T: "stages_good (io_transformers io) (encode_ctx cfg kid) (cf_pipeline cfg)"
    and nc: "clash_free io cfg algo kid h (view (w_drv s)) (ibl (w_idx s)) p"
    and st: "stream_to_target io cfg algo kid u (p, None) s = (r, s')"
  shows "w_idx s' = w_idx s \<and> dinv (w_drv s')
    \<and> (\<forall>q \<in> indexed_paths (imf (w_idx s)) (ibl (w_idx s)). view (w_drv s') q = view (w_drv s) q)
    \<and> (\<forall>rs. r = Inr rs \<longrightarrow> rs_inline rs = None \<and> placed io cfg h (view (w_drv s')) p rs)"
proof -
  let ?st = "make_staging_path u" and ?v = "view (w_drv s)" and ?P = "indexed_paths (imf (w_idx s)) (ibl (w_idx s))"
  obtain c pp stages where c: "build_put (io_hashes io) (io_transformers io) algo (p, None) (cf_pipeline cfg) (encode_ctx cfg kid) = Inr ((c, None), pp)"
      "finalize pp = (hex_encode (h p), hex_encode (h c), stages)" "content_bytes_read pp = length p"
      "map ps_algorithm stages = cf_pipeline cfg" "build_get (io_transformers io) stages (c, None) = Inr (p, None)"
    using build_put_good [of "io_transformers io" "encode_ctx cfg kid" "cf_pipeline cfg" "io_hashes io" algo h p] T H(1) by blast
  have n: "no_clash (io_transformers io) h ?v (ibl (w_idx s)) p c" using nc c(1) unfolding clash_free_def by blast
  have nst: "q \<noteq> ?st" if "q \<in> ?P" for q using that staging_not_indexed [OF so, of u] by blast
  obtain x d where x: "d_put (io_drv io) (w_drv s) ?st (c, None) False = (x, d)" by fastforce
  have d: "dinv d" "\<And>q. q \<noteq> ?st \<Longrightarrow> view d q = ?v q"
    using drv.inv_keep(1) [OF inv(1), of ?st "(c, None)" False] drv.put_frame [OF inv(1) ok_staging [OF inv(3)], of _ "(c, None)" False] x by auto
  have wr: "wf_ref (hex_encode (h c))" using H(2) by blast
  show ?thesis
  proof (cases x)
    case (Inl e)
    then have "r = Inl e" "s' = s \<lparr> w_drv := d \<rparr>" using st c(1) x by (auto simp: stream_to_target_def Let_def)
    then show ?thesis using d nst by simp
  next
    case (Inr uu)
    have vd: "view d = ?v(?st \<mapsto> c)" using drv.put_ok [OF inv(1) ok_staging [OF inv(3)]] x Inr by fastforce
    let ?s1 = "s \<lparr> w_drv := d \<rparr>"
    obtain y s2 where y: "commit_blob io cfg ?st (hex_encode (h p)) (int (length p)) (hex_encode (h c)) (crypto_identity_of stages) ?s1 = (y, s2)"
      by fastforce
    show ?thesis
    proof (cases y)
      case (Inl e)
      then have "r = Inl e" "s' = s2" using st c x Inr y by (auto simp: stream_to_target_def Let_def)
      then show ?thesis using commit_blob_err [of ?s1 u "hex_encode (h c)"] y Inl d nst inv(3) wr by simp
    next
      case (Inr z)
      obtain cref addr where z: "z = (cref, addr)" by (cases z)
      then have r: "r = Inr \<lparr> rs_content_hash = hex_encode (h p), rs_blob_ref = cref, rs_original_size = int (length p), rs_stages = stages,
          rs_inline = None, rs_addr = addr \<rparr>" "s' = s2"
        using st c x \<open>x = Inr uu\<close> y Inr by (auto simp: stream_to_target_def Let_def)
      have d1: "dinv (w_drv ?s1)" and cb: "commit_blob io cfg ?st (hex_encode (h p)) (int (length p)) (hex_encode (h c))
          (crypto_identity_of stages) ?s1 = (Inr (cref, addr), s2)" using d(1) y Inr z by simp_all
      from commit_blob_ok [OF d1 inv(3) wr cb]
      have k: "w_idx s2 = w_idx s" "dinv (w_drv s2)"
        and alt: "dedup_probe io (hex_encode (h p)) (int (length p)) (hex_encode (h c)) (crypto_identity_of stages) (w_idx s) = Inr (Some cref)
             \<and> si_resolve (io_index io) cref (w_idx s) = Inr addr \<and> view (w_drv s2) = (view d)(?st := None)
           \<or> cref = hex_encode (h c) \<and> blob_path (cf_path_topology cfg) BlobTypeRegular (hex_encode (h c)) = Inr (pa_path addr)
             \<and> view (w_drv s2) = (view d)(?st := None, pa_path addr \<mapsto> c)"
        by (auto simp: vd)
      from alt have "(\<forall>q \<in> ?P. view (w_drv s2) q = ?v q) \<and> wf_ref cref
          \<and> blob_path (cf_path_topology cfg) BlobTypeRegular cref = Inr (pa_path addr)
          \<and> (\<exists>c'. view (w_drv s2) (pa_path addr) = Some c' \<and> cref = hex_encode (h c') \<and> build_get (io_transformers io) stages (c', None) = Inr (p, None))"
      proof (elim disjE conjE)
        assume a: "dedup_probe io (hex_encode (h p)) (int (length p)) (hex_encode (h c)) (crypto_identity_of stages) (w_idx s) = Inr (Some cref)"
          "si_resolve (io_index io) cref (w_idx s) = Inr addr" "view (w_drv s2) = (view d)(?st := None)"
        obtain b c' where b: "ibl (w_idx s) cref = Some b" "pa_path addr = ib_path b" "?v (ib_path b) = Some c'" "cref = hex_encode (h c')"
            "build_get (io_transformers io) stages (c', None) = Inr (p, None)"
          using dedup_hit [OF inv(2) so n a(1,2) c(4,5) H(2)] by blast
        have q: "view (w_drv s2) q = ?v q" if "q \<in> ?P" for q using nst [OF that] a(3) vd by simp
        moreover have "ib_path b \<in> ?P" using b(1) by blast
        moreover have "blob_path (cf_path_topology cfg) BlobTypeRegular cref = Inr (ib_path b)"
          using so b(1) unfolding sound_def blob_sound_def by blast
        ultimately show ?thesis using b H(2) by auto
      next
        assume a: "cref = hex_encode (h c)" "blob_path (cf_path_topology cfg) BlobTypeRegular (hex_encode (h c)) = Inr (pa_path addr)"
          "view (w_drv s2) = (view d)(?st := None, pa_path addr \<mapsto> c)"
        have "(view d)(?st := None, pa_path addr \<mapsto> c) = ?v(?st := None, pa_path addr \<mapsto> c)" by (auto simp: vd fun_eq_iff)
        then show ?thesis using rename_indexed [OF so wr n a(2)] a c(5) wr by auto
      qed
      then show ?thesis using k r c(4) by (simp add: placed_def)
    qed
  qed
qed

lemma materialize_spec:
  assumes inv: "dinv (w_drv s)" "iinv (w_idx s)" "is_uuid u"
    and so: "sound io keys cfg h (view (w_drv s)) (imf (w_idx s)) (ibl (w_idx s))"
    and H: "io_hashes io (hasher_name (cf_content_hasher cfg)) = Some h" "\<And>x. 2 \<le> length (h x)"
    and T: "stages_good (io_transformers io) (encode_ctx cfg kid) (cf_pipeline cfg)"
    and nc: "clash_free io cfg (hasher_name (cf_content_hasher cfg)) kid h (view (w_drv s)) (ibl (w_idx s)) p"
    and st: "materialize io cfg (p, None) kid u s = (r, s')"
  shows "w_idx s' = w_idx s \<and> dinv (w_drv s')
    \<and> (\<forall>q \<in> indexed_paths (imf (w_idx s)) (ibl (w_idx s)). view (w_drv s') q = view (w_drv s) q)
    \<and> (\<forall>rs. r = Inr rs \<longrightarrow> placed io cfg h (view (w_drv s')) p rs)"
proof (cases "cf_blob_storage cfg = StorageInline \<and> cf_inline_blob_limit cfg > 0 \<and> length p \<le> nat (cf_inline_blob_limit cfg)")
  case True
  then show ?thesis
    using st H(1) inv(1) by (auto simp: materialize_def materialize_inline_def new_hasher_def placed_def Let_def)
next
  case False
  then have "stream_to_target io cfg (hasher_name (cf_content_hasher cfg)) kid u (p, None) s = (r, s')"
    using st by (auto simp: materialize_def Let_def split: if_splits)
  from stream_to_target_spec [OF inv so H T nc this] show ?thesis by blast
qed

lemma persist_err:
  assumes inv: "dinv (w_drv s)" "iinv (w_idx s)" and so: "sound io keys cfg h (view (w_drv s)) (imf (w_idx s)) (ibl (w_idx s))"
    and m: "wf_ref (digest m)" "imf (w_idx s) (digest m) = None"
    and st: "persist_manifest io m fb addr now s = (Inl e, s')"
  shows "imf (w_idx s') = imf (w_idx s) \<and> ibl (w_idx s') = ibl (w_idx s) \<and> dinv (w_drv s') \<and> iinv (w_idx s')
    \<and> (\<forall>q \<in> indexed_paths (imf (w_idx s)) (ibl (w_idx s)). view (w_drv s') q = view (w_drv s) q)"
proof -
  obtain mp where mp: "manifest_path (digest m) = Inr mp" using manifest_path_wf [OF m(1)] by blast
  note np = manifest_not_indexed [OF so m mp]
  obtain x d where x: "d_put (io_drv io) (w_drv s) mp (fb, None) False = (x, d)" by fastforce
  have d: "dinv d" using drv.inv_keep(1) [OF inv(1), of mp "(fb, None)" False] x by simp
  have f: "view d q = view (w_drv s) q" if "q \<noteq> mp" for q
    using drv.put_frame [OF inv(1) ok_manifest [OF m(1) mp] that, of "(fb, None)" False] x by simp
  then have fr: "\<forall>q \<in> indexed_paths (imf (w_idx s)) (ibl (w_idx s)). view d q = view (w_drv s) q" using np by metis
  show ?thesis
  proof (cases x)
    case (Inl y)
    then have "s' = s \<lparr> w_drv := d \<rparr>" using st mp x by (simp add: persist_manifest_def)
    then show ?thesis using d fr inv by simp
  next
    case (Inr y)
    then obtain i where i: "si_index_manifest (io_index io) m addr now (w_idx s) = (Inl e, i)" "s' = s \<lparr> w_drv := d, w_idx := i \<rparr>"
      using st mp x by (auto simp: persist_manifest_def split: prod.splits)
    have "iinv i" using idx.iinv_keep(1) [OF inv(2), of m addr now] i(1) by simp
    then show ?thesis using idx.index_err [OF inv(2) i(1)] i(2) d fr by simp
  qed
qed

lemma persist_ok:
  assumes inv: "dinv (w_drv s)" "iinv (w_idx s)" and so: "sound io keys cfg h (view (w_drv s)) (imf (w_idx s)) (ibl (w_idx s))"
    and m: "wf_ref (digest m)" "imf (w_idx s) (digest m) = None" and ix: "indexable m"
    and st: "persist_manifest io m fb addr now s = (Inr u, s')"
  shows "\<exists>mp n. manifest_path (digest m) = Inr mp \<and> mp \<notin> indexed_paths (imf (w_idx s)) (ibl (w_idx s))
    \<and> view (w_drv s') = (view (w_drv s))(mp \<mapsto> fb) \<and> dinv (w_drv s') \<and> iinv (w_idx s')
    \<and> imf (w_idx s') = spec_index_rows m n (imf (w_idx s)) \<and> ibl (w_idx s') = spec_index_blobs m (pa_path addr) (ibl (w_idx s))"
proof -
  obtain mp where mp: "manifest_path (digest m) = Inr mp" using manifest_path_wf [OF m(1)] by blast
  note np = manifest_not_indexed [OF so m mp]
  obtain x d i where x: "d_put (io_drv io) (w_drv s) mp (fb, None) False = (Inr x, d)"
      "si_index_manifest (io_index io) m addr now (w_idx s) = (Inr u, i)" "s' = s \<lparr> w_drv := d, w_idx := i \<rparr>"
    using st mp by (auto simp: persist_manifest_def split: prod.splits sum.splits)
  have "dinv d" "iinv i" using drv.inv_keep(1) [OF inv(1), of mp "(fb, None)" False] idx.iinv_keep(1) [OF inv(2), of m addr now] x by simp_all
  moreover have "view d = (view (w_drv s))(mp \<mapsto> fb)" using drv.put_ok [OF inv(1) ok_manifest [OF m(1) mp] x(1)] by simp
  moreover have "(\<exists>n. imf i = spec_index_rows m n (imf (w_idx s))) \<and> ibl i = spec_index_blobs m (pa_path addr) (ibl (w_idx s))"
    using idx.index_ok [OF inv(2) ix _ x(2)] m(2) by auto
  ultimately show ?thesis using mp np x(3) by auto
qed

lemma write_spec:
  assumes inv: "dinv (w_drv s)" "iinv (w_idx s)" "is_uuid u"
    and so: "sound io keys cfg h (view (w_drv s)) (imf (w_idx s)) (ibl (w_idx s))"
    and H: "io_hashes io (hasher_name (cf_content_hasher cfg)) = Some h" "\<And>x. 2 \<le> length (h x)"
    and T: "stages_good (io_transformers io) (encode_ctx cfg kid) (cf_pipeline cfg)" "plain_blind (io_transformers io) (cf_pipeline cfg)"
    and nc: "clash_free io cfg (hasher_name (cf_content_hasher cfg)) kid h (view (w_drv s)) (ibl (w_idx s)) p"
    and env: "manifest_env io cfg (dr_seal w) keys dek kid compact" "compact (ar_ext a)" "compact (ar_usr a)"
    and mt: "materialize io cfg (p, None) kid u s = (Inr rs, s1)"
    and as: "assemble_manifest io cfg w a opts rs dek kid = Inr (m, fb)" "fresh_manifest (imf (w_idx s)) m fb"
    and pe: "persist_manifest io m fb (rs_addr rs) now s1 = (r, s2)"
  shows "dinv (w_drv s2) \<and> iinv (w_idx s2) \<and> sound io keys cfg h (view (w_drv s2)) (imf (w_idx s2)) (ibl (w_idx s2))
    \<and> (\<forall>a' q. holds io keys (hasher_name (cf_content_hasher cfg)) (view (w_drv s2)) (imf (w_idx s2)) (ibl (w_idx s2)) a' q
        \<longleftrightarrow> holds io keys (hasher_name (cf_content_hasher cfg)) (view (w_drv s)) (imf (w_idx s)) (ibl (w_idx s)) a' q
            \<or> r = Inr () \<and> a' = artifact_id m \<and> q = p)"
proof -
  let ?algo = "hasher_name (cf_content_hasher cfg)" and ?P = "indexed_paths (imf (w_idx s)) (ibl (w_idx s))"
  have m1: "w_idx s1 = w_idx s" "dinv (w_drv s1)" "\<And>q. q \<in> ?P \<Longrightarrow> view (w_drv s1) q = view (w_drv s) q"
      "placed io cfg h (view (w_drv s1)) p rs"
    using materialize_spec [OF inv so H T(1) nc mt] by blast+
  note d = assemble_describes [OF as(1) m1(4) H]
  have so1: "sound io keys cfg h (view (w_drv s1)) (imf (w_idx s1)) (ibl (w_idx s1))"
    using sound_frame [OF so m1(3)] m1(1) by simp
  have hs1: "holds io keys ?algo (view (w_drv s1)) (imf (w_idx s)) (ibl (w_idx s)) = holds io keys ?algo (view (w_drv s)) (imf (w_idx s)) (ibl (w_idx s))"
    by (intro ext holds_frame m1(3))
  have i1: "iinv (w_idx s1)" and f: "imf (w_idx s1) (digest m) = None" using inv(2) m1(1) as(2) by (simp_all add: fresh_manifest_def)
  show ?thesis
  proof (cases r)
    case (Inl e)
    then have "persist_manifest io m fb (rs_addr rs) now s1 = (Inl e, s2)" using pe by simp
    from persist_err [OF m1(2) i1 so1 d(4) f this]
    have k: "imf (w_idx s2) = imf (w_idx s)" "ibl (w_idx s2) = ibl (w_idx s)" "dinv (w_drv s2)" "iinv (w_idx s2)"
      and fr: "\<And>q. q \<in> ?P \<Longrightarrow> view (w_drv s2) q = view (w_drv s) q" using m1(1,3) by auto
    have "holds io keys ?algo (view (w_drv s2)) (imf (w_idx s)) (ibl (w_idx s)) = holds io keys ?algo (view (w_drv s)) (imf (w_idx s)) (ibl (w_idx s))"
      by (intro ext holds_frame fr)
    then show ?thesis using k sound_frame [OF so fr] Inl by simp
  next
    case (Inr x)
    then have "persist_manifest io m fb (rs_addr rs) now s1 = (Inr x, s2)" using pe by simp
    from persist_ok [OF m1(2) i1 so1 d(4) f d(3) this]
    obtain mp n where k: "manifest_path (digest m) = Inr mp" "mp \<notin> ?P" "view (w_drv s2) = (view (w_drv s1))(mp \<mapsto> fb)"
        "dinv (w_drv s2)" "iinv (w_idx s2)" "imf (w_idx s2) = spec_index_rows m n (imf (w_idx s))"
        "ibl (w_idx s2) = spec_index_blobs m (pa_path (rs_addr rs)) (ibl (w_idx s))"
      using m1(1) by auto
    have fr: "view (w_drv s2) q = view (w_drv s) q" if "q \<in> ?P" for q using k(2,3) that m1(3) by auto
    have so2: "sound io keys cfg h (view (w_drv s2)) (imf (w_idx s)) (ibl (w_idx s))" by (rule sound_frame [OF so fr])
    have hs: "holds io keys ?algo (view (w_drv s2)) (imf (w_idx s)) (ibl (w_idx s)) = holds io keys ?algo (view (w_drv s)) (imf (w_idx s)) (ibl (w_idx s))"
      by (intro ext holds_frame fr)
    have pl: "placed io cfg h (view (w_drv s2)) p rs" using placed_manifest [OF m1(4) k(1)] k(3) by simp
    have st: "stored_as io keys ?algo (view (w_drv s2)) (digest m) (persisted m)"
      using assemble_stored [OF as(1) env _ _ H(1) k(1)] as(2) k(3) by (simp add: fresh_manifest_def)
    have new: "imf (w_idx s) (digest m) = None" "\<And>dg r. imf (w_idx s) dg = Some r \<Longrightarrow> im_aid r \<noteq> Some (artifact_id m)"
      using as(2) by (auto simp: fresh_manifest_def)
    note reg = sound_register [OF so2 d(1) pl T(2) H(1) st d(4) new d(2)]
    show ?thesis unfolding k(6,7) using k(4,5) reg hs Inr by simp
  qed
qed

subsubsection \<open>Reading\<close>

lemma load_ok:
  assumes inv: "dinv (w_drv s)" "iinv (w_idx s)"
    and so: "sound io keys cfg h (view (w_drv s)) (imf (w_idx s)) (ibl (w_idx s))"
    and ld: "cas_load io s i keys (hasher_name (cf_content_hasher cfg)) = Inr m"
  shows "\<exists>p r. imf (w_idx s) (digest m) = Some r \<and> im_aid r = Some i \<and> artifact_id m = i \<and> i \<noteq> [] \<and> wf_ref (digest m)
    \<and> im_refs r = indexed_refs m
    \<and> holds io keys (hasher_name (cf_content_hasher cfg)) (view (w_drv s)) (imf (w_idx s)) (ibl (w_idx s)) i p
    \<and> claims (io_hashes io) (hasher_name (cf_content_hasher cfg)) m p \<and> reads_as io (view (w_drv s)) (ibl (w_idx s)) m p"
proof -
  let ?algo = "hasher_name (cf_content_hasher cfg)"
  obtain dg m1 where dg: "i \<noteq> []" "si_resolve_manifest_digest (io_index io) i (w_idx s) = Inr (Some dg)"
      "load_manifest_by_digest io (w_drv s) dg keys ?algo = Inr m1" "m = m1 \<lparr> artifact_id := i \<rparr>"
    using ld by (auto simp: cas_load_def split: if_splits sum.splits option.splits)
  obtain r where r: "imf (w_idx s) dg = Some r" "im_aid r = Some i" using idx.lookup_ok [OF inv(2) dg(2)] by blast
  have w: "wf_ref dg" using so r unfolding sound_def by blast
  obtain q body where q: "manifest_path dg = Inr q" "d_get (io_drv io) (w_drv s) q = Inr body"
    using dg(3) by (auto simp: load_manifest_by_digest_def split: sum.splits)
  then have "\<not> stale (view (w_drv s)) dg" using drv.get_ok [OF inv(1) ok_manifest [OF w q(1)] q(2)] unfolding stale_def by auto
  then obtain p where p: "artifact_row io keys ?algo (view (w_drv s)) (ibl (w_idx s)) dg r p"
    using so r unfolding sound_def by blast
  then obtain m0 where m0: "stored_as io keys ?algo (view (w_drv s)) dg m0" "im_aid r = Some (artifact_id m0)" "im_refs r = indexed_refs m0"
      "claims (io_hashes io) ?algo m0 p" "reads_as io (view (w_drv s)) (ibl (w_idx s)) m0 p"
    unfolding artifact_row_def by blast
  obtain mp fb where mp: "manifest_path dg = Inr mp" "view (w_drv s) mp = Some fb" "length fb \<le> max_manifest_size"
      "decode_encrypted (io_json io) (io_cipher io) fb keys = Inr m0"
    using m0(1) unfolding stored_as_def by blast
  have b: "d_get (io_drv io) (w_drv s) mp = Inr body" using q mp(1) by simp
  then have "body = fb" using drv.get_ok [OF inv(1) ok_manifest [OF w mp(1)] b] mp(2) by simp
  then have "m1 = m0 \<lparr> digest := dg \<rparr>"
    using dg(3) mp b by (auto simp: load_manifest_by_digest_def Let_def split: if_splits sum.splits)
  then have m: "m = m0 \<lparr> digest := dg, artifact_id := i \<rparr>" "artifact_id m0 = i" using dg(4) m0(2) r(2) by simp_all
  have "claims (io_hashes io) ?algo m p" "reads_as io (view (w_drv s)) (ibl (w_idx s)) m p" "indexed_refs m = indexed_refs m0"
    using m0(4,5) unfolding m(1) by (simp_all add: claims_def indexed_refs_def)
  moreover have "holds io keys ?algo (view (w_drv s)) (imf (w_idx s)) (ibl (w_idx s)) i p"
    using r p unfolding holds_def by blast
  ultimately show ?thesis using r m dg(1) w m0(3) by auto
qed

lemma open_handle_total:
  assumes inv: "dinv (w_drv s)" "iinv (w_idx s)"
    and so: "sound io keys cfg h (view (w_drv s)) (imf (w_idx s)) (ibl (w_idx s))"
    and rd: "reads_as io (view (w_drv s)) (ibl (w_idx s)) m p" and op: "open_handle io (w_idx s) m = Inr rh"
  shows "handle_manifest rh = m" and "snd (handle_total io (w_drv s) rh) = ErrEOF \<Longrightarrow> fst (handle_total io (w_drv s) rh) = p"
    and "(\<And>q. ok q \<Longrightarrow> d_get (io_drv io) (w_drv s) q = (case view (w_drv s) q of Some b \<Rightarrow> Inr b | None \<Rightarrow> Inl ErrNotExist)) \<Longrightarrow>
      handle_total io (w_drv s) rh = (p, ErrEOF)"
proof -
  have "handle_manifest rh = m \<and> (snd (handle_total io (w_drv s) rh) = ErrEOF \<longrightarrow> fst (handle_total io (w_drv s) rh) = p)
    \<and> ((\<forall>q. ok q \<longrightarrow> d_get (io_drv io) (w_drv s) q = (case view (w_drv s) q of Some b \<Rightarrow> Inr b | None \<Rightarrow> Inl ErrNotExist)) \<longrightarrow>
      handle_total io (w_drv s) rh = (p, ErrEOF))"
  proof (cases "blob_storage m = layout_inline")
    case True
    then show ?thesis using op rd by (auto simp: open_handle_def new_inline_handle_def reads_as_def)
  next
    case False
    then obtain b c where b: "blob_storage m = layout_target" "ibl (w_idx s) (primary_blob_ref m) = Some b" "view (w_drv s) (ib_path b) = Some c"
        "build_get (io_transformers io) (pipeline m) (c, None) = Inr (p, None)"
      using rd unfolding reads_as_def by auto
    have bs: "wf_ref (primary_blob_ref m)" "blob_path (cf_path_topology cfg) BlobTypeRegular (primary_blob_ref m) = Inr (ib_path b)"
      using so b(2) unfolding sound_def blob_sound_def by blast+
    note okp = ok_blob [OF bs]
    obtain ad where ad: "si_resolve (io_index io) (primary_blob_ref m) (w_idx s) = Inr ad" "rh = TargetHandle m (pa_path ad) None False"
      using op False b(1) by (auto simp: open_handle_def split: sum.splits)
    have path: "pa_path ad = ib_path b" using idx.resolve_ok [OF inv(2) idx.ibl_key [OF inv(2) b(2)] ad(1)] b(2) by simp
    show ?thesis
    proof (cases "d_get (io_drv io) (w_drv s) (ib_path b)")
      case (Inl e)
      then have "e \<noteq> ErrEOF" using get_no_eof [OF inv(1) okp] by auto
      then show ?thesis using ad(2) path Inl okp b(3) by (auto simp: open_target_def)
    next
      case (Inr c')
      then have "c' = c" using drv.get_ok [OF inv(1) okp Inr] b(3) by simp
      then show ?thesis using ad(2) path Inr b(4) by (simp add: open_target_def)
    qed
  qed
  then show "handle_manifest rh = m" "snd (handle_total io (w_drv s) rh) = ErrEOF \<Longrightarrow> fst (handle_total io (w_drv s) rh) = p"
    "(\<And>q. ok q \<Longrightarrow> d_get (io_drv io) (w_drv s) q = (case view (w_drv s) q of Some b \<Rightarrow> Inr b | None \<Rightarrow> Inl ErrNotExist)) \<Longrightarrow>
      handle_total io (w_drv s) rh = (p, ErrEOF)" by blast+
qed

lemma delete_row_spec:
  assumes inv: "iinv i" and so: "sound io keys cfg h v (imf i) (ibl i)" and mp: "manifest_path dg = Inr mp" "wf_ref dg"
    and r: "imf i dg = Some r" "im_aid r = Some a" and st: "si_delete_manifest (io_index io) dg i = (x, i')"
  shows "iinv i' \<and> sound io keys cfg h (v(mp := None)) (imf i') (ibl i')
    \<and> (\<forall>a' q. holds io keys (hasher_name (cf_content_hasher cfg)) (v(mp := None)) (imf i') (ibl i') a' q
        \<longleftrightarrow> holds io keys (hasher_name (cf_content_hasher cfg)) v (imf i) (ibl i) a' q \<and> a' \<noteq> a)"
proof -
  note sr = sound_remove [OF so mp]
  have k: "iinv i'" using idx.iinv_keep(2) [OF inv, of dg] st by simp
  show ?thesis
  proof (cases x)
    case (Inl e)
    then show ?thesis using idx.delete_err [OF inv, of dg e i'] st k sr(1) sr(3) [OF r] by simp
  next
    case (Inr u)
    have hx: "is_hex_ref dg" using idx.imf_key [OF inv r(1)] .
    have b: "imf i' = (imf i)(dg := None)" "ibl i' = spec_delete_blobs (im_refs r) (ibl i)"
      using idx.delete_ok [OF inv hx, of u i'] st Inr r(1) by simp_all
    have "\<exists>f. \<forall>k. ibl i' k = map_option (\<lambda>b. b \<lparr> ib_refs := f k b \<rparr>) (ibl i k)"
      by (intro exI [of _ "\<lambda>k b. max 0 (ib_refs b - int (count_list (im_refs r) k))"]) (simp add: b(2) spec_delete_blobs_def)
    then obtain f where f: "\<And>k. ibl i' k = map_option (\<lambda>b. b \<lparr> ib_refs := f k b \<rparr>) (ibl i k)" by blast
    show ?thesis unfolding counts_blind [OF f] b(1) using k sr(2) sr(4) [OF r] by blast
  qed
qed

end

end
