(* ===== verification/Cas_Local.thy ===== *)
theory Cas_Local
  imports Cas_Sound Sqlite_Index
begin

text \<open>The content layer over the local filesystem driver and the SQLite index: the paths it uses are clean, so the
  laws of the two providers give it the contract of the content layer.\<close>

definition local_io :: "hash_registry \<Rightarrow> transformer_registry \<Rightarrow> json_codec \<Rightarrow> cipher \<Rightarrow> (localfs, index_state) cas_io" where
  "local_io H T J C = \<lparr> io_drv = localfs_driver, io_index = sqlite_index, io_hashes = H, io_transformers = T, io_json = J, io_cipher = C \<rparr>"

lemma local_io_simps [simp]:
  "io_drv (local_io H T J C) = localfs_driver" "io_index (local_io H T J C) = sqlite_index" "io_hashes (local_io H T J C) = H"
  "io_transformers (local_io H T J C) = T" "io_json (local_io H T J C) = J" "io_cipher (local_io H T J C) = C"
  by (simp_all add: local_io_def)

lemma base_name_join: "es \<noteq> [] \<Longrightarrow> list_all (\<lambda>e. CHR ''/'' \<notin> set e) es \<Longrightarrow> base_name (join CHR ''/'' es) = last es"
proof (induction es)
  case (Cons e es)
  then show ?case by (cases es) (simp_all add: base_name_leaf)
qed simp

lemma clean_join:
  assumes "es \<noteq> []" "list_all (\<lambda>e. CHR ''/'' \<notin> set e \<and> e \<noteq> [] \<and> e \<noteq> ''.'' \<and> e \<noteq> ''..'') es" "hd (last es) \<noteq> CHR ''.''"
  shows "clean_path (join CHR ''/'' es)"
proof -
  have ns: "list_all (\<lambda>e. CHR ''/'' \<notin> set e) es" and g: "list_all (\<lambda>e. e \<noteq> [] \<and> e \<noteq> ''.'' \<and> e \<noteq> ''..'') es"
    using assms(2) by (auto simp: list_all_iff)
  have "last es \<noteq> []" using assms(1) g by (simp add: list_all_iff)
  then have "\<not> has_prefix (last es @ tombstone_suffix) ''.''" using assms(3) by (cases "last es") (auto simp: has_prefix_def)
  then have "\<not> is_temp (base_name (tombstone_of (join CHR ''/'' es)))"
    unfolding tombstone_of_def base_name_suffix [OF tombstone_no_sep] base_name_join [OF assms(1) ns] is_temp_def by blast
  then show ?thesis using g split_join [OF assms(1) ns] by (simp add: clean_path_def)
qed

lemma wf_ref_elems:
  assumes "wf_ref r"
  shows "list_all (\<lambda>e. CHR ''/'' \<notin> set e \<and> e \<noteq> [] \<and> e \<noteq> ''.'' \<and> e \<noteq> ''..'') [take 2 r, take 2 (drop 2 r), r]" "hd r \<noteq> CHR ''.''"
proof -
  note f = wf_ref_facts [OF assms]
  have "set (take 2 r) \<subseteq> set r" "set (take 2 (drop 2 r)) \<subseteq> set r" by (meson set_take_subset set_drop_subset subset_trans)+
  moreover have "take 2 r \<noteq> []" "take 2 (drop 2 r) \<noteq> []" using f by auto
  ultimately show "list_all (\<lambda>e. CHR ''/'' \<notin> set e \<and> e \<noteq> [] \<and> e \<noteq> ''.'' \<and> e \<noteq> ''..'') [take 2 r, take 2 (drop 2 r), r]"
    using f by (auto simp: subset_iff)
  show "hd r \<noteq> CHR ''.''" using f(1,3) by (metis hd_in_set)
qed

lemma clean_manifest_path:
  assumes "wf_ref dg" "manifest_path dg = Inr q"
  shows "clean_path q"
proof -
  have "q = join CHR ''/'' [''manifests'', take 2 dg, take 2 (drop 2 dg), dg]"
    using assms(2) wf_ref_facts [OF assms(1)] by (simp add: manifest_path_def shard_of_wf [OF assms(1)])
  then show ?thesis using clean_join [of "[''manifests'', take 2 dg, take 2 (drop 2 dg), dg]"] wf_ref_elems [OF assms(1)] by simp
qed

lemma clean_blob_path:
  assumes "wf_ref r" "blob_path tp BlobTypeRegular r = Inr q"
  shows "clean_path q"
proof -
  have "q = join CHR ''/'' [''blobs'', r] \<or> q = join CHR ''/'' [''blobs'', take 2 r, take 2 (drop 2 r), r]"
    using assms(2) wf_ref_facts [OF assms(1)]
    by (auto simp: blob_path_def root_for_def shard_of_wf [OF assms(1)] split: path_topology.splits)
  then show ?thesis
    using clean_join [of "[''blobs'', r]"] clean_join [of "[''blobs'', take 2 r, take 2 (drop 2 r), r]"] wf_ref_elems [OF assms(1)] by auto
qed

lemma clean_staging_path:
  assumes "is_uuid u"
  shows "clean_path (make_staging_path u)"
proof -
  have c: "c \<noteq> CHR ''/'' \<and> c \<noteq> CHR ''.''" if "c \<in> set u" for c
    using assms that by (auto simp: is_uuid_def list_all_iff)
  then have "u \<noteq> []" "CHR ''/'' \<notin> set u" "CHR ''.'' \<notin> set u" using assms by (auto simp: is_uuid_def)
  moreover have "make_staging_path u = join CHR ''/'' [''.staging'', u]" by (simp add: make_staging_path_def staging_prefix_def)
  moreover have "hd u \<noteq> CHR ''.''" using \<open>u \<noteq> []\<close> c by (metis hd_in_set)
  moreover have "u \<noteq> ''.''" "u \<noteq> ''..''" using c by auto
  ultimately show ?thesis using clean_join [of "[''.staging'', u]"] by simp
qed

lemma lfs_get_no_eof: "lfs_inv d \<Longrightarrow> clean_path q \<Longrightarrow> lfs_get d q \<noteq> Inl ErrEOF"
proof -
  have "fault_err f \<noteq> ErrEOF" for f by (cases f) (simp_all add: fault_err_def)
  then show "lfs_inv d \<Longrightarrow> clean_path q \<Longrightarrow> lfs_get d q \<noteq> Inl ErrEOF"
    using lfs_get_cases [of d q] by (auto simp: lfs_inv_def split: option.splits)
qed

interpretation lst: cas_world "local_io H T J C" lfs_view clean_path lfs_inv sq_manifests sq_blobs index_wf
  for H T J C
  unfolding cas_world_def cas_world_axioms_def local_io_simps localfs_driver_simps
  using lfs.driver_laws_axioms sqx.index_laws_axioms clean_staging_path clean_blob_path clean_manifest_path lfs_get_no_eof by blast

end
