(* ===== verification/Store.thy ===== *)
theory Store
  imports Cas_Local
begin

text \<open>
  The store (\<^verbatim>\<open>engine/store\<close>): the entry gates (\<^verbatim>\<open>access.go\<close>), the size guard (\<^verbatim>\<open>put_limit.go\<close>), the data
  plane \<^verbatim>\<open>Put\<close>, \<^verbatim>\<open>Get\<close>, \<^verbatim>\<open>Delete\<close>, \<^verbatim>\<open>RollbackSession\<close>, \<^verbatim>\<open>Verify\<close> and its variants, \<^verbatim>\<open>Walk\<close>, the headless
  writes and \<^verbatim>\<open>IngestManifest\<close>, and the maintenance mode with the liveness sentinel.

  \<open>store\<close> is the struct of the same name: its state machine, configurations, crypto material, the layer below and
  the events it has published.  A context is the error it reports when consulted; a clock reading is an argument.
  \<open>abs_store\<close> is what the store promises: the artifacts it holds, as pairs of identifier and payload.
\<close>

datatype store_state = StateBootstrapping | StateLocked | StateUnlocked | StateDegraded | StateCorrupted

datatype maintenance_mode = MaintNone | MaintReadOnly | MaintOffline

datatype store_event =
    EvManifestSaved manifest
  | EvArtifactDeleted string
  | EvScrubFailed string err
  | EvRollbackCompleted string nat
  | EvStoreDegraded
  | EvStoreRecovered

record key_resolver =
  kr_get_keys :: key_provider
  kr_write_key :: string

record crypto_state =
  cr_dek :: bytes
  cr_resolver :: "key_resolver option"

record ('d, 'i) store =
  st_id :: string
  st_io :: "('d, 'i) cas_io"
  st_world :: "('d, 'i) world"
  st_native_checksum :: bool
  st_active :: store_config
  st_overlay :: store_config
  st_state :: store_state
  st_closed :: bool
  st_maint :: maintenance_mode
  st_by_sentinel :: bool
  st_substituted :: bool
  st_crypto :: crypto_state
  st_events :: "store_event list"

definition publish :: "store_event \<Rightarrow> ('d, 'i) store \<Rightarrow> ('d, 'i) store" where
  "publish e s = s \<lparr> st_events := st_events s @ [e] \<rparr>"

subsection \<open>Gates\<close>

definition check_operational :: "('d, 'i) store \<Rightarrow> err option" where
  "check_operational s =
     (if st_closed s then Some ErrClosed
      else if st_state s = StateCorrupted then Some ErrStoreCorrupted
      else if st_maint s = MaintOffline then Some ErrStoreOffline
      else if st_state s = StateBootstrapping then Some ErrStoreNotReady
      else if st_state s = StateLocked then Some ErrLocked
      else None)"

definition check_writable :: "('d, 'i) store \<Rightarrow> err option" where
  "check_writable s =
     (case check_operational s of
        Some e \<Rightarrow> Some e
      | None \<Rightarrow> if st_maint s = MaintReadOnly then Some ErrStoreReadOnly else None)"

definition enter_read :: "err option \<Rightarrow> ('d, 'i) store \<Rightarrow> err option" where
  "enter_read ctx s = (case ctx of Some e \<Rightarrow> Some e | None \<Rightarrow> check_operational s)"

definition enter_write :: "err option \<Rightarrow> ('d, 'i) store \<Rightarrow> err option" where
  "enter_write ctx s = (case ctx of Some e \<Rightarrow> Some e | None \<Rightarrow> check_writable s)"

definition enter_admin :: "err option \<Rightarrow> ('d, 'i) store \<Rightarrow> err option" where
  "enter_admin ctx s =
     (case ctx of
        Some e \<Rightarrow> Some e
      | None \<Rightarrow>
          if st_closed s then Some ErrClosed
          else if st_state s = StateCorrupted then Some ErrStoreCorrupted
          else if st_maint s = MaintOffline then Some ErrStoreOffline
          else if st_state s = StateBootstrapping then Some ErrStoreNotReady
          else None)"

definition set_maintenance_mode :: "err option \<Rightarrow> maintenance_mode \<Rightarrow> ('d, 'i) store \<Rightarrow> unit res \<times> ('d, 'i) store" where
  "set_maintenance_mode ctx mode s =
     (case ctx of Some e \<Rightarrow> (Inl e, s) | None \<Rightarrow> (Inr (), s \<lparr> st_maint := mode \<rparr>))"

definition session_config :: "('d, 'i) store \<Rightarrow> store_config" where
  "session_config s = merge_session (st_active s) (st_overlay s)"

subsection \<open>Crypto material\<close>

definition dek_for_write :: "crypto_state \<Rightarrow> bytes res" where
  "dek_for_write c =
     (if cr_dek c = [] then Inl ErrLocked
      else if cr_resolver c = None then Inl (ErrMsg ''requires WithKeyResolver'')
      else Inr (cr_dek c))"

definition crypto_key_provider :: "crypto_state \<Rightarrow> key_provider option" where
  "crypto_key_provider c = map_option kr_get_keys (cr_resolver c)"

definition static_key_resolver :: "bytes \<Rightarrow> key_resolver" where
  "static_key_resolver dek = \<lparr> kr_get_keys = static_get_keys (Some dek), kr_write_key = [] \<rparr>"

definition promote_resolver_if_default :: "crypto_state \<Rightarrow> crypto_state" where
  "promote_resolver_if_default c =
     (if cr_resolver c \<noteq> None then c else if cr_dek c = [] then c
      else c \<lparr> cr_resolver := Some (static_key_resolver (cr_dek c)) \<rparr>)"

definition close_secrets :: "crypto_state \<Rightarrow> crypto_state" where
  "close_secrets c = c \<lparr> cr_dek := [] \<rparr>"

definition with_write_dek :: "('d, 'i) store \<Rightarrow> store_config \<Rightarrow> bytes res" where
  "with_write_dek s cfg =
     (if is_plain (cf_manifest_crypto cfg) then Inr [] else dek_for_write (st_crypto s))"

definition resolve_write_key_id :: "('d, 'i) store \<Rightarrow> string" where
  "resolve_write_key_id s = (case cr_resolver (st_crypto s) of None \<Rightarrow> [] | Some r \<Rightarrow> kr_write_key r)"

definition close_store :: "('d, 'i) store \<Rightarrow> unit res \<times> ('d, 'i) store" where
  "close_store s = (if st_closed s then (Inr (), s)
     else (Inr (), s \<lparr> st_closed := True, st_crypto := close_secrets (st_crypto s) \<rparr>))"

subsection \<open>The size guard\<close>

text \<open>The remaining budget is a signed 64-bit integer: one more than the largest is the smallest.  A slice
  bound below zero panics.\<close>

record limit_guard =
  lg_src :: reader
  lg_left :: int
  lg_limit :: int

definition wrap64 :: "int \<Rightarrow> int" where
  "wrap64 x = (x + 2 ^ 63) mod 2 ^ 64 - 2 ^ 63"

definition new_limit_guard :: "reader \<Rightarrow> int \<Rightarrow> limit_guard" where
  "new_limit_guard r limit = \<lparr> lg_src = r, lg_left = limit, lg_limit = limit \<rparr>"

definition panic :: err where "panic = ErrMsg ''panic''"

definition limit_read :: "limit_guard \<Rightarrow> nat \<Rightarrow> (bytes \<times> err option) \<times> limit_guard" where
  "limit_read g n =
     (if lg_left g < 0 then (([], Some ErrArtifactTooLarge), g)
      else let mx = wrap64 (lg_left g + 1); k = (if int n > mx then mx else int n) in
        if k < 0 then (([], Some panic), g)
        else case read_stream (nat k) (lg_src g) of
          ((b, e), src) \<Rightarrow>
            let left = lg_left g - int (length b); g' = g \<lparr> lg_src := src, lg_left := left \<rparr> in
            if left < 0 then ((b, Some ErrArtifactTooLarge), g') else ((b, e), g'))"

definition limited :: "int \<Rightarrow> reader \<Rightarrow> reader" where
  "limited limit r = stream_of limit_read (new_limit_guard r limit) (length (fst r) + 2)"

definition guarded_payload :: "store_config \<Rightarrow> reader \<Rightarrow> reader" where
  "guarded_payload cfg r = (if cf_max_artifact_size cfg > 0 then limited (cf_max_artifact_size cfg) r else r)"

subsection \<open>Writing\<close>

definition validate_put_inputs :: "artifact \<Rightarrow> put_options \<Rightarrow> err option" where
  "validate_put_inputs a opts =
     (if ar_payload a = None then Some (ErrMsg ''nil Payload'')
      else if length (po_session_id opts) > max_session_id_len then Some ErrSessionIDTooLong
      else if length (ar_ext a) > max_ext_size then Some ErrExtTooLarge
      else if length (ar_usr a) > max_usr_size then Some ErrUsrTooLarge
      else None)"

definition check_put_supported :: "('d, 'i) cas_io \<Rightarrow> store_config \<Rightarrow> put_options \<Rightarrow> err option" where
  "check_put_supported io cfg opts =
     (case validate_algos (io_transformers io) (cf_pipeline cfg) of
        Some e \<Rightarrow> Some e
      | None \<Rightarrow>
          if po_blob_type opts \<noteq> BlobTypeUnset \<and> po_blob_type opts \<noteq> BlobTypeRegular then Some (ErrMsg ''BlobType not supported'')
          else if cf_blob_storage cfg = StorageInline \<and> cf_inline_blob_limit cfg > 0 \<and> cf_pipeline cfg \<noteq> []
            then Some (ErrMsg ''Pipeline transforms on Inline blobs are not supported'')
          else None)"

definition put :: "err option \<Rightarrow> draws \<Rightarrow> artifact \<Rightarrow> put_options \<Rightarrow> ('d, 'i) store \<Rightarrow> string res \<times> ('d, 'i) store" where
  "put ctx w a0 opts s =
     (case enter_write ctx s of
        Some e \<Rightarrow> (Inl e, s)
      | None \<Rightarrow>
     let cfg = session_config s;
         a = a0 \<lparr> ar_payload := map_option (guarded_payload cfg) (ar_payload a0) \<rparr> in
     case validate_put_inputs a opts of
        Some e \<Rightarrow> (Inl e, s)
      | None \<Rightarrow>
     (case check_put_supported (st_io s) cfg opts of
        Some e \<Rightarrow> (Inl e, s)
      | None \<Rightarrow>
     let kid = resolve_write_key_id s in
     case materialize (st_io s) cfg (the (ar_payload a)) kid (dr_uuid w) (st_world s) of
        (Inl e, w1) \<Rightarrow> (Inl e, s \<lparr> st_world := w1 \<rparr>)
      | (Inr blob, w1) \<Rightarrow>
     (case (case with_write_dek s cfg of
              Inl e \<Rightarrow> Inl e
            | Inr dek \<Rightarrow> assemble_manifest (st_io s) cfg w a opts blob dek kid) of
        Inl e \<Rightarrow> (Inl e, s \<lparr> st_world := w1 \<rparr>)
      | Inr (m, fb) \<Rightarrow>
     (case persist_manifest (st_io s) m fb (rs_addr blob) (dr_now w) w1 of
        (Inl e, w2) \<Rightarrow> (Inl e, s \<lparr> st_world := w2 \<rparr>)
      | (Inr _, w2) \<Rightarrow> (Inr (artifact_id m), publish (EvManifestSaved m) (s \<lparr> st_world := w2 \<rparr>))))))"

definition store_write_headless :: "draws \<Rightarrow> reader \<Rightarrow> ('d, 'i) store \<Rightarrow> string res \<times> ('d, 'i) store" where
  "store_write_headless w input s = (let cfg = session_config s; r = guarded_payload cfg input; kid = resolve_write_key_id s in
     case with_write_dek s cfg of
       Inl e \<Rightarrow> (Inl e, s)
     | Inr dek \<Rightarrow>
         (case write_headless (st_io s) cfg w r dek kid (st_world s) of
            (x, w1) \<Rightarrow> (x, s \<lparr> st_world := w1 \<rparr>)))"

subsection \<open>Reading\<close>

definition load_manifest :: "('d, 'i) store \<Rightarrow> string \<Rightarrow> manifest res" where
  "load_manifest s i =
     cas_load (st_io s) (st_world s) i (crypto_key_provider (st_crypto s)) (hasher_name (cf_content_hasher (st_active s)))"

definition guard_handleless :: "manifest \<Rightarrow> err option" where
  "guard_handleless m = (if artifact_id m = [] then Some ErrArtifactNotFound else None)"

fun any_aead :: "transformer_registry \<Rightarrow> pipeline_stage list \<Rightarrow> bool" where
  "any_aead T [] = False"
| "any_aead T (st # sts) =
     (case transformer_get T (ps_algorithm st) of
        Inl _ \<Rightarrow> any_aead T sts
      | Inr f \<Rightarrow> if tf_aead f then True else any_aead T sts)"

definition should_verify_on_read :: "verify_on_read \<Rightarrow> pipeline_stage list \<Rightarrow> bool \<Rightarrow> transformer_registry \<Rightarrow> bool" where
  "should_verify_on_read policy stages native T =
     (case policy of
        VerifyForceEnabled \<Rightarrow> True
      | VerifyDisabled \<Rightarrow> False
      | _ \<Rightarrow> if native then False else \<not> any_aead T stages)"

definition get :: "err option \<Rightarrow> string \<Rightarrow> ('d, 'i) store \<Rightarrow> read_handle res" where
  "get ctx i s =
     (case enter_read ctx s of
        Some e \<Rightarrow> Inl e
      | None \<Rightarrow>
     if i = [] then Inl ErrArtifactNotFound
     else case load_manifest s i of
        Inl e \<Rightarrow> Inl e
      | Inr m \<Rightarrow>
     (case guard_handleless m of
        Some e \<Rightarrow> Inl e
      | None \<Rightarrow>
     (case open_handle (st_io s) (w_idx (st_world s)) m of
        Inl e \<Rightarrow> Inl e
      | Inr inner \<Rightarrow>
          if should_verify_on_read (cf_verify_on_read (session_config s)) (pipeline m) (st_native_checksum s) (io_transformers (st_io s))
          then wrap_verifying (io_hashes (st_io s)) inner else Inr inner)))"

definition open_external :: "('d, 'i) store \<Rightarrow> string \<Rightarrow> read_handle res" where
  "open_external s ref =
     open_handle_by_digest (st_io s) (st_world s) ref (crypto_key_provider (st_crypto s)) (hasher_name (cf_content_hasher (st_active s)))"

definition walk :: "err option \<Rightarrow> ('d, 'i) store \<Rightarrow> manifest list res" where
  "walk ctx s = (case enter_read ctx s of Some e \<Rightarrow> Inl e | None \<Rightarrow> si_iterate_manifests (io_index (st_io s)) (w_idx (st_world s)))"

subsection \<open>Deleting\<close>

text \<open>\<^verbatim>\<open>RetentionUntil\<close> protects while it is set and after the current time.\<close>

definition retained :: "manifest \<Rightarrow> time \<Rightarrow> bool" where
  "retained m now = (retention_until m \<noteq> 0 \<and> retention_until m > now)"

definition delete :: "err option \<Rightarrow> time \<Rightarrow> string \<Rightarrow> ('d, 'i) store \<Rightarrow> unit res \<times> ('d, 'i) store" where
  "delete ctx now i s =
     (case enter_write ctx s of
        Some e \<Rightarrow> (Inl e, s)
      | None \<Rightarrow>
     (case load_manifest s i of
        Inl e \<Rightarrow> (Inl e, s)
      | Inr m \<Rightarrow>
     (case guard_handleless m of
        Some e \<Rightarrow> (Inl e, s)
      | None \<Rightarrow>
     if retained m now then (Inl ErrRetentionNotExpired, s)
     else if cf_deletion_policy (st_active s) = DeletionNoDelete then (Inl ErrDeletionForbidden, s)
     else case manifest_path (digest m) of
        Inl e \<Rightarrow> (Inl e, s)
      | Inr mp \<Rightarrow>
     (case d_remove (io_drv (st_io s)) (w_drv (st_world s)) mp of
        (x, d) \<Rightarrow>
          let s1 = s \<lparr> st_world := st_world s \<lparr> w_drv := d \<rparr> \<rparr> in
          if x \<noteq> Inr () \<and> x \<noteq> Inl ErrNotExist then (x, s1)
          else case si_delete_manifest (io_index (st_io s)) (digest m) (w_idx (st_world s)) of
            (Inl e, ix) \<Rightarrow> (Inl e, s1 \<lparr> st_world := st_world s1 \<lparr> w_idx := ix \<rparr> \<rparr>)
          | (Inr _, ix) \<Rightarrow> (Inr (), publish (EvArtifactDeleted i) (s1 \<lparr> st_world := st_world s1 \<lparr> w_idx := ix \<rparr> \<rparr>))))))"

definition delete_external :: "string \<Rightarrow> ('d, 'i) store \<Rightarrow> unit res \<times> ('d, 'i) store" where
  "delete_external ref s =
     (case si_delete_manifest (io_index (st_io s)) ref (w_idx (st_world s)) of
        (Inl e, ix) \<Rightarrow> (Inl e, s \<lparr> st_world := st_world s \<lparr> w_idx := ix \<rparr> \<rparr>)
      | (Inr _, ix) \<Rightarrow>
          let s1 = s \<lparr> st_world := st_world s \<lparr> w_idx := ix \<rparr> \<rparr> in
          case manifest_path ref of
            Inl e \<Rightarrow> (Inl e, s1)
          | Inr mp \<Rightarrow>
             (case d_remove (io_drv (st_io s)) (w_drv (st_world s1)) mp of
                (x, d) \<Rightarrow> (if x = Inl ErrNotExist then Inr () else x, s1 \<lparr> st_world := st_world s1 \<lparr> w_drv := d \<rparr> \<rparr>)))"

fun rollback_check :: "('d, 'i) store \<Rightarrow> time \<Rightarrow> string list \<Rightarrow> err option" where
  "rollback_check s now [] = None"
| "rollback_check s now (i # ids) =
     (case load_manifest s i of
        Inl e \<Rightarrow> Some e
      | Inr m \<Rightarrow> if retained m now then Some ErrRetentionNotExpired else rollback_check s now ids)"

text \<open>The deletions read the clock anew, the context before each of them.\<close>

fun rollback_loop :: "(nat \<Rightarrow> err option) \<Rightarrow> (nat \<Rightarrow> time) \<Rightarrow> nat \<Rightarrow> string list \<Rightarrow> ('d, 'i) store \<Rightarrow> unit res \<times> ('d, 'i) store" where
  "rollback_loop ctx clock k [] s = (Inr (), s)"
| "rollback_loop ctx clock k (i # ids) s =
     (case ctx k of
        Some e \<Rightarrow> (Inl e, s)
      | None \<Rightarrow>
         (case delete (ctx k) (clock k) i s of
            (Inl e, s1) \<Rightarrow> if e = ErrArtifactNotFound then rollback_loop ctx clock (Suc k) ids s1 else (Inl e, s1)
          | (Inr _, s1) \<Rightarrow> rollback_loop ctx clock (Suc k) ids s1))"

definition rollback_session ::
    "(nat \<Rightarrow> err option) \<Rightarrow> (nat \<Rightarrow> time) \<Rightarrow> string \<Rightarrow> ('d, 'i) store \<Rightarrow> unit res \<times> ('d, 'i) store" where
  "rollback_session ctx clock sid s =
     (case enter_write (ctx 0) s of
        Some e \<Rightarrow> (Inl e, s)
      | None \<Rightarrow>
     if sid = [] then (Inl ErrEmptySessionID, s)
     else case si_get_by_session (io_index (st_io s)) sid (w_idx (st_world s)) of
        Inl e \<Rightarrow> (Inl e, s)
      | Inr ids \<Rightarrow>
     if ids = [] then (Inr (), s)
     else case rollback_check s (clock 0) ids of
        Some e \<Rightarrow> (Inl e, s)
      | None \<Rightarrow>
     if cf_deletion_policy (st_active s) = DeletionNoDelete then (Inl ErrDeletionForbidden, s)
     else case rollback_loop ctx clock 1 ids s of
        (Inl e, s1) \<Rightarrow> (Inl e, s1)
      | (Inr _, s1) \<Rightarrow> (Inr (), publish (EvRollbackCompleted sid (length ids)) s1))"

subsection \<open>Verification\<close>

definition verify_loaded :: "string \<Rightarrow> manifest \<Rightarrow> ('d, 'i) store \<Rightarrow> unit res \<times> ('d, 'i) store" where
  "verify_loaded i m s =
     (case guard_handleless m of
        Some e \<Rightarrow> (Inl e, s)
      | None \<Rightarrow>
         (case verify_blob (st_io s) (st_world s) m of
            Inl e \<Rightarrow> (Inl e, publish (EvScrubFailed i e) s)
          | Inr _ \<Rightarrow> (Inr (), s)))"

definition verify :: "err option \<Rightarrow> string \<Rightarrow> ('d, 'i) store \<Rightarrow> unit res \<times> ('d, 'i) store" where
  "verify ctx i s =
     (case enter_read ctx s of
        Some e \<Rightarrow> (Inl e, s)
      | None \<Rightarrow>
     if i = [] then (Inl ErrArtifactNotFound, s)
     else case load_manifest s i of
        Inl e \<Rightarrow> (Inl e, s)
      | Inr m \<Rightarrow> verify_loaded i m s)"

text \<open>The first consumer that still loads; a consumer that is not found is passed over.\<close>

fun first_loadable :: "('d, 'i) store \<Rightarrow> string list \<Rightarrow> err \<Rightarrow> (string \<times> manifest) res" where
  "first_loadable s [] last_err = Inl last_err"
| "first_loadable s (i # ids) last_err =
     (case load_manifest s i of
        Inl e \<Rightarrow> if e = ErrArtifactNotFound then first_loadable s ids e else Inl e
      | Inr m \<Rightarrow> Inr (i, m))"

definition verify_blob_ref :: "err option \<Rightarrow> string \<Rightarrow> ('d, 'i) store \<Rightarrow> unit res \<times> ('d, 'i) store" where
  "verify_blob_ref ctx ref s =
     (case enter_read ctx s of
        Some e \<Rightarrow> (Inl e, s)
      | None \<Rightarrow>
     if ref = [] then (Inl ErrArtifactNotFound, s)
     else case si_manifests_by_blob_ref (io_index (st_io s)) ref (w_idx (st_world s)) of
        Inl e \<Rightarrow> (Inl e, s)
      | Inr ms \<Rightarrow>
     if ms = [] then (Inl ErrArtifactNotFound, s)
     else case first_loadable s (map artifact_id ms) ErrArtifactNotFound of
        Inl e \<Rightarrow> (Inl e, s)
      | Inr (i, m) \<Rightarrow> verify_loaded i m s)"

definition verify_manifest :: "err option \<Rightarrow> string \<Rightarrow> ('d, 'i) store \<Rightarrow> unit res \<times> ('d, 'i) store" where
  "verify_manifest ctx i s =
     (case enter_read ctx s of
        Some e \<Rightarrow> (Inl e, s)
      | None \<Rightarrow>
     if i = [] then (Inl ErrArtifactNotFound, s)
     else case load_manifest s i of
        Inl e \<Rightarrow> if e = ErrArtifactNotFound then (Inl e, s) else (Inl e, publish (EvScrubFailed i e) s)
      | Inr _ \<Rightarrow> (Inr (), s))"

subsection \<open>Reading a manifest back into the index\<close>

definition ingest_manifest :: "time \<Rightarrow> string \<Rightarrow> ('d, 'i) store \<Rightarrow> unit res \<times> ('d, 'i) store" where
  "ingest_manifest now dg s = (let cfg = st_active s in
     case load_manifest_by_digest (st_io s) (w_drv (st_world s)) dg (crypto_key_provider (st_crypto s)) (hasher_name (cf_content_hasher cfg)) of
       Inl e \<Rightarrow> (Inl e, s)
     | Inr m \<Rightarrow>
    (case (if primary_blob_ref m = [] then Inr no_address
           else case blob_path (cf_path_topology cfg) BlobTypeRegular (primary_blob_ref m) of
             Inl e \<Rightarrow> Inl e
           | Inr p \<Rightarrow> Inr (address_at p)) of
       Inl e \<Rightarrow> (Inl e, s)
     | Inr addr \<Rightarrow>
    (case si_index_manifest (io_index (st_io s)) m addr now (w_idx (st_world s)) of
       (x, ix) \<Rightarrow> (x, s \<lparr> st_world := st_world s \<lparr> w_idx := ix \<rparr> \<rparr>))))"

subsection \<open>The liveness sentinel\<close>

definition sentinel_lost :: "('d, 'i) store \<Rightarrow> ('d, 'i) store" where
  "sentinel_lost s =
     (if st_maint s = MaintOffline \<and> \<not> st_by_sentinel s then s
      else let s1 = s \<lparr> st_maint := MaintOffline, st_by_sentinel := True \<rparr> in
        if st_by_sentinel s then s1 else publish EvStoreDegraded s1)"

definition sentinel_substituted :: "('d, 'i) store \<Rightarrow> ('d, 'i) store" where
  "sentinel_substituted s =
     (if st_maint s = MaintOffline \<and> \<not> st_by_sentinel s then s
      else let s1 = s \<lparr> st_maint := MaintOffline, st_by_sentinel := True, st_substituted := True \<rparr> in
        if st_substituted s then s1 else publish EvStoreDegraded s1)"

definition sentinel_healthy :: "('d, 'i) store \<Rightarrow> ('d, 'i) store" where
  "sentinel_healthy s =
     (if \<not> st_by_sentinel s \<or> st_substituted s then s
      else publish EvStoreRecovered (s \<lparr> st_maint := MaintNone, st_by_sentinel := False \<rparr>))"

end
