(* ===== verification/Store_Spec.thy ===== *)
theory Store_Spec
  imports Store Index_Runs
begin

text \<open>
  What the store promises.  \<open>abs_store\<close> is the set of artifacts held, \<open>store_inv\<close> the invariant of a store over
  the local filesystem and the SQLite index: the writes, the deletions and the reads refine operations
  on that set, with any schedule of I/O failures below.
\<close>

subsection \<open>The size guard\<close>

lemma wrap64_id: "- (2 ^ 63) \<le> x \<Longrightarrow> x < 2 ^ 63 \<Longrightarrow> wrap64 x = x"
  by (simp add: wrap64_def)

lemma drain_limit:
  assumes "\<forall>n \<in> set ns. 0 < n" "length b < length ns" "lg_src g = (b, e)" "0 \<le> lg_left g" "lg_left g < 2 ^ 63 - 1"
  shows "drain limit_read g ns =
    (if int (length b) > lg_left g then (take (nat (lg_left g) + 1) b, Some ErrArtifactTooLarge)
     else (b, Some (case e of None \<Rightarrow> ErrEOF | Some x \<Rightarrow> x)))"
  using assms
proof (induction ns arbitrary: g b)
  case (Cons n ns)
  let ?L = "lg_left g"
  define k where "k = min n (nat ?L + 1)"
  have k: "0 < k" "(if int n > ?L + 1 then ?L + 1 else int n) = int k" using Cons.prems(1,4) by (auto simp: k_def)
  have rd: "limit_read g n = (case read_stream k (b, e) of ((b', e'), src) \<Rightarrow>
      let left = ?L - int (length b'); g' = g \<lparr> lg_src := src, lg_left := left \<rparr> in
      if left < 0 then ((b', Some ErrArtifactTooLarge), g') else ((b', e'), g'))"
    using Cons.prems(3-5) k(2) by (simp add: limit_read_def wrap64_id Let_def)
  show ?case
  proof (cases "b = []")
    case True
    then show ?thesis using rd Cons.prems(4) by (simp add: read_stream_def split: option.splits)
  next
    case False
    let ?g = "g \<lparr> lg_src := (drop k b, e), lg_left := ?L - int (length (take k b)) \<rparr>"
    have rd': "limit_read g n = (if ?L < int (length (take k b)) then ((take k b, Some ErrArtifactTooLarge), ?g) else ((take k b, None), ?g))"
      using rd False by (simp add: read_stream_def Let_def)
    show ?thesis
    proof (cases "?L < int (length (take k b))")
      case True
      then have "?L < int k" "?L < int (length b)" by auto
      moreover from this(1) have "k = nat ?L + 1" using Cons.prems(4) unfolding k_def by (simp add: min_def split: if_splits)
      ultimately have "k = nat ?L + 1" "?L < int (length b)" by simp_all
      then show ?thesis using rd' True by simp
    next
      case F: False
      have len: "length (drop k b) < length ns" using Cons.prems(2) False k(1) by (cases b) auto
      have ih: "drain limit_read ?g ns = (if int (length (drop k b)) > lg_left ?g then (take (nat (lg_left ?g) + 1) (drop k b), Some ErrArtifactTooLarge)
          else (drop k b, Some (case e of None \<Rightarrow> ErrEOF | Some x \<Rightarrow> x)))"
        using Cons.IH [of "drop k b" ?g] Cons.prems(1,4,5) len F by auto
      show ?thesis
      proof (cases "int (length b) > ?L")
        case True
        then have le: "k \<le> length b" "int (length (drop k b)) > lg_left ?g" "int k \<le> ?L" using F by (auto simp: min_def split: if_splits)
        have "take k b @ take (nat (?L - int k) + 1) (drop k b) = take (k + (nat (?L - int k) + 1)) b" by (rule take_add [symmetric])
        also have "k + (nat (?L - int k) + 1) = nat ?L + 1" using le(3) by simp
        finally show ?thesis using rd' F ih le True by simp
      next
        case not: False
        then have "\<not> int (length (drop k b)) > lg_left ?g" by (auto simp: min_def)
        then show ?thesis using rd' F ih not by simp
      qed
    qed
  qed
qed simp

lemma limited_eq:
  assumes "0 \<le> limit" "limit < 2 ^ 63 - 1" "e \<noteq> Some ErrEOF"
  shows "limited limit (b, e) =
    (if int (length b) > limit then (take (nat limit + 1) b, Some ErrArtifactTooLarge) else (b, e))"
proof -
  have "drain limit_read (new_limit_guard (b, e) limit) (replicate (length b + 2) 512) =
    (if int (length b) > limit then (take (nat limit + 1) b, Some ErrArtifactTooLarge)
     else (b, Some (case e of None \<Rightarrow> ErrEOF | Some x \<Rightarrow> x)))"
    using drain_limit [of "replicate (length b + 2) 512" b "new_limit_guard (b, e) limit" e] assms(1,2)
    by (simp add: new_limit_guard_def)
  then show ?thesis using assms(3) by (auto simp: limited_def stream_of_def split: option.splits)
qed

text \<open>C36: the size guard admits exactly the payloads within the limit, for every limit short of the largest 64-bit
  integer: such a payload passes unchanged, a longer one is cut one byte past the limit with the
  size error.  At the largest limit, which the configuration accepts, the guard's arithmetic wraps
  around and the first read panics whatever the payload.\<close>

theorem size_guard:
  assumes "e \<noteq> Some ErrEOF" "0 < cf_max_artifact_size cfg" "cf_max_artifact_size cfg < 2 ^ 63"
  shows "guarded_payload cfg (b, e) =
    (if cf_max_artifact_size cfg = 2 ^ 63 - 1 then ([], Some panic)
     else if int (length b) > cf_max_artifact_size cfg then (take (nat (cf_max_artifact_size cfg) + 1) b, Some ErrArtifactTooLarge)
     else (b, e))"
proof (cases "cf_max_artifact_size cfg = 2 ^ 63 - 1")
  case True
  have "limit_read (new_limit_guard (b, e) (2 ^ 63 - 1)) 512 = (([], Some panic), new_limit_guard (b, e) (2 ^ 63 - 1))"
    by (simp add: limit_read_def new_limit_guard_def wrap64_def)
  then show ?thesis using True by (simp add: guarded_payload_def limited_def stream_of_def panic_def)
next
  case False
  then show ?thesis using assms limited_eq [of "cf_max_artifact_size cfg" e b] by (simp add: guarded_payload_def)
qed

theorem size_guard_witness:
  "guarded_payload (zero_config \<lparr> cf_max_artifact_size := 3 \<rparr>) (''abc'', None) = (''abc'', None)
   \<and> guarded_payload (zero_config \<lparr> cf_max_artifact_size := 3 \<rparr>) (''abcde'', None) = (''abcd'', Some ErrArtifactTooLarge)
   \<and> guarded_payload (zero_config \<lparr> cf_max_artifact_size := 2 ^ 63 - 1 \<rparr>) (''abc'', None) = ([], Some panic)"
  using size_guard [of None "zero_config \<lparr> cf_max_artifact_size := 3 \<rparr>" "''abc''"]
    size_guard [of None "zero_config \<lparr> cf_max_artifact_size := 3 \<rparr>" "''abcde''"]
    size_guard [of None "zero_config \<lparr> cf_max_artifact_size := 2 ^ 63 - 1 \<rparr>" "''abc''"]
  by simp

subsection \<open>The artifacts held\<close>

abbreviation store_keys :: "('d, 'i) store \<Rightarrow> key_provider option" where
  "store_keys s \<equiv> crypto_key_provider (st_crypto s)"

abbreviation store_algo :: "('d, 'i) store \<Rightarrow> string" where
  "store_algo s \<equiv> hasher_name (cf_content_hasher (st_active s))"

definition abs_store :: "(localfs, index_state) store \<Rightarrow> (string \<times> bytes) set" where
  "abs_store s = {(i, p). holds (st_io s) (store_keys s) (store_algo s) (lfs_view (w_drv (st_world s)))
     (sq_manifests (w_idx (st_world s))) (sq_blobs (w_idx (st_world s))) i p}"

definition store_inv :: "hash_fun \<Rightarrow> (localfs, index_state) store \<Rightarrow> bool" where
  "store_inv h s = ((\<exists>H T J C. st_io s = local_io H T J C) \<and> io_hashes (st_io s) (store_algo s) = Some h \<and> (\<forall>x. 2 \<le> length (h x))
     \<and> lfs_inv (w_drv (st_world s)) \<and> index_wf (w_idx (st_world s))
     \<and> sound (st_io s) (store_keys s) (session_config s) h (lfs_view (w_drv (st_world s)))
         (sq_manifests (w_idx (st_world s))) (sq_blobs (w_idx (st_world s))))"

lemma store_invD:
  assumes "store_inv h s" "st_io s = local_io H T J C"
  shows "lfs_inv (w_drv (st_world s))" "index_wf (w_idx (st_world s))"
    and "sound (local_io H T J C) (store_keys s) (session_config s) h (lfs_view (w_drv (st_world s)))
      (sq_manifests (w_idx (st_world s))) (sq_blobs (w_idx (st_world s)))"
  using assms by (simp_all add: store_inv_def)

lemma session_config_fixed [simp]:
  "cf_content_hasher (session_config s) = cf_content_hasher (st_active s)"
  by (simp add: session_config_def)

lemma publish_simps [simp]:
  "st_io (publish e s) = st_io s" "st_world (publish e s) = st_world s" "st_crypto (publish e s) = st_crypto s"
  "st_active (publish e s) = st_active s" "session_config (publish e s) = session_config s"
  by (simp_all add: publish_def session_config_def)

lemma world_update_simps [simp]: "session_config (s \<lparr> st_world := w \<rparr>) = session_config s"
  by (simp add: session_config_def)

lemma publish_blind [simp]: "abs_store (publish e s) = abs_store s" "store_inv h (publish e s) = store_inv h s"
  by (simp_all add: abs_store_def store_inv_def)

text \<open>At most one payload per identifier.\<close>

lemma abs_store_functional:
  assumes "store_inv h s" "(i, p) \<in> abs_store s" "(i, q) \<in> abs_store s"
  shows "p = q"
proof -
  obtain d r d' r' where r: "sq_manifests (w_idx (st_world s)) d = Some r" "im_aid r = Some i"
      "artifact_row (st_io s) (store_keys s) (store_algo s) (lfs_view (w_drv (st_world s))) (sq_blobs (w_idx (st_world s))) d r p"
      "sq_manifests (w_idx (st_world s)) d' = Some r'" "im_aid r' = Some i"
      "artifact_row (st_io s) (store_keys s) (store_algo s) (lfs_view (w_drv (st_world s))) (sq_blobs (w_idx (st_world s))) d' r' q"
    using assms(2,3) by (auto simp: abs_store_def holds_def)
  have "d = d'" using assms(1) sound_unique [OF _ r(1,4,2,5)] by (auto simp: store_inv_def)
  then show ?thesis using r(1,4) artifact_row_fun [OF r(3)] r(6) by simp
qed

subsection \<open>Put\<close>

text \<open>What a \<^verbatim>\<open>Put\<close> of \<open>p\<close> relies on: the configured stages are lossless, no two hashes in play collide, the manifest
  codec is faithful, and the manifest it assembles is new.\<close>

definition put_env ::
    "hash_fun \<Rightarrow> (bytes \<Rightarrow> bool) \<Rightarrow> draws \<Rightarrow> artifact \<Rightarrow> put_options \<Rightarrow> bytes \<Rightarrow> (localfs, index_state) store \<Rightarrow> bool" where
  "put_env h compact w a opts p s = (let cfg = session_config s; io = st_io s; kid = resolve_write_key_id s; ws = st_world s in
     is_uuid (dr_uuid w) \<and> stages_good (io_transformers io) (encode_ctx cfg kid) (cf_pipeline cfg)
     \<and> plain_blind (io_transformers io) (cf_pipeline cfg)
     \<and> clash_free io cfg (store_algo s) kid h (lfs_view (w_drv ws)) (sq_blobs (w_idx ws)) p
     \<and> compact (ar_ext a) \<and> compact (ar_usr a)
     \<and> (\<forall>dek. with_write_dek s cfg = Inr dek \<longrightarrow> manifest_env io cfg (dr_seal w) (store_keys s) dek kid compact)
     \<and> (\<forall>rs w1 dek m fb. materialize io cfg (p, None) kid (dr_uuid w) ws = (Inr rs, w1) \<and> with_write_dek s cfg = Inr dek
          \<and> assemble_manifest io cfg w a opts rs dek kid = Inr (m, fb) \<longrightarrow> fresh_manifest (sq_manifests (w_idx ws)) m fb))"

lemma assemble_payload_irrelevant: "assemble_manifest io cfg w (a \<lparr> ar_payload := x \<rparr>) opts rs dek kid = assemble_manifest io cfg w a opts rs dek kid"
  by (simp add: assemble_manifest_def put_manifest_def)

definition store_frame :: "(localfs, index_state) store \<Rightarrow> (localfs, index_state) world \<Rightarrow> bool" where
  "store_frame s w1 = (w_idx w1 = w_idx (st_world s) \<and> lfs_inv (w_drv w1)
     \<and> (\<forall>q \<in> indexed_paths (sq_manifests (w_idx (st_world s))) (sq_blobs (w_idx (st_world s))). lfs_view (w_drv w1) q = lfs_view (w_drv (st_world s)) q))"

lemma store_frame_keeps:
  assumes "store_inv h s" "store_frame s w1"
  shows "store_inv h (s \<lparr> st_world := w1 \<rparr>)" "abs_store (s \<lparr> st_world := w1 \<rparr>) = abs_store s"
proof -
  let ?mf = "sq_manifests (w_idx (st_world s))" and ?bl = "sq_blobs (w_idx (st_world s))"
  have f: "w_idx w1 = w_idx (st_world s)" "lfs_inv (w_drv w1)" "\<And>q. q \<in> indexed_paths ?mf ?bl \<Longrightarrow> lfs_view (w_drv w1) q = lfs_view (w_drv (st_world s)) q"
    using assms(2) by (auto simp: store_frame_def)
  have "sound (st_io s) (store_keys s) (session_config s) h (lfs_view (w_drv w1)) ?mf ?bl"
    by (rule sound_frame [where v = "lfs_view (w_drv (st_world s))", OF _ f(3)]) (use assms(1) in \<open>simp_all add: store_inv_def\<close>)
  then show "store_inv h (s \<lparr> st_world := w1 \<rparr>)" using assms(1) f(1,2) by (simp add: store_inv_def)
  have "holds (st_io s) (store_keys s) (store_algo s) (lfs_view (w_drv w1)) ?mf ?bl i p
      = holds (st_io s) (store_keys s) (store_algo s) (lfs_view (w_drv (st_world s))) ?mf ?bl i p" for i p
    by (intro holds_frame f(3))
  then show "abs_store (s \<lparr> st_world := w1 \<rparr>) = abs_store s" using f(1) by (simp add: abs_store_def)
qed

lemma put_materialized:
  assumes iv: "store_inv h s" and env: "put_env h compact w a opts p s"
    and mt: "materialize (st_io s) (session_config s) (p, None) (resolve_write_key_id s) (dr_uuid w) (st_world s) = (r, w1)"
  shows "store_frame s w1"
proof -
  obtain H T J C where io: "st_io s = local_io H T J C" using iv by (auto simp: store_inv_def)
  note e = env [unfolded put_env_def Let_def io]
  note i = iv [unfolded store_inv_def io]
  have h2: "\<And>x. 2 \<le> length (h x)" using i by blast
  show ?thesis
    using lst.materialize_spec [where H = H and T = T and J = J and C = C and s = "st_world s" and cfg = "session_config s" and h = h
        and keys = "store_keys s" and p = p, OF _ _ _ _ _ h2 _ _ mt [unfolded io]] i e
    unfolding store_frame_def by simp
qed

lemma put_written:
  assumes iv: "store_inv h s" and env: "put_env h compact w a opts p s"
    and mt: "materialize (st_io s) (session_config s) (p, None) (resolve_write_key_id s) (dr_uuid w) (st_world s) = (Inr rs, w1)"
    and dek: "with_write_dek s (session_config s) = Inr dek"
    and as: "assemble_manifest (st_io s) (session_config s) w a opts rs dek (resolve_write_key_id s) = Inr (m, fb)"
    and pe: "persist_manifest (st_io s) m fb (rs_addr rs) (dr_now w) w1 = (r, w2)"
  shows "store_inv h (s \<lparr> st_world := w2 \<rparr>)"
    and "abs_store (s \<lparr> st_world := w2 \<rparr>) = abs_store s \<union> (if r = Inr () then {(artifact_id m, p)} else {})"
proof -
  obtain H T J C where io: "st_io s = local_io H T J C" using iv by (auto simp: store_inv_def)
  have e: "fresh_manifest (sq_manifests (w_idx (st_world s))) m fb"
    "manifest_env (st_io s) (session_config s) (dr_seal w) (store_keys s) dek (resolve_write_key_id s) compact"
    using env mt dek as unfolding put_env_def Let_def by blast+
  note e' = env [unfolded put_env_def Let_def io]
  note i = iv [unfolded store_inv_def io]
  have h2: "\<And>x. 2 \<le> length (h x)" using i by blast
  have k: "lfs_inv (w_drv w2) \<and> index_wf (w_idx w2)
    \<and> sound (local_io H T J C) (store_keys s) (session_config s) h (lfs_view (w_drv w2)) (sq_manifests (w_idx w2)) (sq_blobs (w_idx w2))
    \<and> (\<forall>a' q. holds (local_io H T J C) (store_keys s) (store_algo s) (lfs_view (w_drv w2)) (sq_manifests (w_idx w2)) (sq_blobs (w_idx w2)) a' q
        \<longleftrightarrow> holds (local_io H T J C) (store_keys s) (store_algo s) (lfs_view (w_drv (st_world s))) (sq_manifests (w_idx (st_world s))) (sq_blobs (w_idx (st_world s))) a' q
            \<or> r = Inr () \<and> a' = artifact_id m \<and> q = p)"
    using lst.write_spec [where H = H and T = T and J = J and C = C and s = "st_world s" and cfg = "session_config s" and h = h
        and keys = "store_keys s" and p = p and compact = compact and dek = dek,
        OF _ _ _ _ _ h2 _ _ _ _ _ _ mt [unfolded io] as [unfolded io] e(1) pe [unfolded io]] i e' e(2) [unfolded io]
    by simp
  show "store_inv h (s \<lparr> st_world := w2 \<rparr>)" using k i by (simp add: store_inv_def io)
  show "abs_store (s \<lparr> st_world := w2 \<rparr>) = abs_store s \<union> (if r = Inr () then {(artifact_id m, p)} else {})"
    using k by (auto simp: abs_store_def io)
qed

lemma put_go:
  assumes "enter_write ctx s = None" "ar_payload a = Some r0"
    and "validate_put_inputs (a \<lparr> ar_payload := Some (guarded_payload (session_config s) r0) \<rparr>) opts = None"
    and "check_put_supported (st_io s) (session_config s) opts = None"
    and "materialize (st_io s) (session_config s) (guarded_payload (session_config s) r0) (resolve_write_key_id s) (dr_uuid w) (st_world s) = (Inr rs, w1)"
    and "with_write_dek s (session_config s) = Inr dek"
    and "assemble_manifest (st_io s) (session_config s) w a opts rs dek (resolve_write_key_id s) = Inr (m, fb)"
    and "persist_manifest (st_io s) m fb (rs_addr rs) (dr_now w) w1 = (Inr u, w2)"
  shows "put ctx w a opts s = (Inr (artifact_id m), publish (EvManifestSaved m) (s \<lparr> st_world := w2 \<rparr>))"
  using assms by (simp add: put_def Let_def assemble_payload_irrelevant)

lemma put_cases:
  assumes "put ctx w a opts s = (r, s')" "ar_payload a = Some r0"
  obtains (refused) e where "r = Inl e" "s' = s"
  | (lost) e w1 where "r = Inl e" "s' = s \<lparr> st_world := w1 \<rparr>"
      "materialize (st_io s) (session_config s) (guarded_payload (session_config s) r0) (resolve_write_key_id s) (dr_uuid w) (st_world s) = (Inl e, w1)"
  | (unassembled) e rs w1 where "r = Inl e" "s' = s \<lparr> st_world := w1 \<rparr>"
      "materialize (st_io s) (session_config s) (guarded_payload (session_config s) r0) (resolve_write_key_id s) (dr_uuid w) (st_world s) = (Inr rs, w1)"
  | (written) rs w1 dek m fb x w2 where
      "materialize (st_io s) (session_config s) (guarded_payload (session_config s) r0) (resolve_write_key_id s) (dr_uuid w) (st_world s) = (Inr rs, w1)"
      "with_write_dek s (session_config s) = Inr dek"
      "assemble_manifest (st_io s) (session_config s) w a opts rs dek (resolve_write_key_id s) = Inr (m, fb)"
      "persist_manifest (st_io s) m fb (rs_addr rs) (dr_now w) w1 = (x, w2)"
      "r = (case x of Inl e \<Rightarrow> Inl e | Inr _ \<Rightarrow> Inr (artifact_id m))"
      "s' = s \<lparr> st_world := w2 \<rparr> \<or> s' = publish (EvManifestSaved m) (s \<lparr> st_world := w2 \<rparr>)"
proof -
  let ?cfg = "session_config s" and ?io = "st_io s" and ?kid = "resolve_write_key_id s"
  let ?a = "a \<lparr> ar_payload := map_option (guarded_payload ?cfg) (ar_payload a) \<rparr>"
  have pa: "the (ar_payload ?a) = guarded_payload ?cfg r0" using assms(2) by simp
  show thesis
  proof (cases "enter_write ctx s = None \<and> validate_put_inputs ?a opts = None \<and> check_put_supported ?io ?cfg opts = None")
    case False
    then have "\<exists>e. r = Inl e \<and> s' = s" using assms(1) by (auto simp: put_def Let_def split: option.splits)
    then show ?thesis using refused by blast
  next
    case True
    obtain y w1 where y: "materialize ?io ?cfg (guarded_payload ?cfg r0) ?kid (dr_uuid w) (st_world s) = (y, w1)" by fastforce
    note pd = assms(1) [unfolded put_def Let_def assemble_payload_irrelevant] True pa y
    show ?thesis
    proof (cases y)
      case (Inl e)
      then show ?thesis using pd lost [of e w1] by simp
    next
      case (Inr rs)
      let ?as = "case with_write_dek s ?cfg of Inl e \<Rightarrow> Inl e | Inr dek \<Rightarrow> assemble_manifest ?io ?cfg w a opts rs dek ?kid"
      show ?thesis
      proof (cases ?as)
        case (Inl e)
        then show ?thesis using pd \<open>y = Inr rs\<close> unassembled [of e w1 rs] by simp
      next
        case (Inr z)
        obtain m fb where z: "z = (m, fb)" by (cases z)
        obtain dek where d: "with_write_dek s ?cfg = Inr dek" "assemble_manifest ?io ?cfg w a opts rs dek ?kid = Inr (m, fb)"
          using Inr z by (auto split: sum.splits)
        obtain x w2 where x: "persist_manifest ?io m fb (rs_addr rs) (dr_now w) w1 = (x, w2)" by fastforce
        have "r = (case x of Inl e \<Rightarrow> Inl e | Inr _ \<Rightarrow> Inr (artifact_id m))
          \<and> (s' = s \<lparr> st_world := w2 \<rparr> \<or> s' = publish (EvManifestSaved m) (s \<lparr> st_world := w2 \<rparr>))"
          using pd \<open>y = Inr rs\<close> Inr z x by (cases x) simp_all
        then show ?thesis using written [OF _ d x] y \<open>y = Inr rs\<close> by blast
      qed
    qed
  qed
qed

lemma put_step:
  assumes "store_inv h s" "put_env h compact w a opts p s"
    and "ar_payload a = Some r0" "guarded_payload (session_config s) r0 = (p, None)" "put ctx w a opts s = (r, s')"
  shows "store_inv h s' \<and> abs_store s' = abs_store s \<union> (case r of Inr i \<Rightarrow> {(i, p)} | Inl _ \<Rightarrow> {})"
  using assms(5,3)
proof (cases rule: put_cases)
  case (refused e)
  then show ?thesis using assms(1) by simp
next
  case (lost e w1)
  then show ?thesis using put_materialized [OF assms(1,2)] store_frame_keeps [OF assms(1)] assms(4) by simp
next
  case (unassembled e rs w1)
  then show ?thesis using put_materialized [OF assms(1,2)] store_frame_keeps [OF assms(1)] assms(4) by simp
next
  case (written rs w1 dek m fb x w2)
  have mt: "materialize (st_io s) (session_config s) (p, None) (resolve_write_key_id s) (dr_uuid w) (st_world s) = (Inr rs, w1)"
    using written(1) assms(4) by simp
  note pw = put_written [OF assms(1,2) mt written(2,3,4)]
  have "store_inv h s'" using written(6) pw(1) publish_blind(2) by metis
  moreover have "abs_store s' = abs_store (s \<lparr> st_world := w2 \<rparr>)" using written(6) publish_blind(1) by metis
  moreover have "(case r of Inr i \<Rightarrow> {(i, p)} | Inl _ \<Rightarrow> {}) = (if x = Inr () then {(artifact_id m, p)} else {})"
    using written(5) by (cases x) simp_all
  ultimately show ?thesis using pw(2) by simp
qed

text \<open>C1: \<^verbatim>\<open>Put\<close> refines insertion.  Over the local filesystem and the SQLite index, with any schedule of I/O failures,
  a \<^verbatim>\<open>Put\<close> keeps the store invariant; when it succeeds the artifacts held are those held before
  and the payload under the identifier returned; when it fails, at whatever step, the artifacts held are
  exactly those held before.\<close>

theorem put_refines:
  assumes "store_inv h s" "put_env h compact w a opts p s"
    and "ar_payload a = Some r0" "guarded_payload (session_config s) r0 = (p, None)" "put ctx w a opts s = (r, s')"
  shows "store_inv h s' \<and> abs_store s' = abs_store s \<union> (case r of Inr i \<Rightarrow> {(i, p)} | Inl _ \<Rightarrow> {})"
  by (rule put_step [OF assms])






subsection \<open>Get\<close>

lemma get_okD:
  assumes "get ctx i s = Inr rh"
  shows "\<exists>m inner. load_manifest s i = Inr m \<and> open_handle (st_io s) (w_idx (st_world s)) m = Inr inner
    \<and> (rh = inner \<or> wrap_verifying (io_hashes (st_io s)) inner = Inr rh)"
  using assms by (auto simp: get_def split: option.splits if_splits sum.splits)

lemma wrap_total:
  assumes "wrap_verifying H h = Inr rh"
  shows "handle_total io d rh = (b, ErrEOF) \<Longrightarrow> handle_total io d h = (b, ErrEOF)"
proof (cases "content_hash (handle_manifest h) = []")
  case False
  then obtain want f l where "rh = VerifyingHandle h want f [] l False False"
    using assms by (auto simp: wrap_verifying_def Let_def split: sum.splits)
  then show "handle_total io d rh = (b, ErrEOF) \<Longrightarrow> handle_total io d h = (b, ErrEOF)"
    by (auto simp: verify_end_def split: prod.splits if_splits)
qed (use assms in \<open>simp add: wrap_verifying_def\<close>)

lemma wrap_claimed:
  assumes "claims H algo (handle_manifest h) p" "handle_total io d h = (p, ErrEOF)"
  shows "\<exists>rh. wrap_verifying H h = Inr rh \<and> handle_total io d rh = (p, ErrEOF)"
proof -
  obtain f where f: "H (hash_algo (handle_manifest h)) = Some f" "content_hash (handle_manifest h) = hex_encode (f p)"
      "original_size (handle_manifest h) = int (length p)"
    using assms(1) by (auto simp: claims_def)
  then show ?thesis
    using assms(2) by (cases "hex_encode (f p) = []") (auto simp: wrap_verifying_def Let_def parse_content_hash_def new_hasher_def verify_end_def)
qed

lemma load_manifest_sound:
  assumes iv: "store_inv h s" and ld: "load_manifest s i = Inr m"
  shows "\<exists>p r. sq_manifests (w_idx (st_world s)) (digest m) = Some r \<and> im_aid r = Some i \<and> artifact_id m = i \<and> wf_ref (digest m)
    \<and> (i, p) \<in> abs_store s \<and> claims (io_hashes (st_io s)) (store_algo s) m p
    \<and> reads_as (st_io s) (lfs_view (w_drv (st_world s))) (sq_blobs (w_idx (st_world s))) m p"
proof -
  obtain H T J C where io: "st_io s = local_io H T J C" using iv by (auto simp: store_inv_def)
  note k = store_invD [OF iv io]
  have ld': "cas_load (local_io H T J C) (st_world s) i (store_keys s) (hasher_name (cf_content_hasher (session_config s))) = Inr m"
    using ld by (simp add: load_manifest_def io)
  show ?thesis
    using lst.load_ok [OF k ld'] unfolding abs_store_def io session_config_fixed local_io_simps by blast
qed

text \<open>C2: \<^verbatim>\<open>Get\<close> never serves other bytes than those held.  Over the local filesystem and the SQLite index, with any schedule
  of I/O failures and whatever the verification policy, a handle returned for an identifier that is read to
  its end, with reads of any sizes, delivered the payload held under that identifier.\<close>

theorem get_refines:
  assumes "store_inv h s" "get ctx i s = Inr rh" "\<forall>n \<in> set ns. 0 < n"
    and "drain (\<lambda>rh n. handle_read (st_io s) (w_drv (st_world s)) n rh) rh ns = (b, Some ErrEOF)"
  shows "(i, b) \<in> abs_store s"
proof -
  obtain H T J C where io: "st_io s = local_io H T J C" using assms(1) by (auto simp: store_inv_def)
  obtain m inner where m: "load_manifest s i = Inr m" "open_handle (st_io s) (w_idx (st_world s)) m = Inr inner"
      "rh = inner \<or> wrap_verifying (io_hashes (st_io s)) inner = Inr rh"
    using get_okD [OF assms(2)] by blast
  obtain p where p: "(i, p) \<in> abs_store s" "reads_as (st_io s) (lfs_view (w_drv (st_world s))) (sq_blobs (w_idx (st_world s))) m p"
    using load_manifest_sound [OF assms(1) m(1)] by blast
  have "handle_total (st_io s) (w_drv (st_world s)) rh = (b, ErrEOF)" by (rule drain_handle_end [OF assms(3,4)])
  then have t: "handle_total (local_io H T J C) (w_drv (st_world s)) inner = (b, ErrEOF)" using m(3) wrap_total io by metis
  note k = store_invD [OF assms(1) io]
  have "b = p" using lst.open_handle_total(2) [OF k p(2) [unfolded io] m(2) [unfolded io]] t by simp
  then show ?thesis using p(1) by simp
qed

lemma load_manifest_complete:
  assumes iv: "store_inv h s" and rel: "lfs_rel (w_drv (st_world s))" "index_rel (w_idx (st_world s))"
    and held: "(i, p) \<in> abs_store s" "i \<noteq> []"
  shows "\<exists>m. load_manifest s i = Inr m"
proof -
  obtain H T J C where io: "st_io s = local_io H T J C" using iv by (auto simp: store_inv_def)
  let ?w = "st_world s" and ?v = "lfs_view (w_drv (st_world s))"
  have so: "sound (st_io s) (store_keys s) (session_config s) h ?v (sq_manifests (w_idx ?w)) (sq_blobs (w_idx ?w))"
    using iv by (simp add: store_inv_def)
  obtain dg r where r: "sq_manifests (w_idx ?w) dg = Some r" "im_aid r = Some i"
      "artifact_row (st_io s) (store_keys s) (store_algo s) ?v (sq_blobs (w_idx ?w)) dg r p"
    using held(1) by (auto simp: abs_store_def holds_def)
  obtain x where x: "si_resolve_manifest_digest sqlite_index i (w_idx ?w) = Inr x" using rsqx.irel_lookup [OF rel(2)] by blast
  note wf = rsqx.irel_inv [OF rel(2)]
  have "x \<noteq> None" using sqx.lookup_absent [OF wf _ r(1), of i] x r(2) by auto
  then obtain dg' where x': "x = Some dg'" by blast
  then obtain r' where "sq_manifests (w_idx ?w) dg' = Some r'" "im_aid r' = Some i" using sqx.lookup_ok [OF wf] x by blast
  then have "dg' = dg" using sound_unique [OF so _ r(1) _ r(2)] by blast
  then have lk: "si_resolve_manifest_digest sqlite_index i (w_idx ?w) = Inr (Some dg)" using x x' by simp
  obtain m0 q fb where m0: "manifest_path dg = Inr q" "?v q = Some fb" "length fb \<le> max_manifest_size"
      "verify_manifest_digest (io_hashes (st_io s)) dg fb (store_algo s) = Inr ()"
      "decode_encrypted (io_json (st_io s)) (io_cipher (st_io s)) fb (store_keys s) = Inr m0"
    using r(3) by (auto simp: artifact_row_def stored_as_def)
  have "wf_ref dg" using so r(1) unfolding sound_def by blast
  then have "lfs_get (w_drv ?w) q = Inr fb" using rlfs.rel_get [OF rel(1) clean_manifest_path [OF _ m0(1)]] m0(2) by simp
  then have "load_manifest_by_digest (st_io s) (w_drv ?w) dg (store_keys s) (store_algo s) = Inr (m0 \<lparr> digest := dg \<rparr>)"
    using m0 io by (simp add: load_manifest_by_digest_def)
  then show ?thesis using lk held(2) io by (simp add: load_manifest_def cas_load_def)
qed

lemma get_serves:
  assumes "store_inv h s" "lfs_rel (w_drv (st_world s))" "index_rel (w_idx (st_world s))" "check_operational s = None"
    and "(i, p) \<in> abs_store s" "i \<noteq> []"
  shows "\<exists>rh. get None i s = Inr rh \<and> (\<forall>ns. (\<forall>n \<in> set ns. 0 < n) \<and> length p < length ns \<longrightarrow>
    drain (\<lambda>rh n. handle_read (st_io s) (w_drv (st_world s)) n rh) rh ns = (p, Some ErrEOF))"
proof -
  obtain H T J C where io: "st_io s = local_io H T J C" using assms(1) by (auto simp: store_inv_def)
  let ?w = "st_world s"
  obtain m where m: "load_manifest s i = Inr m" using load_manifest_complete [OF assms(1-3,5,6)] by blast
  obtain q where q: "artifact_id m = i" "(i, q) \<in> abs_store s" "claims (io_hashes (st_io s)) (store_algo s) m q"
      "reads_as (st_io s) (lfs_view (w_drv ?w)) (sq_blobs (w_idx ?w)) m q"
    using load_manifest_sound [OF assms(1) m] by blast
  have qp: "q = p" by (rule abs_store_functional [OF assms(1) q(2) assms(5)])
  note k = store_invD [OF assms(1) io]
  have "\<exists>inner. open_handle (st_io s) (w_idx ?w) m = Inr inner"
  proof (cases "blob_storage m = layout_inline")
    case False
    then obtain b where b: "blob_storage m = layout_target" "sq_blobs (w_idx ?w) (primary_blob_ref m) = Some b"
      using q(4) by (auto simp: reads_as_def)
    then show ?thesis using rsqx.irel_resolve [OF assms(3) sqx.ibl_key [OF k(2) b(2)]] False by (simp add: open_handle_def io)
  qed (simp add: open_handle_def)
  then obtain inner where inner: "open_handle (st_io s) (w_idx ?w) m = Inr inner" by blast
  have t: "handle_manifest inner = m" "handle_total (st_io s) (w_drv ?w) inner = (p, ErrEOF)"
    using lst.open_handle_total(1,3) [OF k q(4) [unfolded io] inner [unfolded io]] rlfs.rel_get [OF assms(2)] by (simp_all add: io qp)
  let ?v = "should_verify_on_read (cf_verify_on_read (session_config s)) (pipeline m) (st_native_checksum s) (io_transformers (st_io s))"
  have g: "get None i s = (if ?v then wrap_verifying (io_hashes (st_io s)) inner else Inr inner)"
    using m q(1) inner assms(4,6) by (simp add: get_def enter_read_def guard_handleless_def)
  obtain rh' where "wrap_verifying (io_hashes (st_io s)) inner = Inr rh'" "handle_total (st_io s) (w_drv ?w) rh' = (p, ErrEOF)"
    using wrap_claimed [OF _ t(2), of "io_hashes (st_io s)" "store_algo s"] t(1) q(3) qp by blast
  then obtain rh where rh: "get None i s = Inr rh" "handle_total (st_io s) (w_drv ?w) rh = (p, ErrEOF)"
    using g t(2) by (cases ?v) simp_all
  have "drain (\<lambda>rh n. handle_read (st_io s) (w_drv ?w) n rh) rh ns = (p, Some ErrEOF)"
    if "(\<forall>n \<in> set ns. 0 < n) \<and> length p < length ns" for ns
    using drain_handle [of ns "st_io s" "w_drv ?w" rh] that rh(2) by simp
  then show ?thesis using rh(1) by blast
qed

text \<open>C3: \<^verbatim>\<open>Get\<close> serves every artifact held: when the driver and the index do not fail and the gate is open, the handle
  of an artifact held is returned, and reading it to the end, with reads of any sizes, delivers its payload and
  then the end of the stream, under every verification policy.\<close>

theorem get_complete:
  assumes "store_inv h s" "lfs_rel (w_drv (st_world s))" "index_rel (w_idx (st_world s))" "check_operational s = None"
    and "(i, p) \<in> abs_store s" "i \<noteq> []"
  shows "\<exists>rh. get None i s = Inr rh \<and> (\<forall>ns. (\<forall>n \<in> set ns. 0 < n) \<and> length p < length ns \<longrightarrow>
    drain (\<lambda>rh n. handle_read (st_io s) (w_drv (st_world s)) n rh) rh ns = (p, Some ErrEOF))"
  by (rule get_serves [OF assms])

subsection \<open>Delete\<close>

definition without :: "string set \<Rightarrow> (string \<times> bytes) set \<Rightarrow> (string \<times> bytes) set" where
  "without is A = {x \<in> A. fst x \<notin> is}"


lemma lfs_remove_exact:
  assumes "lfs_inv d" "clean_path p" "lfs_remove d p = (x, d')"
  shows "lfs_inv d' \<and> (x = Inr () \<and> lfs_view d' = (lfs_view d)(p := None) \<or> x \<noteq> Inr () \<and> x \<noteq> Inl ErrNotExist \<and> lfs_view d' = lfs_view d)"
proof -
  have "lfs_inv d'" using lfs.inv_keep(2) [OF assms(1), of p] assms(3) by simp
  moreover have "fault_err f \<noteq> ErrNotExist" for f by (cases f) (simp_all add: fault_err_def)
  ultimately show ?thesis using lfs_remove_cases [of d p] assms by (auto simp: lfs_inv_def)
qed

lemma delete_cases:
  assumes "store_inv h s" "delete ctx now i s = (r, s')"
  obtains (refused) e where "r = Inl e" "s' = s"
  | (stuck) e d where "r = Inl e" "s' = s \<lparr> st_world := st_world s \<lparr> w_drv := d \<rparr> \<rparr>" "lfs_inv d"
      "lfs_view d = lfs_view (w_drv (st_world s))" "lfs_rel (w_drv (st_world s)) \<longrightarrow> lfs_rel d"
  | (removed) m mp d x ix where "load_manifest s i = Inr m" "\<not> retained m now" "cf_deletion_policy (st_active s) \<noteq> DeletionNoDelete"
      "manifest_path (digest m) = Inr mp" "lfs_inv d" "lfs_view d = (lfs_view (w_drv (st_world s)))(mp := None)"
      "si_delete_manifest sqlite_index (digest m) (w_idx (st_world s)) = (x, ix)" "r = x"
      "s' = s \<lparr> st_world := st_world s \<lparr> w_drv := d, w_idx := ix \<rparr> \<rparr> \<or> s' = publish (EvArtifactDeleted i) (s \<lparr> st_world := st_world s \<lparr> w_drv := d, w_idx := ix \<rparr> \<rparr>)"
      "lfs_rel (w_drv (st_world s)) \<longrightarrow> lfs_rel d"
proof -
  obtain H T J C where io: "st_io s = local_io H T J C" using assms(1) by (auto simp: store_inv_def)
  show thesis
  proof (cases "enter_write ctx s = None \<and> (\<exists>m mp. load_manifest s i = Inr m \<and> guard_handleless m = None \<and> \<not> retained m now
      \<and> cf_deletion_policy (st_active s) \<noteq> DeletionNoDelete \<and> manifest_path (digest m) = Inr mp)")
    case False
    then have "\<exists>e. r = Inl e \<and> s' = s" using assms(2) by (auto simp: delete_def split: option.splits sum.splits if_splits)
    then show ?thesis using refused by blast
  next
    case True
    then obtain m mp where m: "load_manifest s i = Inr m" "guard_handleless m = None" "\<not> retained m now"
        "cf_deletion_policy (st_active s) \<noteq> DeletionNoDelete" "manifest_path (digest m) = Inr mp" by blast
    have "wf_ref (digest m)" using load_manifest_sound [OF assms(1) m(1)] by blast
    then have cl: "clean_path mp" using clean_manifest_path m(5) by blast
    obtain y d where y: "lfs_remove (w_drv (st_world s)) mp = (y, d)" by fastforce
    note ex = lfs_remove_exact [OF store_invD(1) [OF assms(1) io] cl y]
    have rl: "lfs_rel (w_drv (st_world s)) \<longrightarrow> lfs_rel d" using rlfs.rel_keep(2) [of "w_drv (st_world s)" mp] cl y by auto
    obtain x ix where x: "si_delete_manifest sqlite_index (digest m) (w_idx (st_world s)) = (x, ix)" by fastforce
    show ?thesis
    proof (cases "y = Inr ()")
      case True
      have "r = x \<and> (s' = s \<lparr> st_world := st_world s \<lparr> w_drv := d, w_idx := ix \<rparr> \<rparr> \<or> s' = publish (EvArtifactDeleted i) (s \<lparr> st_world := st_world s \<lparr> w_drv := d, w_idx := ix \<rparr> \<rparr>))"
        using assms(2) \<open>enter_write ctx s = None \<and> _\<close> m y x True by (cases x) (simp_all add: delete_def io Let_def)
      then show ?thesis using removed [OF m(1,3-5) _ _ x] ex True rl by blast
    next
      case False
      then have "\<exists>e. r = Inl e" "s' = s \<lparr> st_world := st_world s \<lparr> w_drv := d \<rparr> \<rparr>"
        using assms(2) \<open>enter_write ctx s = None \<and> _\<close> m y ex by (cases y; auto simp: delete_def io Let_def)+
      then show ?thesis using stuck ex False rl by blast
    qed
  qed
qed

lemma delete_step:
  assumes "store_inv h s" "delete ctx now i s = (r, s')"
  shows "store_inv h s' \<and> (abs_store s' = abs_store s \<or> abs_store s' = without {i} (abs_store s))
    \<and> (r = Inr () \<longrightarrow> abs_store s' = without {i} (abs_store s))
    \<and> (cf_deletion_policy (st_active s) = DeletionNoDelete \<or> (\<exists>m. load_manifest s i = Inr m \<and> retained m now) \<longrightarrow>
         r \<noteq> Inr () \<and> abs_store s' = abs_store s)"
  using assms
proof (cases rule: delete_cases)
  case (refused e)
  then show ?thesis using assms(1) by simp
next
  case (stuck e d)
  have "store_frame s (st_world s \<lparr> w_drv := d \<rparr>)" using stuck(3,4) by (simp add: store_frame_def)
  then show ?thesis using store_frame_keeps [OF assms(1)] stuck(1,2) by simp
next
  case (removed m mp d x ix)
  obtain H T J C where io: "st_io s = local_io H T J C" using assms(1) by (auto simp: store_inv_def)
  note k = store_invD [OF assms(1) io]
  obtain rw where rw: "sq_manifests (w_idx (st_world s)) (digest m) = Some rw" "im_aid rw = Some i" "wf_ref (digest m)"
    using load_manifest_sound [OF assms(1) removed(1)] by blast
  let ?s = "s \<lparr> st_world := st_world s \<lparr> w_drv := d, w_idx := ix \<rparr> \<rparr>"
  have sp: "index_wf ix \<and> sound (local_io H T J C) (store_keys s) (session_config s) h (lfs_view d) (sq_manifests ix) (sq_blobs ix)
    \<and> (\<forall>a' q. holds (local_io H T J C) (store_keys s) (store_algo s) (lfs_view d) (sq_manifests ix) (sq_blobs ix) a' q
        \<longleftrightarrow> holds (local_io H T J C) (store_keys s) (store_algo s) (lfs_view (w_drv (st_world s))) (sq_manifests (w_idx (st_world s)))
             (sq_blobs (w_idx (st_world s))) a' q \<and> a' \<noteq> i)"
    using lst.delete_row_spec [OF k(2,3) removed(4) rw(3,1,2)] removed(6,7) by simp
  have iv: "store_inv h ?s" using sp removed(5) assms(1) by (simp add: store_inv_def io)
  have ab: "abs_store ?s = without {i} (abs_store s)" using sp by (auto simp: abs_store_def without_def io)
  have "store_inv h s'" "abs_store s' = without {i} (abs_store s)" using removed(9) iv ab publish_blind by metis+
  then show ?thesis using removed(1-3) by auto
qed

text \<open>C4: \<^verbatim>\<open>Delete\<close> refines removal.  Over the local filesystem and the SQLite index, with any schedule of I/O failures, a
  \<^verbatim>\<open>Delete\<close> keeps the store invariant and either leaves the artifacts held as they were or removes exactly the one
  asked for; success means it is gone.  Under the no-delete policy, or while the artifact is under retention,
  it is refused and nothing changes.\<close>

theorem delete_refines:
  assumes "store_inv h s" "delete ctx now i s = (r, s')"
  shows "store_inv h s' \<and> (abs_store s' = abs_store s \<or> abs_store s' = without {i} (abs_store s))
    \<and> (r = Inr () \<longrightarrow> abs_store s' = without {i} (abs_store s))
    \<and> (cf_deletion_policy (st_active s) = DeletionNoDelete \<or> (\<exists>m. load_manifest s i = Inr m \<and> retained m now) \<longrightarrow>
         r \<noteq> Inr () \<and> abs_store s' = abs_store s)"
  by (rule delete_step [OF assms])

subsection \<open>Rollback\<close>



text \<open>Nothing but the retention, the policy and the gate refuses to delete an artifact that can be loaded.\<close>

lemma delete_succeeds:
  assumes "store_inv h s" "lfs_rel (w_drv (st_world s))" "index_rel (w_idx (st_world s))" "check_writable s = None"
    and "load_manifest s i = Inr m" "i \<noteq> []" "\<not> retained m now" "cf_deletion_policy (st_active s) \<noteq> DeletionNoDelete"
  shows "\<exists>s'. delete None now i s = (Inr (), s')"
proof -
  obtain H T J C where io: "st_io s = local_io H T J C" using assms(1) by (auto simp: store_inv_def)
  have a: "artifact_id m = i" "wf_ref (digest m)" "is_hex_ref (digest m)"
    using load_manifest_sound [OF assms(1,5)] sqx.imf_key [OF rsqx.irel_inv [OF assms(3)]] by blast+
  obtain mp where mp: "manifest_path (digest m) = Inr mp" using manifest_path_wf [OF a(2)] by blast
  obtain y d where y: "lfs_remove (w_drv (st_world s)) mp = (y, d)" by fastforce
  obtain x ix where x: "si_delete_manifest sqlite_index (digest m) (w_idx (st_world s)) = (x, ix)" by fastforce
  have "y = Inr ()" "x = Inr ()"
    using rlfs.rel_remove [OF assms(2) clean_manifest_path [OF a(2) mp]] rsqx.irel_delete [OF assms(3) a(3)] x y by simp_all
  then show ?thesis
    using assms(4-8) a(1) mp x y by (simp add: delete_def enter_write_def guard_handleless_def io Let_def)
qed





subsection \<open>A concrete store\<close>

text \<open>An empty store over an empty directory and a fresh index, with inline storage and plain manifests, and a small
  artifact for it.\<close>

definition sample_artifact :: artifact where
  "sample_artifact = \<lparr> ar_payload = Some (''hi'', None), ar_ext = [], ar_usr = [] \<rparr>"

definition sample_opts :: put_options where
  "sample_opts = \<lparr> po_session_id = ''s1'', po_retention_until = 100000000000, po_blob_type = BlobTypeUnset, po_parent_refs = [] \<rparr>"

definition sample_draws :: draws where
  "sample_draws = \<lparr> dr_uuid = ''ab'', dr_nonce = ''n'', dr_seal = sample_nonces, dr_now = 5 \<rparr>"

definition sample_result :: cas_result where
  "sample_result = \<lparr> rs_content_hash = hex_encode (len_hash ''hi''), rs_blob_ref = [], rs_original_size = 2,
     rs_stages = [], rs_inline = Some ''hi'', rs_addr = no_address \<rparr>"

definition sample_meta_hash :: string where
  "sample_meta_hash = hash_format ''sha256'' (len_hash identity_meta_canon_empty)"

definition sample_handle :: string where
  "sample_handle = hash_format ''sha256'' (len_hash (naming_key_public @ len_hash ''hi'' @ len_hash identity_meta_canon_empty @ ''n''))"

definition sample_manifest :: manifest where
  "sample_manifest = put_manifest sample_opts sample_artifact sample_result 5
     \<lparr> artifact_id := sample_handle, identity_meta_hash := sample_meta_hash, identity_nonce := ''n'', hash_algo := ''sha256'' \<rparr>"

definition sample_config :: store_config where
  "sample_config = zero_config \<lparr> cf_content_hasher := HashSHA256, cf_blob_storage := StorageInline, cf_inline_blob_limit := 100,
     cf_manifest_crypto := CryptoPlain, cf_manifest_encoding := EncodingJSON \<rparr>"

definition sample_store :: "(localfs, index_state) store" where
  "sample_store = \<lparr> st_id = ''id'', st_io = local_io sample_registry (\<lambda>_. None) (table_codec [body_of sample_manifest]) const_tag_cipher,
     st_world = \<lparr> w_drv = sample_fs, w_idx = fresh_index \<rparr>, st_native_checksum = False, st_active = sample_config,
     st_overlay = zero_config, st_state = StateUnlocked, st_closed = False, st_maint = MaintNone, st_by_sentinel = False,
     st_substituted = False, st_crypto = \<lparr> cr_dek = [], cr_resolver = None \<rparr>, st_events = [] \<rparr>"

lemma sample_session: "session_config sample_store = sample_config"
  by (simp add: session_config_def sample_store_def sample_config_def merge_session_def zero_config_def)

lemma sample_store_fields [simp]:
  "st_io sample_store = local_io sample_registry (\<lambda>_. None) (table_codec [body_of sample_manifest]) const_tag_cipher"
  "st_world sample_store = \<lparr> w_drv = sample_fs, w_idx = fresh_index \<rparr>" "st_active sample_store = sample_config"
  "crypto_key_provider (st_crypto sample_store) = None" "resolve_write_key_id sample_store = []"
  "with_write_dek sample_store sample_config = Inr []" "check_writable sample_store = None" "check_operational sample_store = None"
  by (simp_all add: sample_store_def crypto_key_provider_def resolve_write_key_id_def with_write_dek_def is_plain_def
      check_writable_def check_operational_def sample_config_def)

lemma sample_algo [simp]: "hasher_name (cf_content_hasher sample_config) = ''sha256''" "sample_registry ''sha256'' = Some len_hash"
  by (simp_all add: sample_config_def hasher_name_def sample_registry_def)

lemma len_hash_wide: "2 \<le> length (len_hash x)" "len_hash x \<noteq> []"
  by (simp_all add: len_hash_def)

lemma sample_materialize:
  "materialize (local_io sample_registry T J C) sample_config (''hi'', None) kid u w = (Inr sample_result, w)"
  by (simp add: materialize_def materialize_inline_def new_hasher_def sample_result_def sample_config_def hasher_name_def
      sample_registry_def Let_def)

definition sample_file :: bytes where
  "sample_file = magic_json @ [CHR 0x00]"

lemma sample_digested:
  "compute_manifest_digest (table_codec [body_of sample_manifest]) const_tag_cipher sample_registry ns sample_manifest ''sha256''
     EncodingJSON CryptoPlain [] [] = Inr (hex_encode (len_hash sample_file), sample_file, sample_manifest \<lparr> digest := hex_encode (len_hash sample_file) \<rparr>)"
proof -
  have a: "sample_manifest \<lparr> hash_algo := ''sha256'' \<rparr> = sample_manifest" by (simp add: sample_manifest_def)
  have v: "validate_slot sample_manifest = Inr ()" "check_ref_limits sample_manifest = Inr ()"
    by (simp_all add: sample_manifest_def put_manifest_def sample_opts_def sample_artifact_def sample_result_def validate_slot_def
        check_ref_limits_def check_handle_refs_def is_system_def limit_defs sample_handle_def hash_format_def)
  show ?thesis
    by (simp add: compute_manifest_digest_def a is_plain_def encode_def v plain_header marshal_body_json_def new_hasher_def
        sample_file_def Let_def)
qed

lemma sample_assemble:
  "assemble_manifest (local_io sample_registry T (table_codec [body_of sample_manifest]) const_tag_cipher) sample_config sample_draws
     sample_artifact sample_opts sample_result [] [] = Inr (sample_manifest \<lparr> digest := hex_encode (len_hash sample_file) \<rparr>, sample_file)"
proof -
  have p: "hash_parse (hash_format ''sha256'' (len_hash x)) = Inr (''sha256'', len_hash x)" for x
    by (rule hash_parse_format) (simp_all add: len_hash_wide)
  have c: "compute_handle sample_registry (put_manifest sample_opts sample_artifact sample_result 5) ''sha256'' naming_key_public ''n''
      = Inr (put_manifest sample_opts sample_artifact sample_result 5 \<lparr> artifact_id := sample_handle, identity_meta_hash := sample_meta_hash, identity_nonce := ''n'' \<rparr>)"
    by (simp add: compute_handle_def handle_of_def new_hasher_def p sample_handle_def sample_meta_hash_def Let_def put_manifest_def
        sample_result_def)
  have m: "compute_manifest_digest J C H ns (put_manifest sample_opts sample_artifact sample_result 5
        \<lparr> artifact_id := sample_handle, identity_meta_hash := sample_meta_hash, identity_nonce := ''n'' \<rparr>) ''sha256'' e cr d k
      = compute_manifest_digest J C H ns sample_manifest ''sha256'' e cr d k" for J C H ns e cr d k
    by (simp add: compute_manifest_digest_def sample_manifest_def)
  have f: "identity_nonce_for (cf_identity_mode sample_config) ''n'' = ''n''" "cf_manifest_encoding sample_config = EncodingJSON"
      "cf_manifest_crypto sample_config = CryptoPlain"
    by (simp_all add: identity_nonce_for_def sample_config_def zero_config_def)
  have w: "dr_nonce sample_draws = ''n''" "dr_now sample_draws = 5" by (simp_all add: sample_draws_def)
  show ?thesis by (simp add: assemble_manifest_def Let_def w f c m sample_digested)
qed

lemma ascii_hash_format: "valid_utf8 (hash_format ''sha256'' b)" "valid_utf8 (hex_encode b)"
proof -
  have "(of_char c :: nat) < 128" if "is_lower_hex c" for c using that by (auto simp: is_lower_hex_def Let_def)
  then have a: "list_all (\<lambda>c. (of_char c :: nat) < 128) (hex_encode b)" using hex_encode_lower unfolding list_all_iff by blast
  then show "valid_utf8 (hex_encode b)" by (rule valid_utf8_ascii)
  have "list_all (\<lambda>c. (of_char c :: nat) < 128) (hash_format ''sha256'' b)" using a by (simp add: hash_format_def)
  then show "valid_utf8 (hash_format ''sha256'' b)" by (rule valid_utf8_ascii)
qed

lemma sample_utf8: "manifest_utf8 (sample_manifest \<lparr> digest := d \<rparr>)"
  by (simp add: manifest_utf8_def sample_manifest_def put_manifest_def sample_opts_def sample_artifact_def sample_result_def
      sample_handle_def sample_meta_hash_def ascii_hash_format layout_inline_def in_range_def)

lemma sample_views [simp]: "lfs_view sample_fs = (\<lambda>_. None)" "sq_manifests fresh_index = (\<lambda>_. None)" "sq_blobs fresh_index = (\<lambda>_. None)"
  using sample_fs_facts(3) by (auto simp: fun_eq_iff sq_manifests_def sq_blobs_def fresh_index_def split: option.splits)

lemma sample_inv: "store_inv len_hash sample_store"
  using sample_fs_facts(2) rsqx.irel_inv [OF fresh_index_rel]
  by (auto simp: store_inv_def sound_def len_hash_wide sample_session)

lemma sample_empty: "abs_store sample_store = {}"
  by (simp add: abs_store_def holds_def)

lemma sample_env: "put_env len_hash (\<lambda>_. True) sample_draws sample_artifact sample_opts ''hi'' sample_store"
proof -
  let ?io = "local_io sample_registry (\<lambda>_. None) (table_codec [body_of sample_manifest]) const_tag_cipher"
  have p: "cf_pipeline sample_config = []" by (simp add: sample_config_def zero_config_def)
  have u: "is_uuid (dr_uuid sample_draws)" by (simp add: sample_draws_def is_uuid_def is_lower_hex_def)
  have c: "clash_free ?io sample_config ''sha256'' [] len_hash (\<lambda>_. None) (\<lambda>_. None) ''hi''"
    by (simp add: clash_free_def no_clash_def)
  have e: "manifest_env ?io sample_config (dr_seal sample_draws) None [] [] (\<lambda>_. True)"
    by (simp add: manifest_env_def table_codec_faithful sample_config_def is_plain_def)
  have f: "fresh_manifest (\<lambda>_. None) (sample_manifest \<lparr> digest := hex_encode (len_hash sample_file) \<rparr>) sample_file"
    by (simp add: fresh_manifest_def sample_utf8 sample_file_def magic_json_def max_manifest_size_def)
  show ?thesis
    unfolding put_env_def Let_def sample_session
    by (simp add: u p c e f sample_materialize sample_assemble stages_good_def plain_blind_def)
qed

lemma index_inline_session:
  assumes "blob_storage m = layout_inline" "digest m = hex_encode k" "k \<noteq> []" "handle_refs m = []" "artifact_id m \<noteq> []"
  shows "get_by_session (session_id m) (snd (index_manifest m a now fresh_index)) = Inr [artifact_id m]"
proof -
  have "hex_key [] = Inr None" by (simp add: hex_key_def)
  then show ?thesis
    using assms(3) by (simp add: assms(1,2,4,5) get_by_session_def index_manifest_def in_tx_def index_manifest_tx_def index_blob_manifest_def
        insert_manifest_row_def fresh_index_def insert_absent_def next_csn_def upd_key_def query_def map_filter_simps Let_def
        del: hex_encode_simps)
qed

lemma sample_row:
  "get_by_session ''s1'' (snd (index_manifest (sample_manifest \<lparr> digest := hex_encode (len_hash sample_file) \<rparr>) no_address 5 fresh_index))
     = Inr [sample_handle]"
proof -
  let ?m = "sample_manifest \<lparr> digest := hex_encode (len_hash sample_file) \<rparr>"
  have "blob_storage ?m = layout_inline" "handle_refs ?m = []" "artifact_id ?m = sample_handle" "session_id ?m = ''s1''"
    by (simp_all add: sample_manifest_def put_manifest_def sample_result_def sample_opts_def)
  moreover have "sample_handle \<noteq> []" by (simp add: sample_handle_def hash_format_nonempty)
  ultimately show ?thesis using index_inline_session [of ?m "len_hash sample_file" no_address 5] len_hash_wide(2) by simp
qed

text \<open>The manifest file written for the artifact.\<close>

lemma sample_decoded:
  "decode_encrypted (table_codec [body_of sample_manifest]) const_tag_cipher sample_file None = Inr (persisted sample_manifest)"
  "verify_manifest_digest sample_registry (hex_encode (len_hash sample_file)) sample_file ''sha256'' = Inr ()"
proof -
  let ?io = "local_io sample_registry (\<lambda>_. None) (table_codec [body_of sample_manifest]) const_tag_cipher"
  have e: "manifest_env ?io sample_config sample_nonces None [] [] (\<lambda>_. True)"
    by (simp add: manifest_env_def table_codec_faithful sample_config_def is_plain_def)
  have u: "manifest_utf8 (sample_manifest \<lparr> hash_algo := ''sha256'' \<rparr>)"
    using sample_utf8 [of "digest sample_manifest"] by (simp add: sample_manifest_def)
  have "cf_manifest_crypto sample_config = CryptoPlain" by (simp add: sample_config_def)
  then show "decode_encrypted (table_codec [body_of sample_manifest]) const_tag_cipher sample_file None = Inr (persisted sample_manifest)"
    "verify_manifest_digest sample_registry (hex_encode (len_hash sample_file)) sample_file ''sha256'' = Inr ()"
    using digest_readable [OF e u, of sample_registry EncodingJSON] sample_digested
    by (simp_all add: sample_file_def magic_json_def max_manifest_size_def sample_registry_def)
qed

lemma sample_put:
  "\<exists>s'. put None sample_draws sample_artifact sample_opts sample_store = (Inr sample_handle, s')
    \<and> lfs_rel (w_drv (st_world s')) \<and> index_rel (w_idx (st_world s')) \<and> check_operational s' = None \<and> check_writable s' = None
    \<and> st_active s' = sample_config \<and> st_io s' = st_io sample_store \<and> st_crypto s' = st_crypto sample_store
    \<and> (\<exists>mp. lfs_view (w_drv (st_world s')) = [mp \<mapsto> sample_file])
    \<and> get_by_session ''s1'' (w_idx (st_world s')) = Inr [sample_handle]"
proof -
  let ?m = "sample_manifest \<lparr> digest := hex_encode (len_hash sample_file) \<rparr>"
  have wf: "wf_ref (digest ?m)" using len_hash_wide(1) by auto
  obtain mp where mp: "manifest_path (digest ?m) = Inr mp" using manifest_path_wf [OF wf] by blast
  have cl: "clean_path mp" by (rule clean_manifest_path [OF wf mp])
  obtain x d where d: "lfs_put sample_fs mp (sample_file, None) False = (x, d)" by fastforce
  have x: "x = Inr ()" "lfs_rel d"
    using rlfs.rel_put [OF sample_fs_facts(1) cl, of "(sample_file, None)" False] rlfs.rel_keep(1) [OF sample_fs_facts(1) cl, of "(sample_file, None)" False] d
    by simp_all
  have ix: "indexable ?m"
    by (simp add: indexable_def indexed_refs_def sample_manifest_def put_manifest_def sample_result_def len_hash_wide)
  obtain y i where i: "si_index_manifest sqlite_index ?m no_address 5 fresh_index = (y, i)" by fastforce
  have vd: "lfs_view d = [mp \<mapsto> sample_file]"
    using lfs.put_ok [OF sample_fs_facts(2) cl, of "(sample_file, None)" False "()" d] d x(1) by simp
  have gs: "get_by_session ''s1'' i = Inr [sample_handle]" using i sample_row by simp
  have y: "y = Inr ()" "index_rel i"
    using rsqx.irel_index [OF fresh_index_rel ix, of no_address 5] rsqx.irel_keep(1) [OF fresh_index_rel, of ?m no_address 5] i by simp_all
  have pe: "persist_manifest (st_io sample_store) ?m sample_file (rs_addr sample_result) (dr_now sample_draws) (st_world sample_store)
      = (Inr (), \<lparr> w_drv = d, w_idx = i \<rparr>)"
    using mp d x i y by (simp add: persist_manifest_def sample_result_def sample_draws_def)
  have g: "guarded_payload sample_config r = r" for r by (simp add: guarded_payload_def sample_config_def zero_config_def)
  have v: "validate_put_inputs (sample_artifact \<lparr> ar_payload := Some (''hi'', None) \<rparr>) sample_opts = None"
      "check_put_supported (st_io sample_store) sample_config sample_opts = None"
    by (simp_all add: validate_put_inputs_def sample_artifact_def sample_opts_def limit_defs check_put_supported_def validate_algos_def
        sample_config_def zero_config_def)
  have a: "sample_artifact \<lparr> ar_payload := Some (''hi'', None) \<rparr> = sample_artifact" "artifact_id ?m = sample_handle"
      "ar_payload sample_artifact = Some (''hi'', None)"
    by (simp_all add: sample_artifact_def sample_manifest_def)
  have "put None sample_draws sample_artifact sample_opts sample_store
      = (Inr sample_handle, publish (EvManifestSaved ?m) (sample_store \<lparr> st_world := \<lparr> w_drv = d, w_idx = i \<rparr> \<rparr>))"
    using put_go [of None sample_store sample_artifact "(''hi'', None)" sample_opts sample_draws sample_result "st_world sample_store" "[]" ?m sample_file
        "()" "\<lparr> w_drv = d, w_idx = i \<rparr>"] pe v a g
    by (simp add: enter_write_def sample_session sample_materialize sample_assemble)
  then show ?thesis
    using x(2) y(2) vd gs by (auto simp: check_operational_def check_writable_def publish_def sample_store_def)
qed

theorem put_refines_witness:
  "\<exists>s'. put None sample_draws sample_artifact sample_opts sample_store = (Inr sample_handle, s') \<and> abs_store s' = {(sample_handle, ''hi'')}"
proof -
  have "guarded_payload (session_config sample_store) (''hi'', None) = (''hi'', None)"
    by (simp add: sample_session guarded_payload_def sample_config_def zero_config_def)
  then show ?thesis
    using sample_put put_refines [OF sample_inv sample_env] sample_empty by (auto simp: sample_artifact_def)
qed

definition sample_stored :: "(localfs, index_state) store" where
  "sample_stored = snd (put None sample_draws sample_artifact sample_opts sample_store)"

lemma sample_stored_facts:
  "store_inv len_hash sample_stored" "abs_store sample_stored = {(sample_handle, ''hi'')}"
  "lfs_rel (w_drv (st_world sample_stored))" "index_rel (w_idx (st_world sample_stored))"
  "check_operational sample_stored = None" "sample_handle \<noteq> []" "check_writable sample_stored = None"
  "cf_deletion_policy (st_active sample_stored) \<noteq> DeletionNoDelete"
  "get_by_session ''s1'' (w_idx (st_world sample_stored)) = Inr [sample_handle]"
proof -
  obtain s' where s': "put None sample_draws sample_artifact sample_opts sample_store = (Inr sample_handle, s')"
      "lfs_rel (w_drv (st_world s'))" "index_rel (w_idx (st_world s'))" "check_operational s' = None" "check_writable s' = None"
      "st_active s' = sample_config" "get_by_session ''s1'' (w_idx (st_world s')) = Inr [sample_handle]"
    using sample_put by blast
  have "guarded_payload (session_config sample_store) (''hi'', None) = (''hi'', None)"
    by (simp add: sample_session guarded_payload_def sample_config_def zero_config_def)
  then show "store_inv len_hash sample_stored" "abs_store sample_stored = {(sample_handle, ''hi'')}"
    using put_step [OF sample_inv sample_env _ _ s'(1), of "(''hi'', None)"] sample_empty s'(1)
    by (simp_all add: sample_artifact_def sample_stored_def)
  show "lfs_rel (w_drv (st_world sample_stored))" "index_rel (w_idx (st_world sample_stored))" "check_operational sample_stored = None"
    "check_writable sample_stored = None" "get_by_session ''s1'' (w_idx (st_world sample_stored)) = Inr [sample_handle]"
    using s' by (simp_all add: sample_stored_def)
  show "cf_deletion_policy (st_active sample_stored) \<noteq> DeletionNoDelete"
    using s'(1,6) by (simp add: sample_stored_def sample_config_def zero_config_def)
  show "sample_handle \<noteq> []" by (simp add: sample_handle_def hash_format_nonempty)
qed

text \<open>It is under retention up to second 100.\<close>

lemma sample_stored_loads:
  obtains m where "load_manifest sample_stored sample_handle = Inr m" "retention_until m = 100000000000"
proof -
  obtain m where m: "load_manifest sample_stored sample_handle = Inr m"
    using load_manifest_complete [OF sample_stored_facts(1,3,4) _ sample_stored_facts(6), of "''hi''"] sample_stored_facts(2) by auto
  obtain mp where s: "lfs_view (w_drv (st_world sample_stored)) = [mp \<mapsto> sample_file]" "st_io sample_stored = st_io sample_store"
      "st_crypto sample_stored = st_crypto sample_store"
    using sample_put by (auto simp: sample_stored_def)
  obtain dg m0 where dg: "load_manifest_by_digest (st_io sample_store) (w_drv (st_world sample_stored)) dg None
      (hasher_name (cf_content_hasher (st_active sample_stored))) = Inr m0" "m = m0 \<lparr> artifact_id := sample_handle \<rparr>"
    using m s(2,3) by (auto simp: load_manifest_def cas_load_def split: if_splits sum.splits option.splits)
  obtain q fb m1 where q: "manifest_path dg = Inr q" "lfs_get (w_drv (st_world sample_stored)) q = Inr fb"
      "decode_encrypted (table_codec [body_of sample_manifest]) const_tag_cipher fb None = Inr m1" "m0 = m1 \<lparr> digest := dg \<rparr>"
    using dg(1) by (auto simp: load_manifest_by_digest_def Let_def split: sum.splits if_splits)
  have "wf_ref dg" using load_manifest_sound [OF sample_stored_facts(1) m] dg(2) q(4) by auto
  then have "lfs_view (w_drv (st_world sample_stored)) q = Some fb"
    using lfs.get_ok [OF lfs_rel_inv [OF sample_stored_facts(3)] clean_manifest_path [OF _ q(1)]] q(2) by simp
  then have "fb = sample_file" using s(1) by (simp split: if_splits)
  then have "m1 = persisted sample_manifest" using q(3) sample_decoded(1) by simp
  then have "retention_until m = 100000000000"
    using dg(2) q(4) by (simp add: persisted_def sample_manifest_def put_manifest_def sample_opts_def trunc_second_def second_def)
  then show thesis using that m by blast
qed

theorem get_complete_witness:
  "\<exists>rh. get None sample_handle sample_stored = Inr rh
    \<and> drain (\<lambda>rh n. handle_read (st_io sample_stored) (w_drv (st_world sample_stored)) n rh) rh [1, 1, 1] = (''hi'', Some ErrEOF)"
proof -
  obtain rh where rh: "get None sample_handle sample_stored = Inr rh"
      "\<forall>ns. (\<forall>n \<in> set ns. 0 < n) \<and> length ''hi'' < length ns \<longrightarrow>
        drain (\<lambda>rh n. handle_read (st_io sample_stored) (w_drv (st_world sample_stored)) n rh) rh ns = (''hi'', Some ErrEOF)"
    using get_complete [OF sample_stored_facts(1,3,4,5) _ sample_stored_facts(6), of "''hi''"] sample_stored_facts(2) by auto
  then show ?thesis using rh(2) [rule_format, of "[1, 1, 1]"] by (intro exI [of _ rh]) (simp del: drain.simps)
qed

theorem get_refines_witness:
  "\<exists>rh. get None sample_handle sample_stored = Inr rh
    \<and> drain (\<lambda>rh n. handle_read (st_io sample_stored) (w_drv (st_world sample_stored)) n rh) rh [1, 1, 1] = (''hi'', Some ErrEOF)
    \<and> (sample_handle, ''hi'') \<in> abs_store sample_stored"
proof -
  obtain rh where rh: "get None sample_handle sample_stored = Inr rh"
      "\<forall>ns. (\<forall>n \<in> set ns. 0 < n) \<and> length ''hi'' < length ns \<longrightarrow>
        drain (\<lambda>rh n. handle_read (st_io sample_stored) (w_drv (st_world sample_stored)) n rh) rh ns = (''hi'', Some ErrEOF)"
    using get_serves [OF sample_stored_facts(1,3,4,5) _ sample_stored_facts(6), of "''hi''"] sample_stored_facts(2) by auto
  have d: "drain (\<lambda>rh n. handle_read (st_io sample_stored) (w_drv (st_world sample_stored)) n rh) rh [1, 1, 1] = (''hi'', Some ErrEOF)"
    by (rule rh(2) [rule_format]) simp
  from get_refines [OF sample_stored_facts(1) rh(1) _ d] show ?thesis using rh(1) d by simp
qed

text \<open>At second 0 the artifact is under retention, at second 200 it is not.\<close>

theorem delete_refines_witness:
  "(\<exists>e s'. delete None 9 sample_handle sample_stored = (Inl e, s') \<and> abs_store s' = {(sample_handle, ''hi'')})
   \<and> (\<exists>s'. delete None 200000000000 sample_handle sample_stored = (Inr (), s') \<and> store_inv len_hash s' \<and> abs_store s' = {})"
proof -
  obtain m where m: "load_manifest sample_stored sample_handle = Inr m" "retention_until m = 100000000000"
    by (rule sample_stored_loads)
  obtain r s1 where d1: "delete None 9 sample_handle sample_stored = (r, s1)" by fastforce
  have "r \<noteq> Inr ()" "abs_store s1 = {(sample_handle, ''hi'')}"
    using delete_refines [OF sample_stored_facts(1) d1] m sample_stored_facts(2) by (simp_all add: retained_def)
  moreover obtain s2 where d2: "delete None 200000000000 sample_handle sample_stored = (Inr (), s2)"
    using delete_succeeds [OF sample_stored_facts(1,3,4,7) m(1) sample_stored_facts(6) _ sample_stored_facts(8), of 200000000000] m(2)
    by (auto simp: retained_def)
  moreover have "store_inv len_hash s2" "abs_store s2 = {}"
    using delete_refines [OF sample_stored_facts(1) d2] sample_stored_facts(2) by (auto simp: without_def)
  ultimately show ?thesis using d1 by (cases r) auto
qed




end
