(* ===== verification/Gc.thy ===== *)
theory Gc
  imports Store_Spec
begin

text \<open>
  The garbage collector (\<^verbatim>\<open>engine/agent/gc\<close>): one cycle marks the orphan blobs, marks the blob files the
  index has never heard of, and sweeps the tombstones whose grace period has passed.  The phases run over any driver
  and index that keep their contracts, so their safety is proved once in the locale of the content layer.

  A cycle never touches what a live artifact needs (\<open>gc_cycle_safe\<close>), and it reaps an orphan whose file
  is older than the grace period at once (\<open>gc_reaps_old\<close>): the marker keeps the modification time of the
  file, so the grace period does not start with the mark.  A write that deduplicates onto an orphan after it was
  marked gets an address without a file (\<open>dedup_onto_tombstone\<close>).

  The context is consulted at numbered points: \<open>ctx k\<close> is what the \<open>k\<close>-th consultation reports.
\<close>

definition lease_required :: "gc_lease_policy \<Rightarrow> bool" where
  "lease_required p = (p = GCLeaseLeaderElection)"

record gc_stats =
  gs_scanned :: int
  gs_marked :: int
  gs_removed :: int
  gs_freed :: int

definition no_stats :: gc_stats where
  "no_stats = \<lparr> gs_scanned = 0, gs_marked = 0, gs_removed = 0, gs_freed = 0 \<rparr>"

definition gc_stats_map :: "gc_stats \<Rightarrow> (string \<times> int) list" where
  "gc_stats_map s = [(''scanned_blobs'', gs_scanned s), (''marked_blobs'', gs_marked s),
     (''removed_blobs'', gs_removed s), (''freed_bytes'', gs_freed s)]"

text \<open>A running cycle: the world, the statistics, the blobs reported as physically deleted and the number of
  context consultations so far.\<close>

record ('d, 'i) gc_run =
  gr_world :: "('d, 'i) world"
  gr_stats :: gc_stats
  gr_deleted :: "string list"
  gr_tick :: nat

type_synonym contexts = "nat \<Rightarrow> err option"

definition is_ctx_err :: "err \<Rightarrow> bool" where
  "is_ctx_err e = (e = ErrContext)"

fun first_non_ctx_err :: "err option list \<Rightarrow> err option" where
  "first_non_ctx_err [] = None"
| "first_non_ctx_err (e # es) = (case e of Some x \<Rightarrow> if is_ctx_err x then first_non_ctx_err es else Some x
     | None \<Rightarrow> first_non_ctx_err es)"

subsection \<open>Listing the orphans\<close>

text \<open>The callback consults the context for every row; a cancelled context ends the listing with its error.\<close>

fun collect_refs :: "contexts \<Rightarrow> nat \<Rightarrow> 'a list \<Rightarrow> 'a list \<times> err option \<times> nat" where
  "collect_refs ctx k [] = ([], None, k)"
| "collect_refs ctx k (x # xs) =
     (case ctx k of
        Some e \<Rightarrow> ([], Some e, Suc k)
      | None \<Rightarrow> (case collect_refs ctx (Suc k) xs of (ys, e, k') \<Rightarrow> (x # ys, e, k')))"

definition list_orphans ::
    "('d, 'i) cas_io \<Rightarrow> contexts \<Rightarrow> ('d, 'i) gc_run \<Rightarrow> string list \<times> err option \<times> ('d, 'i) gc_run" where
  "list_orphans io ctx s =
     (case si_list_orphan_blobs (io_index io) (w_idx (gr_world s)) of
        Inl e \<Rightarrow> ([], Some e, s)
      | Inr rs \<Rightarrow> (case collect_refs ctx (gr_tick s) rs of (ys, e, k) \<Rightarrow> (ys, e, s \<lparr> gr_tick := k \<rparr>)))"

text \<open>The loop shared by the phases: a step that reports an error ends it.\<close>

fun gc_loop :: "('a \<Rightarrow> 's \<Rightarrow> err option \<times> 's) \<Rightarrow> 'a list \<Rightarrow> 's \<Rightarrow> err option \<times> 's" where
  "gc_loop f [] s = (None, s)"
| "gc_loop f (x # xs) s =
     (case f x s of (Some e, s') \<Rightarrow> (Some e, s') | (None, s') \<Rightarrow> gc_loop f xs s')"

definition set_drv :: "'d \<Rightarrow> ('d, 'i) gc_run \<Rightarrow> ('d, 'i) gc_run" where
  "set_drv d s = s \<lparr> gr_world := gr_world s \<lparr> w_drv := d \<rparr> \<rparr>"

definition set_idx :: "'i \<Rightarrow> ('d, 'i) gc_run \<Rightarrow> ('d, 'i) gc_run" where
  "set_idx i s = s \<lparr> gr_world := gr_world s \<lparr> w_idx := i \<rparr> \<rparr>"

definition count_scanned :: "('d, 'i) gc_run \<Rightarrow> ('d, 'i) gc_run" where
  "count_scanned s = s \<lparr> gr_stats := gr_stats s \<lparr> gs_scanned := gs_scanned (gr_stats s) + 1 \<rparr> \<rparr>"

definition count_marked :: "('d, 'i) gc_run \<Rightarrow> ('d, 'i) gc_run" where
  "count_marked s = s \<lparr> gr_stats := gr_stats s \<lparr> gs_marked := gs_marked (gr_stats s) + 1 \<rparr> \<rparr>"

definition count_removed :: "string \<Rightarrow> int \<Rightarrow> ('d, 'i) gc_run \<Rightarrow> ('d, 'i) gc_run" where
  "count_removed ref n s = s \<lparr>
     gr_stats := gr_stats s \<lparr> gs_removed := gs_removed (gr_stats s) + 1, gs_freed := gs_freed (gr_stats s) + n \<rparr>,
     gr_deleted := gr_deleted s @ [ref] \<rparr>"

subsection \<open>Mark\<close>

text \<open>A transient driver error skips the blob; only a cancelled context ends the loop.\<close>

definition mark_path :: "('d, 'i) cas_io \<Rightarrow> path \<Rightarrow> ('d, 'i) gc_run \<Rightarrow> err option \<times> ('d, 'i) gc_run" where
  "mark_path io p s =
     (case d_mark_tombstone (io_drv io) (w_drv (gr_world s)) p of
        (Inl e, d) \<Rightarrow> (if is_ctx_err e then Some e else None, set_drv d s)
      | (Inr _, d) \<Rightarrow> (None, count_marked (set_drv d s)))"

definition mark_step :: "('d, 'i) cas_io \<Rightarrow> contexts \<Rightarrow> string \<Rightarrow> ('d, 'i) gc_run \<Rightarrow> err option \<times> ('d, 'i) gc_run" where
  "mark_step io ctx ref s =
     (case ctx (gr_tick s) of
        Some e \<Rightarrow> (Some e, s)
      | None \<Rightarrow>
     let s1 = count_scanned (s \<lparr> gr_tick := Suc (gr_tick s) \<rparr>) in
     case si_resolve (io_index io) ref (w_idx (gr_world s1)) of
        Inl e \<Rightarrow> (if e = ErrArtifactNotFound then None else Some e, s1)
      | Inr addr \<Rightarrow> if pa_path addr = [] then (None, s1) else mark_path io (pa_path addr) s1)"

definition mark :: "('d, 'i) cas_io \<Rightarrow> contexts \<Rightarrow> ('d, 'i) gc_run \<Rightarrow> err option \<times> ('d, 'i) gc_run" where
  "mark io ctx s =
     (case list_orphans io ctx s of
        (refs, list_err, s0) \<Rightarrow>
          (case gc_loop (mark_step io ctx) refs s0 of
             (Some e, s') \<Rightarrow> (Some e, s')
           | (None, s') \<Rightarrow> (list_err, s')))"

subsection \<open>Media reconciliation\<close>

definition unknown_file :: "('d, 'i) cas_io \<Rightarrow> 'i \<Rightarrow> path \<Rightarrow> bool" where
  "unknown_file io i p =
     (case ref_from_blob_path p of
        Inl _ \<Rightarrow> False
      | Inr ref \<Rightarrow> si_resolve (io_index io) ref i = Inl ErrArtifactNotFound)"

definition media_step :: "('d, 'i) cas_io \<Rightarrow> contexts \<Rightarrow> path \<Rightarrow> ('d, 'i) gc_run \<Rightarrow> err option \<times> ('d, 'i) gc_run" where
  "media_step io ctx p s =
     (case ctx (gr_tick s) of
        Some e \<Rightarrow> (Some e, s)
      | None \<Rightarrow>
     let s1 = s \<lparr> gr_tick := Suc (gr_tick s) \<rparr> in
     if d_is_tombstone (io_drv io) (w_drv (gr_world s1)) p = Inr True then (None, s1)
     else mark_path io p s1)"

definition reconcile_media :: "('d, 'i) cas_io \<Rightarrow> contexts \<Rightarrow> bool \<Rightarrow> ('d, 'i) gc_run \<Rightarrow> err option \<times> ('d, 'i) gc_run" where
  "reconcile_media io ctx complete s =
     (if \<not> complete then (None, s)
      else case d_list (io_drv io) (w_drv (gr_world s)) ''blobs'' 0 of
        Inl e \<Rightarrow> (Some e, s)
      | Inr ms \<Rightarrow>
     (case collect_refs ctx (gr_tick s) (map om_path ms) of
        (_, Some e, k) \<Rightarrow> (Some e, s \<lparr> gr_tick := k \<rparr>)
      | (ps, None, k) \<Rightarrow>
          gc_loop (media_step io ctx) (filter (unknown_file io (w_idx (gr_world s))) ps) (s \<lparr> gr_tick := k \<rparr>)))"

subsection \<open>Sweep\<close>

definition within_grace :: "int \<Rightarrow> time \<Rightarrow> time \<Rightarrow> bool" where
  "within_grace grace now mt = (grace > 0 \<and> int now - int mt < grace)"

definition sweep_blob :: "('d, 'i) cas_io \<Rightarrow> string \<Rightarrow> physical_address \<Rightarrow> ('d, 'i) gc_run \<Rightarrow> err option \<times> ('d, 'i) gc_run" where
  "sweep_blob io ref addr s =
     (case d_remove_tombstone (io_drv io) (w_drv (gr_world s)) (pa_path addr) of
        (Inl e, d) \<Rightarrow> (if is_ctx_err e then Some e else None, set_drv d s)
      | (Inr _, d) \<Rightarrow>
     let s1 = set_drv d s in
     (case si_delete_orphan_blob (io_index io) ref (w_idx (gr_world s1)) of
        (Inl e, i) \<Rightarrow> (if is_ctx_err e then Some e else None, set_idx i s1)
      | (Inr removed, i) \<Rightarrow>
          (None, if removed then count_removed ref (int (pa_size addr)) (set_idx i s1) else set_idx i s1)))"

definition sweep_step ::
    "('d, 'i) cas_io \<Rightarrow> contexts \<Rightarrow> int \<Rightarrow> time \<Rightarrow> string \<Rightarrow> ('d, 'i) gc_run \<Rightarrow> err option \<times> ('d, 'i) gc_run" where
  "sweep_step io ctx grace now ref s =
     (case ctx (gr_tick s) of
        Some e \<Rightarrow> (Some e, s)
      | None \<Rightarrow>
     let s1 = s \<lparr> gr_tick := Suc (gr_tick s) \<rparr> in
     case si_resolve (io_index io) ref (w_idx (gr_world s1)) of
        Inl e \<Rightarrow> (if e = ErrArtifactNotFound then None else Some e, s1)
      | Inr addr \<Rightarrow>
     if pa_path addr = [] then (None, s1)
     else case d_tombstone_info (io_drv io) (w_drv (gr_world s1)) (pa_path addr) of
        Inl e \<Rightarrow> (if is_ctx_err e then Some e else None, s1)
      | Inr (marked, mt) \<Rightarrow>
          if \<not> marked \<or> within_grace grace now mt then (None, s1) else sweep_blob io ref addr s1)"

definition sweep :: "('d, 'i) cas_io \<Rightarrow> contexts \<Rightarrow> int \<Rightarrow> ('d, 'i) gc_run \<Rightarrow> err option \<times> ('d, 'i) gc_run" where
  "sweep io ctx grace s =
     (case list_orphans io ctx s of
        (refs, list_err, s0) \<Rightarrow>
          (case gc_loop (sweep_step io ctx grace (d_now (io_drv io) (w_drv (gr_world s0)))) refs s0 of
             (Some e, s') \<Rightarrow> (Some e, s')
           | (None, s') \<Rightarrow> (list_err, s')))"

subsection \<open>The cycle\<close>

definition gc_start :: "('d, 'i) world \<Rightarrow> ('d, 'i) gc_run" where
  "gc_start w = \<lparr> gr_world = w, gr_stats = no_stats, gr_deleted = [], gr_tick = 0 \<rparr>"

definition run_cycle ::
    "('d, 'i) cas_io \<Rightarrow> contexts \<Rightarrow> int \<Rightarrow> bool \<Rightarrow> ('d, 'i) world \<Rightarrow> err option \<times> ('d, 'i) gc_run" where
  "run_cycle io ctx grace complete w =
     (let s = gc_start w in
      case ctx 0 of
        Some e \<Rightarrow> (Some e, s)
      | None \<Rightarrow>
     (case mark io ctx (s \<lparr> gr_tick := 1 \<rparr>) of (mark_err, s1) \<Rightarrow>
      case reconcile_media io ctx complete s1 of (media_err, s2) \<Rightarrow>
      case sweep io ctx grace s2 of (sweep_err, s3) \<Rightarrow>
        (first_non_ctx_err [mark_err, media_err, sweep_err], s3)))"

subsection \<open>What a cycle keeps\<close>

text \<open>The invariant of the store under collection.  Rows without references may have lost their file; every row still
  names the path of its reference, and the references of a manifest are counted.\<close>

definition live ::
    "('d, 'i) cas_io \<Rightarrow> key_provider option \<Rightarrow> store_config \<Rightarrow> hash_fun \<Rightarrow> (path \<Rightarrow> bytes option) \<Rightarrow> (string \<Rightarrow> ix_manifest option)
      \<Rightarrow> (string \<Rightarrow> ix_blob option) \<Rightarrow> bool" where
  "live io keys cfg h v mf bl =
     ((\<forall>r b. bl r = Some b \<longrightarrow> wf_ref r \<and> blob_path (cf_path_topology cfg) BlobTypeRegular r = Inr (ib_path b)
        \<and> (ib_refs b \<noteq> 0 \<longrightarrow> blob_sound (io_transformers io) (cf_path_topology cfg) (cf_pipeline cfg) h v r b))
      \<and> (\<forall>dg r. mf dg = Some r \<longrightarrow> wf_ref dg \<and> (\<forall>x \<in> set (im_refs r). \<exists>b. bl x = Some b \<and> ib_refs b \<noteq> 0)
          \<and> (\<forall>a. im_aid r = Some a \<longrightarrow>
               stale v dg \<or> (\<exists>p. artifact_row io keys (hasher_name (cf_content_hasher cfg)) v bl dg r p)))
      \<and> (\<forall>dg dg' r r' a. mf dg = Some r \<and> mf dg' = Some r' \<and> im_aid r = Some a \<and> im_aid r' = Some a \<longrightarrow> dg = dg'))"

definition blob_rows :: "path_topology \<Rightarrow> (string \<Rightarrow> ix_blob option) \<Rightarrow> bool" where
  "blob_rows topo bl = (\<forall>r b. bl r = Some b \<longrightarrow> wf_ref r \<and> blob_path topo BlobTypeRegular r = Inr (ib_path b))"

definition tidy :: "(path \<Rightarrow> bool) \<Rightarrow> (path \<Rightarrow> bytes option) \<Rightarrow> bool" where
  "tidy ok v = (v ''blobs'' = None \<and> (\<forall>p. listed_under ''blobs'' p \<and> v p \<noteq> None \<longrightarrow> ok p))"

text \<open>Nothing outside the blob directory changes, the files of referenced blobs stay, and only unreferenced rows go.\<close>

definition gc_frame ::
    "(path \<Rightarrow> bytes option) \<Rightarrow> (string \<Rightarrow> ix_blob option) \<Rightarrow> (path \<Rightarrow> bytes option) \<Rightarrow> (string \<Rightarrow> ix_blob option) \<Rightarrow> bool" where
  "gc_frame v bl v' bl' = ((\<forall>q. \<not> has_prefix q ''blobs/'' \<longrightarrow> v' q = v q)
     \<and> (\<forall>r b. bl r = Some b \<and> ib_refs b \<noteq> 0 \<longrightarrow> v' (ib_path b) = v (ib_path b))
     \<and> (\<forall>r. bl' r = bl r \<or> bl' r = None \<and> (\<exists>b. bl r = Some b \<and> ib_refs b = 0)))"

lemma gc_frame_refl [simp]: "gc_frame v bl v bl"
  by (simp add: gc_frame_def)

lemma gc_frame_row: "gc_frame v bl v' bl' \<Longrightarrow> bl' r = Some b \<Longrightarrow> bl r = Some b"
  unfolding gc_frame_def by (metis option.distinct(1))

lemma gc_frame_live_row: "gc_frame v bl v' bl' \<Longrightarrow> bl r = Some b \<Longrightarrow> ib_refs b \<noteq> 0 \<Longrightarrow> bl' r = Some b"
  unfolding gc_frame_def by (metis option.inject)

lemma gc_frame_trans:
  assumes "gc_frame v bl v' bl'" "gc_frame v' bl' v'' bl''"
  shows "gc_frame v bl v'' bl''"
proof -
  have "v'' (ib_path b) = v (ib_path b)" if b: "bl r = Some b" "ib_refs b \<noteq> 0" for r b
  proof -
    have "bl' r = Some b" using gc_frame_live_row [OF assms(1) b] .
    then show ?thesis using assms b unfolding gc_frame_def by metis
  qed
  moreover have "bl'' r = bl r \<or> bl'' r = None \<and> (\<exists>b. bl r = Some b \<and> ib_refs b = 0)" for r
    using assms unfolding gc_frame_def by metis
  moreover have "v'' q = v q" if "\<not> has_prefix q ''blobs/''" for q
    using assms that unfolding gc_frame_def by metis
  ultimately show ?thesis unfolding gc_frame_def by blast
qed

lemma blob_rows_frame: "blob_rows topo bl \<Longrightarrow> gc_frame v bl v' bl' \<Longrightarrow> blob_rows topo bl'"
  unfolding blob_rows_def using gc_frame_row by blast

lemma live_rows: "live io keys cfg h v mf bl \<Longrightarrow> blob_rows (cf_path_topology cfg) bl"
  unfolding live_def blob_rows_def by blast

lemma manifest_path_prefix: "manifest_path dg = Inr q \<Longrightarrow> \<not> has_prefix q ''blobs/''"
  by (auto simp: manifest_path_def has_prefix_def split: if_splits sum.splits)

lemma primary_in_refs:
  assumes "blob_storage m = layout_target" "wf_ref (primary_blob_ref m)"
  shows "primary_blob_ref m \<in> set (indexed_refs m)"
  using assms wf_ref_facts(1) [OF assms(2)]
  by (auto simp: primary_blob_ref_def indexed_refs_def layout_target_def layout_inline_def split: if_splits list.splits)

lemma artifact_row_gc:
  assumes l: "blob_rows topo bl" "\<forall>x \<in> set (im_refs r). \<exists>b. bl x = Some b \<and> ib_refs b \<noteq> 0" and f: "gc_frame v bl v' bl'"
  shows "artifact_row io keys algo v' bl' dg r p = artifact_row io keys algo v bl dg r p"
proof -
  have s: "stored_as io keys algo v' dg m = stored_as io keys algo v dg m" for m
    by (rule stored_as_frame) (use f manifest_path_prefix in \<open>unfold gc_frame_def, blast\<close>)
  have rd: "reads_as io v' bl' m p = reads_as io v bl m p" if "im_refs r = indexed_refs m" for m
  proof (cases "blob_storage m = layout_target")
    case True
    have e: "bl' (primary_blob_ref m) = bl (primary_blob_ref m)
      \<and> (\<forall>b. bl (primary_blob_ref m) = Some b \<longrightarrow> v' (ib_path b) = v (ib_path b))"
    proof (cases "bl (primary_blob_ref m)")
      case None
      then show ?thesis using gc_frame_row [OF f] by (cases "bl' (primary_blob_ref m)") auto
    next
      case (Some b)
      then have "wf_ref (primary_blob_ref m)" using l(1) unfolding blob_rows_def by blast
      then have "ib_refs b \<noteq> 0" using primary_in_refs [OF True] l(2) that Some by auto
      then show ?thesis using gc_frame_live_row [OF f Some] Some f unfolding gc_frame_def by auto
    qed
    then show ?thesis unfolding reads_as_def by (cases "bl (primary_blob_ref m)") auto
  next
    case False
    then show ?thesis by (simp add: reads_as_def)
  qed
  show ?thesis unfolding artifact_row_def using s rd by blast
qed

lemma stale_gc: "gc_frame v bl v' bl' \<Longrightarrow> stale v' dg = stale v dg"
  unfolding stale_def gc_frame_def using manifest_path_prefix by metis

lemma live_gc:
  assumes "live io keys cfg h v mf bl" "gc_frame v bl v' bl'"
  shows "live io keys cfg h v' mf bl'" "holds io keys (hasher_name (cf_content_hasher cfg)) v' mf bl' a p
    = holds io keys (hasher_name (cf_content_hasher cfg)) v mf bl a p"
proof -
  let ?algo = "hasher_name (cf_content_hasher cfg)"
  have row: "artifact_row io keys ?algo v' bl' dg r = artifact_row io keys ?algo v bl dg r" if "mf dg = Some r" for dg r
    by (rule ext, rule artifact_row_gc [OF live_rows [OF assms(1)] _ assms(2)])
       (use assms(1) that in \<open>unfold live_def, blast\<close>)
  then have "(mf dg = Some r \<and> im_aid r = Some a \<and> artifact_row io keys ?algo v' bl' dg r p)
      = (mf dg = Some r \<and> im_aid r = Some a \<and> artifact_row io keys ?algo v bl dg r p)" for dg r
    by auto
  then show "holds io keys ?algo v' mf bl' a p = holds io keys ?algo v mf bl a p"
    unfolding holds_def by simp
  have bs: "wf_ref r \<and> blob_path (cf_path_topology cfg) BlobTypeRegular r = Inr (ib_path b)
      \<and> (ib_refs b \<noteq> 0 \<longrightarrow> blob_sound (io_transformers io) (cf_path_topology cfg) (cf_pipeline cfg) h v' r b)"
    if b': "bl' r = Some b" for r b
  proof -
    have b: "bl r = Some b" using gc_frame_row [OF assms(2) b'] .
    moreover have "v' (ib_path b) = v (ib_path b)" if "ib_refs b \<noteq> 0" using assms(2) b that unfolding gc_frame_def by blast
    ultimately show ?thesis using assms(1) unfolding live_def blob_sound_def by simp
  qed
  have rf: "\<forall>x \<in> set (im_refs r). \<exists>b. bl' x = Some b \<and> ib_refs b \<noteq> 0" if "mf dg = Some r" for dg r
    using assms(1) that gc_frame_live_row [OF assms(2)] unfolding live_def by metis
  show "live io keys cfg h v' mf bl'"
    using assms(1) bs rf row unfolding live_def stale_gc [OF assms(2)] by simp
qed

subsection \<open>Paths of blobs and markers\<close>

lemma blob_path_shape:
  assumes "wf_ref r" "blob_path tp BlobTypeRegular r = Inr q"
  shows "has_prefix q ''blobs/''" "q \<noteq> []" "CHR ''.'' \<notin> set q" "q \<noteq> tombstone_of p"
proof -
  have e: "q = ''blobs/'' @ r \<or> q = ''blobs/'' @ take 2 r @ ''/'' @ take 2 (drop 2 r) @ ''/'' @ r"
    using assms(2) wf_ref_facts [OF assms(1)]
    by (auto simp: blob_path_def root_for_def shard_of_wf [OF assms(1)] split: path_topology.splits)
  then show "has_prefix q ''blobs/''" "q \<noteq> []" by (auto simp: has_prefix_def)
  have "set (take 2 r) \<subseteq> set r" "set (take 2 (drop 2 r)) \<subseteq> set r"
    by (meson set_take_subset set_drop_subset subset_trans)+
  then show n: "CHR ''.'' \<notin> set q" using e wf_ref_facts(3) [OF assms(1)] by auto
  then show "q \<noteq> tombstone_of p" by (auto simp: tombstone_of_def tombstone_suffix_def)
qed

lemma split_on_tail: "c \<notin> set t \<Longrightarrow> \<exists>ys y. split_on c (x @ t) = ys @ [y @ t]"
proof (induction x)
  case Nil
  then have "split_on c ([] @ t) = [] @ [[] @ t]" by (simp add: split_on_no_sep)
  then show ?case by blast
next
  case (Cons a x)
  then obtain ys y where y: "split_on c (x @ t) = ys @ [y @ t]" by blast
  show ?case
  proof (cases "a = c")
    case True
    then have "split_on c ((a # x) @ t) = ([] # ys) @ [y @ t]" using y by simp
    then show ?thesis by blast
  next
    case False
    show ?thesis
    proof (cases ys)
      case Nil
      then have "split_on c ((a # x) @ t) = [] @ [(a # y) @ t]" using y False by simp
      then show ?thesis by blast
    next
      case (Cons z zs)
      then have "split_on c ((a # x) @ t) = ((a # z) # zs) @ [y @ t]" using y False by simp
      then show ?thesis by blast
    qed
  qed
qed

lemma tombstone_not_listed: "has_prefix p ''blobs/'' \<Longrightarrow> \<not> listed_under ''blobs'' (tombstone_of p)"
proof -
  assume "has_prefix p ''blobs/''"
  then obtain x where x: "p = ''blobs/'' @ x" by (auto simp: has_prefix_conv)
  obtain ys y where "split_on CHR ''/'' (x @ tombstone_suffix) = ys @ [y @ tombstone_suffix]"
    using split_on_tail [of "CHR ''/''" tombstone_suffix] tombstone_no_sep by blast
  then show ?thesis by (auto simp: listed_under_def tombstone_of_def x is_hidden_def)
qed

subsection \<open>Safety of the phases\<close>

lemma gc_loop_rel:
  assumes "\<And>x s. x \<in> set xs \<Longrightarrow> Q s \<Longrightarrow> Q (snd (f x s)) \<and> R s (snd (f x s))"
    and "\<And>s. R s s" "\<And>a b c. R a b \<Longrightarrow> R b c \<Longrightarrow> R a c" "Q s"
  shows "Q (snd (gc_loop f xs s)) \<and> R s (snd (gc_loop f xs s))"
  using assms(1,4)
proof (induction xs arbitrary: s)
  case (Cons x xs)
  obtain e s' where e: "f x s = (e, s')" by fastforce
  then have s': "Q s'" "R s s'" using Cons.prems(1) [of x s] Cons.prems(2) by auto
  show ?case
  proof (cases e)
    case None
    then show ?thesis using Cons.IH [OF _ s'(1)] Cons.prems(1) s'(2) assms(3) e by auto
  qed (use e s' in simp)
qed (simp add: assms(2))

lemma gc_run_simps [simp]:
  "gr_world (count_scanned s) = gr_world s" "gr_world (count_marked s) = gr_world s" "gr_world (count_removed r n s) = gr_world s"
  "w_drv (gr_world (set_drv d s)) = d" "w_idx (gr_world (set_drv d s)) = w_idx (gr_world s)"
  "w_drv (gr_world (set_idx i s)) = w_drv (gr_world s)" "w_idx (gr_world (set_idx i s)) = i"
  by (simp_all add: count_scanned_def count_marked_def count_removed_def set_drv_def set_idx_def)

lemma list_orphans_world: "list_orphans io ctx s = (refs, e, s0) \<Longrightarrow> gr_world s0 = gr_world s"
  by (auto simp: list_orphans_def split: sum.splits prod.splits)

lemma collect_refs_subset: "collect_refs ctx k xs = (ys, e, k') \<Longrightarrow> set ys \<subseteq> set xs"
  by (induction xs arbitrary: k ys e k') (fastforce split: option.splits prod.splits)+

context cas_world
begin

definition gc_ok :: "path_topology \<Rightarrow> ('d, 'i) gc_run \<Rightarrow> bool" where
  "gc_ok topo s = (dinv (w_drv (gr_world s)) \<and> iinv (w_idx (gr_world s)) \<and> blob_rows topo (ibl (w_idx (gr_world s)))
     \<and> tidy ok (view (w_drv (gr_world s))))"

definition gc_rel :: "('d, 'i) gc_run \<Rightarrow> ('d, 'i) gc_run \<Rightarrow> bool" where
  "gc_rel s s' = (imf (w_idx (gr_world s')) = imf (w_idx (gr_world s))
     \<and> gc_frame (view (w_drv (gr_world s))) (ibl (w_idx (gr_world s))) (view (w_drv (gr_world s'))) (ibl (w_idx (gr_world s'))))"

lemma gc_rel_same: "gr_world s' = gr_world s \<Longrightarrow> gc_rel s s'"
  by (simp add: gc_rel_def)

lemma gc_rel_trans: "gc_rel a b \<Longrightarrow> gc_rel b c \<Longrightarrow> gc_rel a c"
  unfolding gc_rel_def using gc_frame_trans by metis

lemma gc_rel_row: "gc_rel s s' \<Longrightarrow> ibl (w_idx (gr_world s')) r = Some b \<Longrightarrow> ibl (w_idx (gr_world s)) r = Some b"
  unfolding gc_rel_def using gc_frame_row by blast

lemma mark_path_step:
  assumes "gc_ok topo s" "ok p" "has_prefix p ''blobs/''"
    and "\<And>r b. ibl (w_idx (gr_world s)) r = Some b \<Longrightarrow> ib_refs b \<noteq> 0 \<Longrightarrow> ib_path b \<noteq> p"
  shows "gc_ok topo (snd (mark_path io p s)) \<and> gc_rel s (snd (mark_path io p s))"
proof -
  let ?d = "w_drv (gr_world s)" and ?bl = "ibl (w_idx (gr_world s))"
  let ?d' = "snd (d_mark_tombstone (io_drv io) ?d p)"
  have w: "w_drv (gr_world (snd (mark_path io p s))) = ?d'" "w_idx (gr_world (snd (mark_path io p s))) = w_idx (gr_world s)"
    by (auto simp: mark_path_def split: prod.splits sum.splits)
  note g = assms(1) [unfolded gc_ok_def]
  have fr: "view ?d' q = view ?d q" if "q \<noteq> p" "q \<noteq> tombstone_of p" for q
    using drv.mark_frame [OF _ assms(2) that] g by blast
  have np: "has_prefix (tombstone_of p) ''blobs/''" using assms(3) by (auto simp: tombstone_of_def has_prefix_conv)
  have "view ?d' (ib_path b) = view ?d (ib_path b)" if b: "?bl r = Some b" "ib_refs b \<noteq> 0" for r b
    using fr [of "ib_path b"] assms(4) [OF b] blob_path_shape(4) b(1) g unfolding blob_rows_def by blast
  moreover have "view ?d' q = view ?d q" if "\<not> has_prefix q ''blobs/''" for q
    using fr [of q] that assms(3) np by metis
  ultimately have f: "gc_frame (view ?d) ?bl (view ?d') ?bl" unfolding gc_frame_def by blast
  have "view ?d' ''blobs'' = view ?d ''blobs''" using f unfolding gc_frame_def by (simp add: has_prefix_def)
  moreover have "ok q" if "listed_under ''blobs'' q" "view ?d' q \<noteq> None" for q
  proof (cases "q = p")
    case False
    then have "view ?d' q = view ?d q" using fr tombstone_not_listed [OF assms(3)] that(1) by metis
    then show ?thesis using g that unfolding tidy_def by auto
  qed (use assms(2) in simp)
  ultimately have "tidy ok (view ?d')" using g unfolding tidy_def by auto
  then show ?thesis using f g drv.inv_keep(4) unfolding gc_ok_def gc_rel_def w by blast
qed

lemma row_path:
  assumes "gc_ok topo s" "is_hex_ref ref" "si_resolve (io_index io) ref (w_idx (gr_world s)) = Inr addr"
  obtains b where "ibl (w_idx (gr_world s)) ref = Some b" "pa_path addr = ib_path b" "ok (ib_path b)"
    "has_prefix (ib_path b) ''blobs/''"
    "\<And>r b'. ibl (w_idx (gr_world s)) r = Some b' \<Longrightarrow> ib_path b' = ib_path b \<Longrightarrow> r = ref"
proof -
  note g = assms(1) [unfolded gc_ok_def blob_rows_def]
  obtain b where b: "ibl (w_idx (gr_world s)) ref = Some b" "pa_path addr = ib_path b"
    using idx.resolve_ok [OF _ assms(2,3)] g by blast
  then have w: "wf_ref ref" "blob_path topo BlobTypeRegular ref = Inr (ib_path b)" using g by blast+
  have "r = ref" if "ibl (w_idx (gr_world s)) r = Some b'" "ib_path b' = ib_path b" for r b'
    using that g w blob_path_inj by metis
  then show thesis using that b ok_blob [OF w] blob_path_shape(1) [OF w] by blast
qed

text \<open>An orphan of the listing: its row, as long as it is there, has no references.\<close>

definition orphan :: "('d, 'i) gc_run \<Rightarrow> string \<Rightarrow> bool" where
  "orphan s r = (is_hex_ref r \<and> (\<forall>b. ibl (w_idx (gr_world s)) r = Some b \<longrightarrow> ib_refs b = 0))"

lemma orphan_rel: "gc_rel s s' \<Longrightarrow> orphan s r \<Longrightarrow> orphan s' r"
  unfolding orphan_def using gc_rel_row by blast

lemma list_orphans_orphan:
  assumes "gc_ok topo s" "list_orphans io ctx s = (refs, e, s0)" "r \<in> set refs"
  shows "orphan s0 r"
proof -
  obtain rs where rs: "si_list_orphan_blobs (io_index io) (w_idx (gr_world s)) = Inr rs" "set refs \<subseteq> set rs"
    using assms(2,3) by (auto simp: list_orphans_def split: sum.splits prod.splits dest: collect_refs_subset)
  have i: "iinv (w_idx (gr_world s))" using assms(1) by (simp add: gc_ok_def)
  then obtain b where "ibl (w_idx (gr_world s)) r = Some b" "ib_refs b = 0"
    using idx.orphans_ok [OF i rs(1)] rs(2) assms(3) by auto
  then show ?thesis using idx.ibl_key [OF i] list_orphans_world [OF assms(2)] by (simp add: orphan_def)
qed

lemma mark_step_safe:
  assumes "gc_ok topo s" "orphan s ref"
  shows "gc_ok topo (snd (mark_step io ctx ref s)) \<and> gc_rel s (snd (mark_step io ctx ref s))"
proof -
  let ?s = "count_scanned (s \<lparr> gr_tick := Suc (gr_tick s) \<rparr>)"
  have s: "gc_ok topo ?s" "gc_rel s ?s" using assms(1) by (simp_all add: gc_ok_def gc_rel_same)
  have "gc_ok topo (snd (mark_path io (pa_path addr) ?s)) \<and> gc_rel s (snd (mark_path io (pa_path addr) ?s))"
    if a: "si_resolve (io_index io) ref (w_idx (gr_world s)) = Inr addr" for addr
  proof -
    obtain b where b: "ibl (w_idx (gr_world s)) ref = Some b" "pa_path addr = ib_path b" "ok (ib_path b)"
        "has_prefix (ib_path b) ''blobs/''" "\<And>r b'. ibl (w_idx (gr_world s)) r = Some b' \<Longrightarrow> ib_path b' = ib_path b \<Longrightarrow> r = ref"
      using row_path [OF assms(1) _ a] assms(2) unfolding orphan_def by metis
    have "ib_refs b = 0" using assms(2) b(1) unfolding orphan_def by blast
    then have "ib_path b' \<noteq> ib_path b" if "ibl (w_idx (gr_world ?s)) r = Some b'" "ib_refs b' \<noteq> 0" for r b'
      using b(1) b(5) [of r b'] that by auto
    from mark_path_step [OF s(1) b(3,4) this] show ?thesis using s(2) gc_rel_trans b(2) by auto
  qed
  then show ?thesis using s assms(1) gc_rel_same [of s s]
    by (auto simp: mark_step_def Let_def split: option.splits sum.splits)
qed

lemma mark_safe:
  assumes "gc_ok topo s"
  shows "gc_ok topo (snd (mark io ctx s)) \<and> gc_rel s (snd (mark io ctx s))"
proof -
  obtain refs e s0 where l: "list_orphans io ctx s = (refs, e, s0)" by (metis prod_cases3)
  have w: "gr_world s0 = gr_world s" using list_orphans_world [OF l] .
  have s0: "gc_ok topo s0" "gc_rel s s0" using assms w by (simp_all add: gc_ok_def gc_rel_same)
  let ?Q = "\<lambda>s. gc_ok topo s \<and> (\<forall>r \<in> set refs. orphan s r)"
  have "?Q (snd (gc_loop (mark_step io ctx) refs s0)) \<and> gc_rel s0 (snd (gc_loop (mark_step io ctx) refs s0))"
  proof (rule gc_loop_rel [where R = gc_rel])
    show "?Q (snd (mark_step io ctx x s)) \<and> gc_rel s (snd (mark_step io ctx x s))" if "x \<in> set refs" "?Q s" for x s
      using mark_step_safe [of topo s x ctx] that orphan_rel by blast
    show "?Q s0" using s0(1) list_orphans_orphan [OF assms l] by blast
  qed (blast intro: gc_rel_same gc_rel_trans)+
  then show ?thesis using l s0(2) gc_rel_trans
    by (auto simp: mark_def split: prod.splits option.splits)
qed

text \<open>A file the index does not know: no row has its path.\<close>

definition stray :: "path_topology \<Rightarrow> ('d, 'i) gc_run \<Rightarrow> path \<Rightarrow> bool" where
  "stray topo s p = (ok p \<and> has_prefix p ''blobs/'' \<and> (\<forall>r b. ibl (w_idx (gr_world s)) r = Some b \<longrightarrow> ib_path b \<noteq> p))"

lemma unknown_stray:
  assumes "gc_ok topo s" "unknown_file io (w_idx (gr_world s)) p" "ok p" "has_prefix p ''blobs/''"
  shows "stray topo s p"
proof -
  note g = assms(1) [unfolded gc_ok_def blob_rows_def]
  obtain ref where r: "ref_from_blob_path p = Inr ref" "si_resolve (io_index io) ref (w_idx (gr_world s)) = Inl ErrArtifactNotFound"
    using assms(2) by (auto simp: unknown_file_def split: sum.splits)
  have n: "ibl (w_idx (gr_world s)) ref = None"
  proof (cases "is_hex_ref ref")
    case True
    then show ?thesis using idx.resolve_absent [OF _ _ r(2)] g by blast
  next
    case False
    then show ?thesis using idx.ibl_key g by (cases "ibl (w_idx (gr_world s)) ref") auto
  qed
  have "ib_path b \<noteq> p" if "ibl (w_idx (gr_world s)) r' = Some b" for r' b
  proof
    assume "ib_path b = p"
    then have "ref_from_blob_path p = Inr r'" using that g ref_from_blob_path_wf by metis
    then show False using r(1) n that by simp
  qed
  then show ?thesis using assms(3,4) by (simp add: stray_def)
qed

lemma stray_rel: "gc_rel s s' \<Longrightarrow> stray topo s p \<Longrightarrow> stray topo s' p"
  unfolding stray_def using gc_rel_row by blast

lemma media_step_safe:
  assumes "gc_ok topo s" "stray topo s p"
  shows "gc_ok topo (snd (media_step io ctx p s)) \<and> gc_rel s (snd (media_step io ctx p s))"
proof -
  let ?s = "s \<lparr> gr_tick := Suc (gr_tick s) \<rparr>"
  have s: "gc_ok topo ?s" "gc_rel s ?s" using assms(1) by (simp_all add: gc_ok_def gc_rel_same)
  have "gc_ok topo (snd (mark_path io p ?s)) \<and> gc_rel ?s (snd (mark_path io p ?s))"
    using mark_path_step [OF s(1)] assms(2) by (auto simp: stray_def)
  then show ?thesis using s assms(1) gc_rel_same [of s s] gc_rel_trans [OF s(2)]
    by (auto simp: media_step_def Let_def split: option.splits)
qed

lemma media_safe:
  assumes "gc_ok topo s" "ok ''blobs''"
  shows "gc_ok topo (snd (reconcile_media io ctx complete s)) \<and> gc_rel s (snd (reconcile_media io ctx complete s))"
proof (cases "complete \<and> (\<exists>ms ps k. d_list (io_drv io) (w_drv (gr_world s)) ''blobs'' 0 = Inr ms
    \<and> collect_refs ctx (gr_tick s) (map om_path ms) = (ps, None, k))")
  case False
  then show ?thesis using assms(1)
    by (auto simp: reconcile_media_def gc_ok_def gc_rel_same split: sum.splits prod.splits option.splits)
next
  case True
  then obtain ms ps k where c: complete "d_list (io_drv io) (w_drv (gr_world s)) ''blobs'' 0 = Inr ms"
      "collect_refs ctx (gr_tick s) (map om_path ms) = (ps, None, k)" by blast
  let ?s = "s \<lparr> gr_tick := k \<rparr>" and ?ps = "filter (unknown_file io (w_idx (gr_world s))) ps"
  have s: "gc_ok topo ?s" "gc_rel s ?s" using assms(1) by (simp_all add: gc_ok_def gc_rel_same)
  note g = assms(1) [unfolded gc_ok_def tidy_def]
  have l: "om_path ` set ms = {p. listed_under ''blobs'' p \<and> view (w_drv (gr_world s)) p \<noteq> None}"
    using drv.list_ok [OF _ assms(2) _ c(2)] g by simp
  have st: "stray topo ?s p" if "p \<in> set ?ps" for p
  proof -
    have "p \<in> om_path ` set ms" using that collect_refs_subset [OF c(3)] by auto
    then have p: "listed_under ''blobs'' p" "ok p" using l g by auto
    then have "has_prefix p ''blobs/''" by (simp add: listed_under_def)
    then show ?thesis using unknown_stray [OF s(1)] that p(2) by simp
  qed
  let ?Q = "\<lambda>s. gc_ok topo s \<and> (\<forall>p \<in> set ?ps. stray topo s p)"
  have "?Q (snd (gc_loop (media_step io ctx) ?ps ?s)) \<and> gc_rel ?s (snd (gc_loop (media_step io ctx) ?ps ?s))"
  proof (rule gc_loop_rel [where R = gc_rel])
    show "?Q (snd (media_step io ctx x s)) \<and> gc_rel s (snd (media_step io ctx x s))" if "x \<in> set ?ps" "?Q s" for x s
      using media_step_safe [of topo s x ctx] that stray_rel by blast
    show "?Q ?s" using s(1) st by blast
  qed (blast intro: gc_rel_same gc_rel_trans)+
  then show ?thesis using c s(2) gc_rel_trans by (auto simp: reconcile_media_def)
qed

lemma sweep_blob_safe:
  assumes "gc_ok topo s" "orphan s ref" "si_resolve (io_index io) ref (w_idx (gr_world s)) = Inr addr"
  shows "gc_ok topo (snd (sweep_blob io ref addr s)) \<and> gc_rel s (snd (sweep_blob io ref addr s))"
proof -
  let ?d = "w_drv (gr_world s)" and ?i = "w_idx (gr_world s)"
  have h: "is_hex_ref ref" using assms(2) by (simp add: orphan_def)
  obtain b where b: "ibl ?i ref = Some b" "pa_path addr = ib_path b" "ok (ib_path b)" "has_prefix (ib_path b) ''blobs/''"
    using row_path [OF assms(1) h assms(3)] by metis
  note g = assms(1) [unfolded gc_ok_def]
  obtain y d' where y: "d_remove_tombstone (io_drv io) ?d (pa_path addr) = (y, d')" by fastforce
  have d': "dinv d'" using drv.inv_keep(5) [of ?d "pa_path addr"] g y by simp
  have fr: "view d' q = view ?d q" if "q \<noteq> tombstone_of (ib_path b)" for q
    using drv.unmark_frame [OF _ b(3) that] g y b(2) by (metis snd_conv)
  have np: "has_prefix (tombstone_of (ib_path b)) ''blobs/''" using b(4) by (auto simp: tombstone_of_def has_prefix_conv)
  have f: "gc_frame (view ?d) (ibl ?i) (view d') (ibl ?i)"
  proof -
    have "view d' (ib_path b') = view ?d (ib_path b')" if "ibl ?i r = Some b'" for r b'
      using fr blob_path_shape(4) that g unfolding blob_rows_def by blast
    moreover have "view d' q = view ?d q" if "\<not> has_prefix q ''blobs/''" for q
      using fr [of q] that np by metis
    ultimately show ?thesis unfolding gc_frame_def by blast
  qed
  have t: "tidy ok (view d')"
  proof -
    have "view d' ''blobs'' = view ?d ''blobs''" using f unfolding gc_frame_def by (simp add: has_prefix_def)
    moreover have "view d' q = view ?d q" if "listed_under ''blobs'' q" for q
      using fr [of q] tombstone_not_listed [OF b(4)] that by metis
    ultimately show ?thesis using g unfolding tidy_def by auto
  qed
  have one: "gc_ok topo (set_drv d' s) \<and> gc_rel s (set_drv d' s)" using d' g t f by (simp add: gc_ok_def gc_rel_def)
  obtain z i' where z: "si_delete_orphan_blob (io_index io) ref ?i = (z, i')" by fastforce
  have i': "iinv i'" using idx.iinv_keep(3) [of ?i ref] g z by simp
  have zz: "imf i' = imf ?i \<and> (ibl i' = ibl ?i \<or> ibl i' = (ibl ?i)(ref := None) \<and> ib_refs b = 0)"
    using idx.drop_ok [of ?i ref _ i'] idx.drop_err [of ?i ref _ i'] g h z b(1) by (cases z) (auto split: if_splits)
  then have "gc_frame (view d') (ibl ?i) (view d') (ibl i')" using b(1) by (auto simp: gc_frame_def split: if_splits)
  then have "gc_frame (view ?d) (ibl ?i) (view d') (ibl i')" using gc_frame_trans [OF f] by blast
  moreover have "blob_rows topo (ibl i')" using blob_rows_frame [OF _ calculation] g by blast
  ultimately have two: "gc_ok topo (set_idx i' (set_drv d' s)) \<and> gc_rel s (set_idx i' (set_drv d' s))"
    using i' d' t zz by (simp add: gc_ok_def gc_rel_def)
  then have three: "gc_ok topo (count_removed ref n (set_idx i' (set_drv d' s)))
      \<and> gc_rel s (count_removed ref n (set_idx i' (set_drv d' s)))" for n
    by (simp add: gc_ok_def gc_rel_def)
  show ?thesis using one two three y z by (auto simp: sweep_blob_def Let_def split: sum.splits)
qed

lemma sweep_step_safe:
  assumes "gc_ok topo s" "orphan s ref"
  shows "gc_ok topo (snd (sweep_step io ctx grace now ref s)) \<and> gc_rel s (snd (sweep_step io ctx grace now ref s))"
proof -
  let ?s = "s \<lparr> gr_tick := Suc (gr_tick s) \<rparr>"
  have s: "gc_ok topo ?s" "gc_rel s ?s" "orphan ?s ref" using assms by (simp_all add: gc_ok_def gc_rel_same orphan_def)
  have "gc_ok topo (snd (sweep_blob io ref addr ?s)) \<and> gc_rel s (snd (sweep_blob io ref addr ?s))"
    if "si_resolve (io_index io) ref (w_idx (gr_world s)) = Inr addr" for addr
    using sweep_blob_safe [OF s(1,3), of addr] that gc_rel_trans [OF s(2)] by auto
  then show ?thesis using s assms(1) gc_rel_same [of s s]
    by (auto simp: sweep_step_def Let_def split: option.splits sum.splits)
qed

lemma sweep_safe:
  assumes "gc_ok topo s"
  shows "gc_ok topo (snd (sweep io ctx grace s)) \<and> gc_rel s (snd (sweep io ctx grace s))"
proof -
  obtain refs e s0 where l: "list_orphans io ctx s = (refs, e, s0)" by (metis prod_cases3)
  have s0: "gc_ok topo s0" "gc_rel s s0" using assms list_orphans_world [OF l] by (simp_all add: gc_ok_def gc_rel_same)
  let ?Q = "\<lambda>s. gc_ok topo s \<and> (\<forall>r \<in> set refs. orphan s r)"
  let ?f = "sweep_step io ctx grace (d_now (io_drv io) (w_drv (gr_world s0)))"
  have "?Q (snd (gc_loop ?f refs s0)) \<and> gc_rel s0 (snd (gc_loop ?f refs s0))"
  proof (rule gc_loop_rel [where R = gc_rel])
    show "?Q (snd (?f x s)) \<and> gc_rel s (snd (?f x s))" if "x \<in> set refs" "?Q s" for x s
      using sweep_step_safe [of topo s x] that orphan_rel by blast
    show "?Q s0" using s0(1) list_orphans_orphan [OF assms l] by blast
  qed (blast intro: gc_rel_same gc_rel_trans)+
  then show ?thesis using l s0(2) gc_rel_trans
    by (auto simp: sweep_def split: prod.splits option.splits)
qed

lemma cycle_safe:
  assumes "gc_ok topo (gc_start w)" "ok ''blobs''" "run_cycle io ctx grace complete w = (r, g)"
  shows "gc_ok topo g \<and> gc_rel (gc_start w) g"
proof (cases "ctx 0")
  case None
  let ?s0 = "gc_start w \<lparr> gr_tick := 1 \<rparr>"
  let ?s1 = "snd (mark io ctx ?s0)"
  let ?s2 = "snd (reconcile_media io ctx complete ?s1)"
  have 0: "gc_ok topo ?s0" "gc_rel (gc_start w) ?s0" using assms(1) by (simp_all add: gc_ok_def gc_rel_same)
  have 1: "gc_ok topo ?s1" "gc_rel ?s0 ?s1" using mark_safe [OF 0(1)] by blast+
  have 2: "gc_ok topo ?s2" "gc_rel ?s1 ?s2" using media_safe [OF 1(1) assms(2)] by blast+
  have 3: "gc_ok topo (snd (sweep io ctx grace ?s2))" "gc_rel ?s2 (snd (sweep io ctx grace ?s2))"
    using sweep_safe [OF 2(1)] by blast+
  have "g = snd (sweep io ctx grace ?s2)" using assms(3) None by (auto simp: run_cycle_def Let_def split: prod.splits)
  then show ?thesis using 3 gc_rel_trans 0(2) 1(2) 2(2) by metis
qed (use assms(1,3) in \<open>auto simp: run_cycle_def Let_def gc_rel_same\<close>)

end

subsection \<open>The store under collection\<close>

definition gc_inv :: "hash_fun \<Rightarrow> (localfs, index_state) store \<Rightarrow> bool" where
  "gc_inv h s = ((\<exists>H T J C. st_io s = local_io H T J C) \<and> lfs_inv (w_drv (st_world s)) \<and> index_wf (w_idx (st_world s))
     \<and> tidy clean_path (lfs_view (w_drv (st_world s)))
     \<and> live (st_io s) (store_keys s) (session_config s) h (lfs_view (w_drv (st_world s)))
         (sq_manifests (w_idx (st_world s))) (sq_blobs (w_idx (st_world s))))"

text \<open>Between collections the invariant is that of the store: what \<^verbatim>\<open>Put\<close> and \<^verbatim>\<open>Delete\<close> keep, with exact reference
  counts, admits a cycle.\<close>

lemma counted_refs:
  assumes "index_wf i" "refs_exact i" "sq_manifests i dg = Some r" "x \<in> set (im_refs r)"
  shows "\<exists>b. sq_blobs i x = Some b \<and> ib_refs b \<noteq> 0"
proof -
  obtain k where k: "im_refs r = map hex_encode (edges_of k i)"
    using assms(3) by (auto simp: sq_manifests_def row_view_def split: if_splits option.splits)
  then obtain y where y: "y \<in> set (edges_of k i)" "x = hex_encode y" using assms(4) by auto
  then have "y \<noteq> []" using assms(1) unfolding index_wf_def by metis
  have "y \<in> set (edge_keys i)" using y(1) by (auto simp: edges_of_def edge_keys_def)
  then obtain b where "map_of (ix_blobs i) y = Some b" "br_ref_count b \<noteq> 0"
    using assms(2) [unfolded refs_exact_def, rule_format, of y] by (auto simp: count_list_0_iff split: option.splits)
  then show ?thesis using y(2) \<open>y \<noteq> []\<close> by (simp add: blob_view_def)
qed

lemma gc_inv_store:
  assumes "store_inv h s" "refs_exact (w_idx (st_world s))" "tidy clean_path (lfs_view (w_drv (st_world s)))"
  shows "gc_inv h s"
proof -
  note i = assms(1) [unfolded store_inv_def]
  have "live (st_io s) (store_keys s) (session_config s) h (lfs_view (w_drv (st_world s)))
      (sq_manifests (w_idx (st_world s))) (sq_blobs (w_idx (st_world s)))"
    using i counted_refs [OF _ assms(2)] unfolding live_def sound_def blob_sound_def by blast
  then show ?thesis using i assms(3) unfolding gc_inv_def by blast
qed

lemma clean_blobs: "clean_path ''blobs''"
  using clean_join [of "[''blobs'']"] by simp

lemma gc_inv_start:
  assumes "gc_inv h s"
  shows "lst.gc_ok (cf_path_topology (session_config s)) (gc_start (st_world s))"
  using assms live_rows unfolding gc_inv_def lst.gc_ok_def gc_start_def by fastforce

lemma gc_cycle_keeps:
  assumes "gc_inv h s" "run_cycle (st_io s) ctx grace complete (st_world s) = (r, g)"
  shows "gc_inv h (s \<lparr> st_world := gr_world g \<rparr>) \<and> abs_store (s \<lparr> st_world := gr_world g \<rparr>) = abs_store s
    \<and> sq_manifests (w_idx (gr_world g)) = sq_manifests (w_idx (st_world s))
    \<and> (\<forall>q. \<not> has_prefix q ''blobs/'' \<longrightarrow> lfs_view (w_drv (gr_world g)) q = lfs_view (w_drv (st_world s)) q)"
proof -
  obtain H T J C where io: "st_io s = local_io H T J C" using assms(1) by (auto simp: gc_inv_def)
  note g = assms(1) [unfolded gc_inv_def]
  have c: "lst.gc_ok (cf_path_topology (session_config s)) g" "lst.gc_rel (gc_start (st_world s)) g"
    using lst.cycle_safe [OF gc_inv_start [OF assms(1)] clean_blobs assms(2) [unfolded io]] by blast+
  let ?v = "lfs_view (w_drv (st_world s))" and ?mf = "sq_manifests (w_idx (st_world s))" and ?bl = "sq_blobs (w_idx (st_world s))"
  let ?v' = "lfs_view (w_drv (gr_world g))" and ?bl' = "sq_blobs (w_idx (gr_world g))"
  have f: "sq_manifests (w_idx (gr_world g)) = ?mf" "gc_frame ?v ?bl ?v' ?bl'"
    using c(2) unfolding lst.gc_rel_def gc_start_def by simp_all
  have l: "live (st_io s) (store_keys s) (session_config s) h ?v ?mf ?bl" using g by blast
  have "gc_inv h (s \<lparr> st_world := gr_world g \<rparr>)"
    using live_gc(1) [OF l f(2)] c(1) io f(1) unfolding gc_inv_def lst.gc_ok_def by auto
  moreover have "abs_store (s \<lparr> st_world := gr_world g \<rparr>) = abs_store s"
    using live_gc(2) [OF l f(2)] f(1) by (simp add: abs_store_def)
  moreover have "\<not> has_prefix q ''blobs/'' \<Longrightarrow> ?v' q = ?v q" for q using f(2) unfolding gc_frame_def by blast
  ultimately show ?thesis using f(1) by blast
qed

text \<open>C6: a collection cycle loses nothing.  Whatever fails in the driver or the index and whenever the context is
  cancelled, the artifacts held before the cycle are held after it, the manifest rows and every file
  outside the blob directory are as they were, and the invariant is kept, so cycles can follow each other.\<close>

theorem gc_cycle_safe:
  assumes "gc_inv h s" "run_cycle (st_io s) ctx grace complete (st_world s) = (r, g)"
  shows "gc_inv h (s \<lparr> st_world := gr_world g \<rparr>) \<and> abs_store (s \<lparr> st_world := gr_world g \<rparr>) = abs_store s
    \<and> sq_manifests (w_idx (gr_world g)) = sq_manifests (w_idx (st_world s))
    \<and> (\<forall>q. \<not> has_prefix q ''blobs/'' \<longrightarrow> lfs_view (w_drv (gr_world g)) q = lfs_view (w_drv (st_world s)) q)"
  by (rule gc_cycle_keeps [OF assms])

subsection \<open>Reaping\<close>

definition node :: "localfs \<Rightarrow> path \<Rightarrow> file_node option" where
  "node d p = map_of (lf_files d) (abs_path d p)"

lemma mark_nodes:
  assumes "lfs_rel d" "clean_path p"
  obtains d' where "lfs_mark_tombstone d p = (Inr (), d')" "lfs_rel d'" "lf_root d' = lf_root d" "lf_clock d' = lf_clock d"
    "\<And>q. q \<noteq> p \<Longrightarrow> q \<noteq> tombstone_of p \<Longrightarrow> node d' q = node d q"
    "\<And>n. node d p = Some n \<and> node d (tombstone_of p) = None \<or> node d p = None \<and> node d (tombstone_of p) = Some n
      \<Longrightarrow> node d' p = None \<and> node d' (tombstone_of p) = Some n"
proof -
  have r: "lf_root d \<noteq> ''/''" using lfs_rel_keys [OF assms(1)] by simp
  have s: "sys d c = None" for c using lfs_rel_sys [OF assms(1)] .
  have l: "lfs_rel (snd (lfs_mark_tombstone d p))" using lfs_rel_mark [OF assms] .
  note e = lfs_mark_tombstone_def resolve_clean [OF assms(2) r] tomb_abs file_exists_def Let_def rename_node_def s
  show thesis
    by (cases "node d p"; cases "node d (tombstone_of p)"; rule that [of "snd (lfs_mark_tombstone d p)"])
       (use l in \<open>auto simp: e node_def abs_path_def tombstone_of_def tick_def set_files_def tombstone_suffix_def\<close>)
qed

lemma unmark_nodes:
  assumes "lfs_rel d" "clean_path p"
  obtains d' where "lfs_remove_tombstone d p = (Inr (), d')" "lfs_rel d'" "lf_root d' = lf_root d" "lf_clock d' = lf_clock d"
    "\<And>q. q \<noteq> tombstone_of p \<Longrightarrow> node d' q = node d q" "node d' (tombstone_of p) = None"
proof -
  have r: "lf_root d \<noteq> ''/''" using lfs_rel_keys [OF assms(1)] by simp
  have s: "sys d c = None" for c using lfs_rel_sys [OF assms(1)] .
  have l: "lfs_rel (snd (lfs_remove_tombstone d p))" using lfs_rel_unmark [OF assms] .
  show thesis
    by (rule that [of "snd (lfs_remove_tombstone d p)"])
       (use l in \<open>auto simp: lfs_remove_tombstone_def resolve_clean [OF assms(2) r] tomb_abs s node_def abs_path_def tombstone_of_def tick_def set_files_def\<close>)
qed

lemma info_node:
  assumes "lfs_rel d" "clean_path p"
  shows "lfs_tombstone_info d p = Inr (case node d (tombstone_of p) of None \<Rightarrow> (False, 0) | Some n \<Rightarrow> (True, f_mtime n))"
proof -
  have r: "lf_root d \<noteq> ''/''" using lfs_rel_keys [OF assms(1)] by simp
  have s: "sys d c = None" for c using lfs_rel_sys [OF assms(1)] .
  show ?thesis
    by (auto simp: lfs_tombstone_info_def resolve_clean [OF assms(2) r] tomb_abs s node_def split: option.splits)
qed

text \<open>A loop none of whose steps fails reaches what one of its steps establishes and the others keep.\<close>

lemma gc_loop_reach:
  assumes "\<And>x s. x \<in> set xs \<Longrightarrow> Q s \<Longrightarrow> fst (f x s) = None \<and> Q (snd (f x s)) \<and> (P s \<longrightarrow> P (snd (f x s)))"
    and "\<And>s. Q s \<Longrightarrow> P (snd (f r s))" "Q s"
  shows "fst (gc_loop f xs s) = None \<and> Q (snd (gc_loop f xs s)) \<and> (r \<in> set xs \<or> P s \<longrightarrow> P (snd (gc_loop f xs s)))"
  using assms(1,3)
proof (induction xs arbitrary: s)
  case (Cons x xs)
  obtain e s' where e: "f x s = (e, s')" by fastforce
  then have s': "e = None" "Q s'" "P s \<longrightarrow> P s'" "x = r \<longrightarrow> P s'"
    using Cons.prems(1) [of x s] Cons.prems(2) assms(2) [of s] by auto
  then show ?case using Cons.IH [of s'] Cons.prems(1) e by auto
qed simp

text \<open>\<^verbatim>\<open>context.Background\<close>: never cancelled.\<close>

definition background :: contexts where
  "background k = None"

lemma collect_refs_all: "\<exists>k'. collect_refs background k xs = (xs, None, k')"
proof (induction xs arbitrary: k)
  case (Cons x xs)
  then obtain k' where "collect_refs background (Suc k) xs = (xs, None, k')" by blast
  then show ?case by (simp add: background_def [of k])
qed simp

text \<open>A collection over a medium and an index that do not fail, watched at the path \<open>p\<close> of one orphan.\<close>

definition calm :: "path_topology \<Rightarrow> (nat \<Rightarrow> time) \<Rightarrow> (localfs, index_state) gc_run \<Rightarrow> bool" where
  "calm topo clk s = (lfs_rel (w_drv (gr_world s)) \<and> index_rel (w_idx (gr_world s)) \<and> lf_clock (w_drv (gr_world s)) = clk
     \<and> lst.gc_ok topo s \<and> gs_freed (gr_stats s) = 0)"

definition filed :: "path \<Rightarrow> file_node \<Rightarrow> (localfs, index_state) gc_run \<Rightarrow> bool" where
  "filed p n s = (node (w_drv (gr_world s)) p = Some n \<and> node (w_drv (gr_world s)) (tombstone_of p) = None)"

definition entombed :: "path \<Rightarrow> file_node \<Rightarrow> (localfs, index_state) gc_run \<Rightarrow> bool" where
  "entombed p n s = (node (w_drv (gr_world s)) p = None \<and> node (w_drv (gr_world s)) (tombstone_of p) = Some n)"

lemma calm_resolve:
  assumes "calm topo clk s" "lst.orphan s ref"
  shows "si_resolve sqlite_index ref (w_idx (gr_world s)) = Inl ErrArtifactNotFound \<and> sq_blobs (w_idx (gr_world s)) ref = None
    \<or> (\<exists>b. sq_blobs (w_idx (gr_world s)) ref = Some b \<and> ib_refs b = 0 \<and> clean_path (ib_path b) \<and> ib_path b \<noteq> []
        \<and> has_prefix (ib_path b) ''blobs/'' \<and> si_resolve sqlite_index ref (w_idx (gr_world s)) = Inr (address_at (ib_path b)))"
proof (cases "sq_blobs (w_idx (gr_world s)) ref")
  case None
  then show ?thesis using rsqx.irel_resolve assms by (auto simp: calm_def lst.orphan_def)
next
  case (Some b)
  have w: "wf_ref ref" "blob_path topo BlobTypeRegular ref = Inr (ib_path b)"
    using assms(1) Some by (auto simp: calm_def lst.gc_ok_def blob_rows_def)
  then show ?thesis
    using rsqx.irel_resolve assms Some clean_blob_path [OF w] blob_path_shape [OF w]
    by (auto simp: calm_def lst.orphan_def address_at_def)
qed

lemma calm_mark_path:
  assumes "calm topo clk s" "clean_path q" "has_prefix q ''blobs/''"
    and "\<And>r b. sq_blobs (w_idx (gr_world s)) r = Some b \<Longrightarrow> ib_refs b \<noteq> 0 \<Longrightarrow> ib_path b \<noteq> q"
  shows "fst (mark_path (local_io H T J C) q s) = None \<and> calm topo clk (snd (mark_path (local_io H T J C) q s))
    \<and> w_idx (gr_world (snd (mark_path (local_io H T J C) q s))) = w_idx (gr_world s)
    \<and> (q = p \<and> (filed p n s \<or> entombed p n s) \<longrightarrow> entombed p n (snd (mark_path (local_io H T J C) q s)))
    \<and> (q \<noteq> p \<and> q \<noteq> tombstone_of p \<and> p \<noteq> tombstone_of q \<longrightarrow>
        filed p n (snd (mark_path (local_io H T J C) q s)) = filed p n s
      \<and> entombed p n (snd (mark_path (local_io H T J C) q s)) = entombed p n s)"
proof -
  have c: "lfs_rel (w_drv (gr_world s))" using assms(1) by (simp add: calm_def)
  from c assms(2) obtain d' where d: "lfs_mark_tombstone (w_drv (gr_world s)) q = (Inr (), d')" "lfs_rel d'"
      "lf_clock d' = lf_clock (w_drv (gr_world s))"
      "\<And>x. x \<noteq> q \<Longrightarrow> x \<noteq> tombstone_of q \<Longrightarrow> node d' x = node (w_drv (gr_world s)) x"
      "\<And>n. node (w_drv (gr_world s)) q = Some n \<and> node (w_drv (gr_world s)) (tombstone_of q) = None
        \<or> node (w_drv (gr_world s)) q = None \<and> node (w_drv (gr_world s)) (tombstone_of q) = Some n
        \<Longrightarrow> node d' q = None \<and> node d' (tombstone_of q) = Some n"
    by (rule mark_nodes) blast
  have m: "mark_path (local_io H T J C) q s = (None, count_marked (set_drv d' s))" using d(1) by (simp add: mark_path_def)
  have "lst.gc_ok topo (snd (mark_path (local_io H T J C) q s))"
    using lst.mark_path_step [OF _ assms(2,3), of topo s] assms(1,4) by (auto simp: calm_def)
  moreover have "gr_stats (count_marked (set_drv d' s)) = gr_stats s \<lparr> gs_marked := gs_marked (gr_stats s) + 1 \<rparr>"
    by (simp add: count_marked_def set_drv_def)
  ultimately have "calm topo clk (count_marked (set_drv d' s))"
    using assms(1) d(2,3) m by (simp add: calm_def)
  then show ?thesis using m d(4,5) by (auto simp: filed_def entombed_def)
qed

lemma calm_cong:
  "gr_world s' = gr_world s \<Longrightarrow> gs_freed (gr_stats s') = gs_freed (gr_stats s) \<Longrightarrow> calm topo clk s' = calm topo clk s"
  "gr_world s' = gr_world s \<Longrightarrow> filed p n s' = filed p n s" "gr_world s' = gr_world s \<Longrightarrow> entombed p n s' = entombed p n s"
  "gr_world s' = gr_world s \<Longrightarrow> lst.orphan s' x = lst.orphan s x"
  by (simp_all add: calm_def filed_def entombed_def lst.gc_ok_def lst.orphan_def)

lemma count_stats [simp]:
  "gs_freed (gr_stats (count_scanned s)) = gs_freed (gr_stats s)" "gs_freed (gr_stats (count_removed r n s)) = gs_freed (gr_stats s) + n"
  "gr_stats (set_drv d s) = gr_stats s" "gr_stats (set_idx i s) = gr_stats s" "gr_deleted (set_drv d s) = gr_deleted s"
  "gr_deleted (set_idx i s) = gr_deleted s" "gr_deleted (count_removed r n s) = gr_deleted s @ [r]"
  by (simp_all add: count_scanned_def count_removed_def set_drv_def set_idx_def)

lemma calm_rows:
  assumes "calm topo clk s" "sq_blobs (w_idx (gr_world s)) r = Some b"
  shows "clean_path (ib_path b)" "ib_path b \<noteq> tombstone_of q"
    and "sq_blobs (w_idx (gr_world s)) r' = Some b' \<Longrightarrow> ib_path b' = ib_path b \<Longrightarrow> r' = r"
proof -
  have w: "wf_ref r" "blob_path topo BlobTypeRegular r = Inr (ib_path b)"
    using assms by (auto simp: calm_def lst.gc_ok_def blob_rows_def)
  show "clean_path (ib_path b)" "ib_path b \<noteq> tombstone_of q" using clean_blob_path [OF w] blob_path_shape(4) [OF w] by blast+
  show "sq_blobs (w_idx (gr_world s)) r' = Some b' \<Longrightarrow> ib_path b' = ib_path b \<Longrightarrow> r' = r"
    using assms(1) w blob_path_inj unfolding calm_def lst.gc_ok_def blob_rows_def by metis
qed

lemma calm_mark_step:
  assumes "calm topo clk s" "lst.orphan s x" "ctx = background" "sq_blobs (w_idx (gr_world s)) r = Some b"
    and e: "s' = mark_step (local_io H T J C) ctx x s"
  shows "fst s' = None \<and> calm topo clk (snd s') \<and> w_idx (gr_world (snd s')) = w_idx (gr_world s)
    \<and> (filed (ib_path b) n s \<or> entombed (ib_path b) n s \<longrightarrow> filed (ib_path b) n (snd s') \<or> entombed (ib_path b) n (snd s'))
    \<and> (entombed (ib_path b) n s \<longrightarrow> entombed (ib_path b) n (snd s'))
    \<and> (x = r \<and> (filed (ib_path b) n s \<or> entombed (ib_path b) n s) \<longrightarrow> entombed (ib_path b) n (snd s'))"
proof -
  let ?s = "count_scanned (s \<lparr> gr_tick := Suc (gr_tick s) \<rparr>)" and ?io = "local_io H T J C"
  have c: "calm topo clk ?s" "filed p n ?s = filed p n s" "entombed p n ?s = entombed p n s" for p
    using assms(1) calm_cong [of ?s s] by simp_all
  from calm_resolve [OF assms(1,2)] show ?thesis
  proof (elim disjE exE conjE)
    assume "si_resolve sqlite_index x (w_idx (gr_world s)) = Inl ErrArtifactNotFound" "sq_blobs (w_idx (gr_world s)) x = None"
    then have "s' = (None, ?s)" "x \<noteq> r" using assms(3,4) by (auto simp: e mark_step_def Let_def background_def)
    then show ?thesis using c by simp
  next
    fix b'
    assume b': "sq_blobs (w_idx (gr_world s)) x = Some b'" "ib_refs b' = 0" "clean_path (ib_path b')" "ib_path b' \<noteq> []"
      "has_prefix (ib_path b') ''blobs/''" "si_resolve sqlite_index x (w_idx (gr_world s)) = Inr (address_at (ib_path b'))"
    have s': "s' = mark_path ?io (ib_path b') ?s" using b'(4,6) assms(3) by (simp add: e mark_step_def Let_def address_at_def background_def)
    have "ib_path b'' \<noteq> ib_path b'" if "sq_blobs (w_idx (gr_world ?s)) y = Some b''" "ib_refs b'' \<noteq> 0" for y b''
      using calm_rows(3) [OF assms(1) b'(1), of y b''] that b'(1,2) by auto
    from calm_mark_path [where H = H and T = T and J = J and C = C and p = "ib_path b" and n = n, OF c(1) b'(3,5) this]
    show ?thesis
      using s' c calm_rows(2) [OF assms(1) b'(1)] calm_rows(2) [OF assms(1,4)] b'(1) assms(4)
      by (cases "ib_path b' = ib_path b") auto
  qed
qed

lemma calm_list:
  assumes "calm topo clk s" "ctx = background"
  obtains refs k where "list_orphans (local_io H T J C) ctx s = (refs, None, s \<lparr> gr_tick := k \<rparr>)"
    "set refs = {r. \<exists>b. sq_blobs (w_idx (gr_world s)) r = Some b \<and> ib_refs b = 0}"
    "\<And>x. x \<in> set refs \<Longrightarrow> lst.orphan s x"
proof -
  have i: "index_rel (w_idx (gr_world s))" "index_wf (w_idx (gr_world s))" using assms(1) by (auto simp: calm_def lst.gc_ok_def)
  obtain rs where rs: "si_list_orphan_blobs sqlite_index (w_idx (gr_world s)) = Inr rs" using rsqx.irel_orphans [OF i(1)] by blast
  obtain k where k: "collect_refs ctx (gr_tick s) rs = (rs, None, k)" using collect_refs_all assms(2) by blast
  have "set rs = {r. \<exists>b. sq_blobs (w_idx (gr_world s)) r = Some b \<and> ib_refs b = 0}" using sqx.orphans_ok [OF i(2) rs] by blast
  moreover have l: "list_orphans (local_io H T J C) ctx s = (rs, None, s \<lparr> gr_tick := k \<rparr>)"
    using rs k by (simp add: list_orphans_def)
  moreover have "lst.orphan s x" if "x \<in> set rs" for x
    using lst.list_orphans_orphan [OF _ l that, of topo] assms(1) by (simp add: calm_def lst.orphan_def)
  ultimately show thesis using that by blast
qed

lemma calm_mark:
  assumes "calm topo clk s" "ctx = background" "sq_blobs (w_idx (gr_world s)) r = Some b" "ib_refs b = 0" "filed (ib_path b) n s"
  shows "calm topo clk (snd (mark (local_io H T J C) ctx s)) \<and> w_idx (gr_world (snd (mark (local_io H T J C) ctx s))) = w_idx (gr_world s)
    \<and> entombed (ib_path b) n (snd (mark (local_io H T J C) ctx s))"
proof -
  obtain refs k where l: "list_orphans (local_io H T J C) ctx s = (refs, None, s \<lparr> gr_tick := k \<rparr>)"
      "set refs = {r. \<exists>b. sq_blobs (w_idx (gr_world s)) r = Some b \<and> ib_refs b = 0}" "\<And>x. x \<in> set refs \<Longrightarrow> lst.orphan s x"
    using assms(1,2) by (rule calm_list) blast
  let ?s = "s \<lparr> gr_tick := k \<rparr>" and ?f = "mark_step (local_io H T J C) ctx" and ?p = "ib_path b"
  let ?Q = "\<lambda>x. calm topo clk x \<and> w_idx (gr_world x) = w_idx (gr_world s) \<and> (filed ?p n x \<or> entombed ?p n x)"
  have orph: "lst.orphan x y" if "?Q x" "y \<in> set refs" for x y
    using l(3) [OF that(2)] that(1) by (simp add: lst.orphan_def)
  have r: "r \<in> set refs" using l(2) assms(3,4) by blast
  have "fst (gc_loop ?f refs ?s) = None \<and> ?Q (snd (gc_loop ?f refs ?s))
    \<and> (r \<in> set refs \<or> entombed ?p n ?s \<longrightarrow> entombed ?p n (snd (gc_loop ?f refs ?s)))"
  proof (rule gc_loop_reach)
    show "fst (?f y x) = None \<and> ?Q (snd (?f y x)) \<and> (entombed ?p n x \<longrightarrow> entombed ?p n (snd (?f y x)))"
      if "y \<in> set refs" "?Q x" for y x
      using calm_mark_step [where n = n and r = r and b = b and topo = topo and clk = clk and H = H and T = T and J = J and C = C, OF _ orph [OF that(2,1)] assms(2) _ refl] that(2) assms(3) by auto
    show "entombed ?p n (snd (?f r x))" if "?Q x" for x
      using calm_mark_step [where n = n and r = r and b = b and topo = topo and clk = clk and H = H and T = T and J = J and C = C, OF _ orph [OF that r] assms(2) _ refl] that assms(3) by auto
    show "?Q ?s" using assms(1,5) calm_cong [of ?s s] by simp
  qed
  then show ?thesis using l(1) r by (cases "gc_loop ?f refs ?s") (auto simp: mark_def)
qed

lemma calm_media:
  assumes "calm topo clk s" "ctx = background" "sq_blobs (w_idx (gr_world s)) r = Some b" "entombed (ib_path b) n s"
    and e: "s' = snd (reconcile_media (local_io H T J C) ctx complete s)"
  shows "calm topo clk s' \<and> w_idx (gr_world s') = w_idx (gr_world s) \<and> entombed (ib_path b) n s'"
proof (cases "complete \<and> (\<exists>ms. d_list localfs_driver (w_drv (gr_world s)) ''blobs'' 0 = Inr ms)")
  case False
  then show ?thesis using assms(1,4) by (auto simp: e reconcile_media_def split: sum.splits)
next
  case True
  then obtain ms where ms: complete "d_list localfs_driver (w_drv (gr_world s)) ''blobs'' 0 = Inr ms" by blast
  obtain k where k: "collect_refs background (gr_tick s) (map om_path ms) = (map om_path ms, None, k)" using collect_refs_all by blast
  let ?io = "local_io H T J C" and ?p = "ib_path b"
  let ?ps = "filter (unknown_file ?io (w_idx (gr_world s))) (map om_path ms)" and ?s = "s \<lparr> gr_tick := k \<rparr>"
  have g: "lst.gc_ok topo s" "lst.gc_ok topo ?s" using assms(1) by (simp_all add: calm_def lst.gc_ok_def)
  note g' = g(1) [unfolded lst.gc_ok_def tidy_def]
  have l: "om_path ` set ms = {p. listed_under ''blobs'' p \<and> lfs_view (w_drv (gr_world s)) p \<noteq> None}"
    using lfs.list_ok [OF _ clean_blobs, of "w_drv (gr_world s)" ms] g' ms(2) by simp
  have wp: "has_prefix ?p ''blobs/''" using g(1) assms(3) blob_path_shape(1) unfolding lst.gc_ok_def blob_rows_def by blast
  have st: "clean_path y" "has_prefix y ''blobs/''" "y \<noteq> ?p" "y \<noteq> tombstone_of ?p" "?p \<noteq> tombstone_of y"
      "\<And>r' b'. sq_blobs (w_idx (gr_world s)) r' = Some b' \<Longrightarrow> ib_path b' \<noteq> y" if "y \<in> set ?ps" for y
  proof -
    have y: "listed_under ''blobs'' y" "clean_path y" using that l g' by auto
    then have pr: "has_prefix y ''blobs/''" by (simp add: listed_under_def)
    have "lst.stray topo s y"
      using lst.unknown_stray [where H = H and T = T and J = J and C = C, OF g(1) _ y(2) pr] that by simp
    then show "clean_path y" "has_prefix y ''blobs/''" "y \<noteq> ?p" "y \<noteq> tombstone_of ?p" "?p \<noteq> tombstone_of y"
      "\<And>r' b'. sq_blobs (w_idx (gr_world s)) r' = Some b' \<Longrightarrow> ib_path b' \<noteq> y"
      using y pr assms(3) tombstone_not_listed [OF wp] calm_rows(2) [OF assms(1,3)] unfolding lst.stray_def by blast+
  qed
  let ?Q = "\<lambda>x. calm topo clk x \<and> w_idx (gr_world x) = w_idx (gr_world s) \<and> entombed ?p n x"
  have "?Q (snd (gc_loop (media_step ?io ctx) ?ps ?s)) \<and> True"
  proof (rule gc_loop_rel [where R = "\<lambda>_ _. True"])
    show "?Q (snd (media_step ?io ctx y x)) \<and> True" if y: "y \<in> set ?ps" and x: "?Q x" for y x
    proof -
      let ?x = "x \<lparr> gr_tick := Suc (gr_tick x) \<rparr>"
      have c: "calm topo clk ?x" "entombed ?p n ?x" using x calm_cong [of ?x x] by simp_all
      have "ib_path b' \<noteq> y" if "sq_blobs (w_idx (gr_world ?x)) r' = Some b'" "ib_refs b' \<noteq> 0" for r' b'
        using st(6) [OF y] that x by simp
      from calm_mark_path [where H = H and T = T and J = J and C = C and p = ?p and n = n, OF c(1) st(1,2) [OF y] this]
      show ?thesis using c x st(3-5) [OF y] assms(2) by (auto simp: media_step_def Let_def background_def)
    qed
    show "?Q ?s" using assms(1,4) calm_cong [of ?s s] by simp
  qed simp_all
  then show ?thesis using ms k assms(2) by (simp add: e reconcile_media_def)
qed

definition reaped :: "string \<Rightarrow> path \<Rightarrow> (localfs, index_state) gc_run \<Rightarrow> bool" where
  "reaped r p s = (sq_blobs (w_idx (gr_world s)) r = None \<and> r \<in> set (gr_deleted s)
     \<and> node (w_drv (gr_world s)) p = None \<and> node (w_drv (gr_world s)) (tombstone_of p) = None)"

lemma calm_sweep_blob:
  assumes "calm topo clk s" "lst.orphan s x" "sq_blobs (w_idx (gr_world s)) x = Some b'"
    and e: "s' = sweep_blob (local_io H T J C) x (address_at (ib_path b')) s"
  obtains d' i' where "s' = (None, count_removed x 0 (set_idx i' (set_drv d' s)))" "calm topo clk (snd s')"
    "sq_blobs i' = (sq_blobs (w_idx (gr_world s)))(x := None)"
    "\<And>q. q \<noteq> tombstone_of (ib_path b') \<Longrightarrow> node d' q = node (w_drv (gr_world s)) q" "node d' (tombstone_of (ib_path b')) = None"
proof -
  let ?d = "w_drv (gr_world s)" and ?i = "w_idx (gr_world s)"
  have c: "lfs_rel ?d" "index_rel ?i" "index_wf ?i" "lst.gc_ok topo s" using assms(1) by (auto simp: calm_def lst.gc_ok_def)
  have x: "is_hex_ref x" "ib_refs b' = 0" using assms(2,3) by (auto simp: lst.orphan_def)
  from c(1) calm_rows(1) [OF assms(1,3)] obtain d' where d: "lfs_remove_tombstone ?d (ib_path b') = (Inr (), d')" "lfs_rel d'"
      "lf_clock d' = lf_clock ?d" "\<And>q. q \<noteq> tombstone_of (ib_path b') \<Longrightarrow> node d' q = node ?d q" "node d' (tombstone_of (ib_path b')) = None"
    by (rule unmark_nodes) blast
  obtain z i' where z: "si_delete_orphan_blob sqlite_index x ?i = (Inr z, i')"
    using rsqx.irel_drop [OF c(2) x(1)] by (metis prod.collapse)
  then have i: "z" "sq_blobs i' = (sq_blobs ?i)(x := None)" using sqx.drop_ok [OF c(3) x(1) z] assms(3) x(2) by auto
  have r: "index_rel i'" using rsqx.irel_keep(3) [OF c(2), of x] z by simp
  have s': "s' = (None, count_removed x 0 (set_idx i' (set_drv d' s)))"
    using d(1) z i(1) by (simp add: e sweep_blob_def Let_def address_at_def)
  have "si_resolve sqlite_index x ?i = Inr (address_at (ib_path b'))"
    using rsqx.irel_resolve [OF c(2) x(1)] assms(3) by (simp add: address_at_def)
  then have "lst.gc_ok topo (snd s')" using lst.sweep_blob_safe [OF c(4) assms(2), of H T J C "address_at (ib_path b')"] by (simp add: e)
  then have "calm topo clk (snd s')" using assms(1) d(2,3) r s' by (simp add: calm_def)
  then show thesis using that s' i(2) d(4,5) by blast
qed

lemma calm_sweep_step:
  assumes "calm topo clk s" "lst.orphan s x" "ctx = background" "\<not> within_grace grace now (f_mtime n)"
    and "entombed (ib_path b) n s \<and> sq_blobs (w_idx (gr_world s)) r = Some b \<or> reaped r (ib_path b) s"
    and pb: "\<And>q. ib_path b \<noteq> tombstone_of q" "\<forall>y b'. sq_blobs (w_idx (gr_world s)) y = Some b' \<and> y \<noteq> r \<longrightarrow> ib_path b' \<noteq> ib_path b"
    and e: "s' = sweep_step (local_io H T J C) ctx grace now x s"
  shows "fst s' = None \<and> calm topo clk (snd s')
    \<and> (entombed (ib_path b) n (snd s') \<and> sq_blobs (w_idx (gr_world (snd s'))) r = Some b \<or> reaped r (ib_path b) (snd s'))
    \<and> (reaped r (ib_path b) s \<or> x = r \<longrightarrow> reaped r (ib_path b) (snd s'))"
proof -
  let ?s = "s \<lparr> gr_tick := Suc (gr_tick s) \<rparr>" and ?io = "local_io H T J C" and ?p = "ib_path b"
  have c: "calm topo clk ?s" "lst.orphan ?s x" using assms(1,2) calm_cong [of ?s s] by simp_all
  have t: "entombed ?p n ?s = entombed ?p n s" "reaped r ?p ?s = reaped r ?p s" by (simp_all add: entombed_def reaped_def)
  from calm_resolve [OF assms(1,2)] show ?thesis
  proof (elim disjE exE conjE)
    assume "si_resolve sqlite_index x (w_idx (gr_world s)) = Inl ErrArtifactNotFound" "sq_blobs (w_idx (gr_world s)) x = None"
    then have "s' = (None, ?s)" "x = r \<longrightarrow> reaped r ?p s" using assms(3,5) by (auto simp: e sweep_step_def Let_def background_def)
    then show ?thesis using c(1) t assms(5) by auto
  next
    fix b'
    assume b': "sq_blobs (w_idx (gr_world s)) x = Some b'" "ib_refs b' = 0" "clean_path (ib_path b')" "ib_path b' \<noteq> []"
      "si_resolve sqlite_index x (w_idx (gr_world s)) = Inr (address_at (ib_path b'))"
    let ?m = "case node (w_drv (gr_world s)) (tombstone_of (ib_path b')) of None \<Rightarrow> (False, 0) | Some n \<Rightarrow> (True, f_mtime n)"
    have i: "lfs_tombstone_info (w_drv (gr_world s)) (ib_path b') = Inr ?m"
      using info_node [OF _ b'(3)] assms(1) by (simp add: calm_def)
    have xr: "x = r \<Longrightarrow> b' = b \<and> entombed ?p n s" using assms(5) b'(1) by (auto simp: reaped_def)
    have s': "s' = (if \<not> fst ?m \<or> within_grace grace now (snd ?m) then (None, ?s) else sweep_blob ?io x (address_at (ib_path b')) ?s)"
      using b'(4,5) i assms(3) by (auto simp: e sweep_step_def Let_def address_at_def background_def split: option.splits)
    show ?thesis
    proof (cases "\<not> fst ?m \<or> within_grace grace now (snd ?m)")
      case True
      then have "x \<noteq> r" using xr assms(4) by (auto simp: entombed_def)
      then show ?thesis using s' True c(1) t assms(5) by simp
    next
      case False
      then have sb: "s' = sweep_blob ?io x (address_at (ib_path b')) ?s" using s' by simp
      have b1: "sq_blobs (w_idx (gr_world ?s)) x = Some b'" using b'(1) by simp
      obtain d' i' where w: "s' = (None, count_removed x 0 (set_idx i' (set_drv d' ?s)))" "calm topo clk (snd s')"
          "sq_blobs i' = (sq_blobs (w_idx (gr_world ?s)))(x := None)"
          "\<And>q. q \<noteq> tombstone_of (ib_path b') \<Longrightarrow> node d' q = node (w_drv (gr_world ?s)) q" "node d' (tombstone_of (ib_path b')) = None"
        by (rule calm_sweep_blob [OF c b1 sb]) blast
      show ?thesis
      proof (cases "x = r")
        case True
        then show ?thesis using w xr pb(1) by (auto simp: reaped_def entombed_def)
      next
        case False
        then have "ib_path b' \<noteq> ?p" using pb(2) b'(1) by blast
        then have "node d' ?p = node (w_drv (gr_world s)) ?p" "node d' (tombstone_of ?p) = node (w_drv (gr_world s)) (tombstone_of ?p)"
          using w(4) pb(1) by auto
        then show ?thesis using w(1-3) False assms(5) by (auto simp: reaped_def entombed_def)
      qed
    qed
  qed
qed

lemma calm_sweep:
  assumes "calm topo clk s" "ctx = background" "sq_blobs (w_idx (gr_world s)) r = Some b" "ib_refs b = 0" "entombed (ib_path b) n s"
    and "\<And>k. \<not> within_grace grace (clk k) (f_mtime n)" and e: "s' = snd (sweep (local_io H T J C) ctx grace s)"
  shows "calm topo clk s' \<and> reaped r (ib_path b) s'"
proof -
  let ?io = "local_io H T J C" and ?p = "ib_path b" and ?now = "lf_now (w_drv (gr_world s))"
  obtain refs k where l: "list_orphans ?io ctx s = (refs, None, s \<lparr> gr_tick := k \<rparr>)"
      "set refs = {r. \<exists>b. sq_blobs (w_idx (gr_world s)) r = Some b \<and> ib_refs b = 0}" "\<And>x. x \<in> set refs \<Longrightarrow> lst.orphan s x"
    using assms(1,2) by (rule calm_list [where H = H and T = T and J = J and C = C]) blast
  let ?s = "s \<lparr> gr_tick := k \<rparr>" and ?f = "sweep_step ?io ctx grace ?now"
  have now: "\<not> within_grace grace ?now (f_mtime n)" using assms(1,6) by (auto simp: lf_now_def calm_def)
  let ?Q = "\<lambda>x. calm topo clk x \<and> lst.gc_rel s x \<and> (entombed ?p n x \<and> sq_blobs (w_idx (gr_world x)) r = Some b \<or> reaped r ?p x)"
  have step: "fst (?f y x) = None \<and> ?Q (snd (?f y x)) \<and> (reaped r ?p x \<or> y = r \<longrightarrow> reaped r ?p (snd (?f y x)))"
    if y: "y \<in> set refs" and x: "?Q x" for y x
  proof -
    have o: "lst.orphan x y" using l(3) [OF y] lst.orphan_rel x by blast
    have p: "\<forall>z b'. sq_blobs (w_idx (gr_world x)) z = Some b' \<and> z \<noteq> r \<longrightarrow> ib_path b' \<noteq> ?p"
      using calm_rows(3) [OF assms(1,3)] lst.gc_rel_row [of s x] x by blast
    have t: "ib_path b \<noteq> tombstone_of q" for q using calm_rows(2) [OF assms(1,3)] .
    have "lst.gc_rel s (snd (?f y x))"
      using lst.sweep_step_safe [OF _ o, of topo H T J C ctx grace ?now] x lst.gc_rel_trans [of s x] by (auto simp: calm_def)
    then show ?thesis
      using calm_sweep_step [where H = H and T = T and J = J and C = C and topo = topo and clk = clk and r = r, OF _ o assms(2) now _ t p refl] x by blast
  qed
  have r: "r \<in> set refs" using l(2) assms(3,4) by blast
  have "fst (gc_loop ?f refs ?s) = None \<and> ?Q (snd (gc_loop ?f refs ?s))
    \<and> (r \<in> set refs \<or> reaped r ?p ?s \<longrightarrow> reaped r ?p (snd (gc_loop ?f refs ?s)))"
  proof (rule gc_loop_reach)
    show "?Q ?s" using assms(1,3,5) calm_cong [of ?s s] lst.gc_rel_same [of ?s s] by simp
  qed (use step r in blast)+
  then show ?thesis using l(1) r by (cases "gc_loop ?f refs ?s") (auto simp: e sweep_def)
qed

lemma reaps_old:
  assumes "gc_inv h s" "lfs_rel (w_drv (st_world s))" "index_rel (w_idx (st_world s))"
    and "sq_blobs (w_idx (st_world s)) r = Some b" "ib_refs b = 0"
    and "node (w_drv (st_world s)) (ib_path b) = Some n" "node (w_drv (st_world s)) (tombstone_of (ib_path b)) = None"
    and "\<And>k. int (f_mtime n) + grace \<le> int (lf_clock (w_drv (st_world s)) k)"
    and "run_cycle (st_io s) background grace complete (st_world s) = (e, g)"
  shows "r \<in> set (gr_deleted g) \<and> sq_blobs (w_idx (gr_world g)) r = None \<and> gs_freed (gr_stats g) = 0
    \<and> lfs_view (w_drv (gr_world g)) (ib_path b) = None \<and> lfs_view (w_drv (gr_world g)) (tombstone_of (ib_path b)) = None"
proof -
  obtain H T J C where io: "st_io s = local_io H T J C" using assms(1) by (auto simp: gc_inv_def)
  let ?io = "local_io H T J C" and ?topo = "cf_path_topology (session_config s)" and ?clk = "lf_clock (w_drv (st_world s))"
  let ?s0 = "gc_start (st_world s) \<lparr> gr_tick := 1 \<rparr>"
  let ?s1 = "snd (mark ?io background ?s0)"
  let ?s2 = "snd (reconcile_media ?io background complete ?s1)"
  have w: "gr_world ?s0 = st_world s" "gs_freed (gr_stats ?s0) = 0" by (simp_all add: gc_start_def no_stats_def)
  have "lst.gc_ok ?topo ?s0" using gc_inv_start [OF assms(1)] by (simp add: lst.gc_ok_def)
  then have 0: "calm ?topo ?clk ?s0" "filed (ib_path b) n ?s0" using assms(2,3,6,7) w by (simp_all add: calm_def filed_def)
  have 1: "calm ?topo ?clk ?s1" "w_idx (gr_world ?s1) = w_idx (st_world s)" "entombed (ib_path b) n ?s1"
    using calm_mark [OF 0(1) refl _ assms(5) 0(2), of r H T J C] assms(4) w(1) by auto
  have 2: "calm ?topo ?clk ?s2" "w_idx (gr_world ?s2) = w_idx (st_world s)" "entombed (ib_path b) n ?s2"
    using calm_media [OF 1(1) refl _ 1(3) refl, of r H T J C complete] assms(4) 1(2) by auto
  have gr: "\<not> within_grace grace (?clk k) (f_mtime n)" for k using assms(8) [of k] by (simp add: within_grace_def)
  have g: "g = snd (sweep ?io background grace ?s2)"
    using assms(9) io by (auto simp: run_cycle_def Let_def background_def [of 0] split: prod.splits)
  have "calm ?topo ?clk g \<and> reaped r (ib_path b) g"
    by (rule calm_sweep [where n = n, OF 2(1) refl _ assms(5) 2(3) gr g]) (use assms(4) 2(2) in simp)
  then show ?thesis by (simp add: calm_def reaped_def node_def lfs_view_def)
qed

text \<open>C37: the grace period runs from the last modification of the blob file, not from the mark.  On a medium and an index that
  do not fail, an orphan whose file is older than the grace period is marked and swept in the same
  cycle: row, file and marker are gone and the deletion is reported, with zero bytes freed.\<close>

theorem gc_reaps_old:
  assumes "gc_inv h s" "lfs_rel (w_drv (st_world s))" "index_rel (w_idx (st_world s))"
    and "sq_blobs (w_idx (st_world s)) r = Some b" "ib_refs b = 0"
    and "node (w_drv (st_world s)) (ib_path b) = Some n" "node (w_drv (st_world s)) (tombstone_of (ib_path b)) = None"
    and "\<And>k. int (f_mtime n) + grace \<le> int (lf_clock (w_drv (st_world s)) k)"
    and "run_cycle (st_io s) background grace complete (st_world s) = (e, g)"
  shows "r \<in> set (gr_deleted g) \<and> sq_blobs (w_idx (gr_world g)) r = None \<and> gs_freed (gr_stats g) = 0
    \<and> lfs_view (w_drv (gr_world g)) (ib_path b) = None \<and> lfs_view (w_drv (gr_world g)) (tombstone_of (ib_path b)) = None"
  using assms by (rule reaps_old)

subsection \<open>A write after the mark\<close>

lemma row_content_hex:
  assumes "index_wf i" "sq_blobs i r = Some b"
  shows "is_hex_ref (ib_content b)"
proof -
  obtain k br where k: "map_of (ix_blobs i) k = Some br" "b = blob_view br"
    using assms(2) by (auto simp: sq_blobs_def split: if_splits option.splits)
  then have "br_content_hash br \<noteq> []" using assms(1) unfolding index_wf_def by blast
  then show ?thesis using k(2) by (simp add: blob_view_def)
qed

lemma dedup_entombed:
  assumes "calm topo clk g" "sq_blobs (w_idx (gr_world g)) r = Some b" "entombed (ib_path b) n g" "is_uuid u" "ib_crypto b = []"
    and "\<forall>r' b'. sq_blobs (w_idx (gr_world g)) r' = Some b' \<and> ib_content b' = ib_content b \<and> ib_size b' = ib_size b \<and> ib_crypto b' = [] \<longrightarrow> r' = r"
    and "commit_blob (local_io H T J C) cfg (make_staging_path u) (ib_content b) (ib_size b) ref [] (gr_world g) = (x, w)"
  shows "x = Inr (r, address_at (ib_path b)) \<and> open_target (local_io H T J C) (w_drv w) m (ib_path b) = Inl ErrCorruptedBlob"
proof -
  let ?i = "w_idx (gr_world g)" and ?d = "w_drv (gr_world g)" and ?st = "make_staging_path u"
  have c: "lfs_rel ?d" "index_rel ?i" "index_wf ?i" using assms(1) by (auto simp: calm_def lst.gc_ok_def)
  note h = row_content_hex [OF c(3) assms(2)]
  obtain y where y: "si_exists_by_content sqlite_index (ib_content b) (ib_size b) [] ?i = Inr y"
    using rsqx.irel_content [OF c(2) h] by blast
  have "y = Some r"
  proof (cases y)
    case None
    then show ?thesis using sqx.content_absent [OF c(3) h, of "ib_size b" "[]" r b] y assms(2,5) by simp
  next
    case (Some z)
    then show ?thesis using sqx.content_ok [OF c(3) h, of "ib_size b" "[]" z] y assms(6) by auto
  qed
  then have p: "dedup_probe (local_io H T J C) (ib_content b) (ib_size b) ref [] ?i = Inr (Some r)" using y by (simp add: dedup_probe_def)
  have st: "clean_path ?st" using clean_staging_path [OF assms(4)] .
  obtain d where d: "lfs_remove ?d ?st = (Inr (), d)" using rlfs.rel_remove [OF c(1) st] by (metis localfs_driver_simps(3) prod.collapse)
  have r: "si_resolve sqlite_index r ?i = Inr (address_at (ib_path b))"
    using rsqx.irel_resolve [OF c(2), of r] sqx.ibl_key [OF c(3) assms(2)] assms(2) by (simp add: address_at_def)
  have xw: "x = Inr (r, address_at (ib_path b))" "w = gr_world g \<lparr> w_drv := d \<rparr>"
    using assms(7) p d r by (simp_all add: commit_blob_def Let_def)
  have "lfs_rel d" using rlfs.rel_keep(2) [OF c(1) st] d by simp
  moreover have "lfs_view d = (lfs_view ?d)(?st := None)"
    using lfs.remove_ok [of ?d ?st "()" d] lfs_rel_inv [OF c(1)] st d by simp
  moreover have "lfs_view ?d (ib_path b) = None" using assms(3) by (simp add: entombed_def node_def lfs_view_def)
  ultimately have "lfs_get d (ib_path b) = Inl ErrNotExist"
    using rlfs.rel_get [of d "ib_path b"] calm_rows(1) [OF assms(1,2)] by simp
  then show ?thesis using xw by (simp add: open_target_def)
qed

text \<open>C38: a write between mark and sweep is lost.  Once a cycle has marked an orphan, a blob with the orphan's content is
  deduplicated onto its row, although the file has been renamed away: the commit succeeds with an
  address that cannot be opened, and every read of the artifact reports corruption.\<close>

theorem dedup_onto_tombstone:
  assumes "gc_inv h s" "lfs_rel (w_drv (st_world s))" "index_rel (w_idx (st_world s))"
    and "sq_blobs (w_idx (st_world s)) r = Some b" "ib_refs b = 0" "ib_crypto b = []"
    and "node (w_drv (st_world s)) (ib_path b) = Some n" "node (w_drv (st_world s)) (tombstone_of (ib_path b)) = None"
    and "\<forall>r' b'. sq_blobs (w_idx (st_world s)) r' = Some b' \<and> ib_content b' = ib_content b \<and> ib_size b' = ib_size b \<and> ib_crypto b' = [] \<longrightarrow> r' = r"
    and "is_uuid u" "mark (st_io s) background (gc_start (st_world s)) = (e, g)"
    and "commit_blob (st_io s) (session_config s) (make_staging_path u) (ib_content b) (ib_size b) ref [] (gr_world g) = (x, w)"
  shows "x = Inr (r, address_at (ib_path b)) \<and> open_target (st_io s) (w_drv w) m (ib_path b) = Inl ErrCorruptedBlob"
proof -
  obtain H T J C where io: "st_io s = local_io H T J C" using assms(1) by (auto simp: gc_inv_def)
  let ?topo = "cf_path_topology (session_config s)" and ?clk = "lf_clock (w_drv (st_world s))"
  have 0: "calm ?topo ?clk (gc_start (st_world s))" "filed (ib_path b) n (gc_start (st_world s))"
    using assms(2,3,7,8) gc_inv_start [OF assms(1)] by (simp_all add: calm_def filed_def gc_start_def no_stats_def)
  have g: "g = snd (mark (local_io H T J C) background (gc_start (st_world s)))" using assms(11) io by simp
  have 1: "calm ?topo ?clk g" "w_idx (gr_world g) = w_idx (st_world s)" "entombed (ib_path b) n g"
    using calm_mark [OF 0(1) refl _ assms(5) 0(2), of r H T J C] assms(4) by (simp_all add: g gc_start_def)
  show ?thesis
    using dedup_entombed [OF 1(1) _ 1(3) assms(10,6) _ assms(12) [unfolded io], of r m] assms(4,9) 1(2) io by simp
qed

subsection \<open>A store with an orphan\<close>

definition orphan_key :: key where
  "orphan_key = len_hash ''old''"

definition orphan_path :: path where
  "orphan_path = ''blobs/'' @ hex_encode orphan_key"

definition orphan_row :: blob_row where
  "orphan_row = \<lparr> br_content_hash = orphan_key, br_original_size = 3, br_physical_path = orphan_path, br_crypto_identity = [],
     br_ref_count = 0, br_last_verified = None, br_created_at = 0 \<rparr>"

definition orphan_store :: "(localfs, index_state) store" where
  "orphan_store = sample_store \<lparr> st_active := sample_config \<lparr> cf_path_topology := TopologyFlat \<rparr>,
     st_world := \<lparr> w_drv = sample_fs \<lparr> lf_files := [(abs_path sample_fs orphan_path, \<lparr> f_content = ''old'', f_mtime = 0 \<rparr>)] \<rparr>,
                   w_idx = fresh_index \<lparr> ix_blobs := [(orphan_key, orphan_row)] \<rparr> \<rparr> \<rparr>"

lemma orphan_key_len: "length orphan_key = 3"
  by (simp add: orphan_key_def len_hash_def)

lemma orphan_wf: "wf_ref (hex_encode orphan_key)" "orphan_key \<noteq> []" "clean_path orphan_path" "blob_path TopologyFlat BlobTypeRegular (hex_encode orphan_key) = Inr orphan_path"
proof -
  show k: "orphan_key \<noteq> []" using orphan_key_len by auto
  show w: "wf_ref (hex_encode orphan_key)" using wf_ref_hex [of orphan_key] orphan_key_len by simp
  show p: "blob_path TopologyFlat BlobTypeRegular (hex_encode orphan_key) = Inr orphan_path"
    using wf_ref_facts(1) [OF w] by (simp add: blob_path_def root_for_def orphan_path_def)
  show "clean_path orphan_path" using clean_blob_path [OF w p] .
qed

lemma orphan_rows:
  "sq_blobs (w_idx (st_world orphan_store)) r = (if r = hex_encode orphan_key then Some (blob_view orphan_row) else None)"
  "sq_manifests (w_idx (st_world orphan_store)) = (\<lambda>_. None)"
  using orphan_wf(2)
  by (auto simp: sq_blobs_def sq_manifests_def orphan_store_def fresh_index_def fun_eq_iff elim!: is_hex_refE split: option.splits)

lemma orphan_nodes:
  "node (w_drv (st_world orphan_store)) orphan_path = Some \<lparr> f_content = ''old'', f_mtime = 0 \<rparr>"
  "node (w_drv (st_world orphan_store)) (tombstone_of orphan_path) = None"
  by (simp_all add: node_def orphan_store_def abs_path_def)

lemma orphan_store_inv:
  "gc_inv len_hash orphan_store" "lfs_rel (w_drv (st_world orphan_store))" "index_rel (w_idx (st_world orphan_store))"
proof -
  show i: "index_rel (w_idx (st_world orphan_store))"
    using orphan_wf(2) by (simp add: orphan_store_def index_rel_def index_wf_def fresh_index_def edges_of_def orphan_row_def)
  show l: "lfs_rel (w_drv (st_world orphan_store))"
  proof -
    have "has_prefix (abs_path sample_fs orphan_path) (lf_root sample_fs @ ''/'')" by (simp add: abs_path_def has_prefix_def)
    moreover have "lf_root sample_fs \<noteq> ''/''" "lf_fault sample_fs k c = None" for k c by (simp_all add: sample_fs_def)
    ultimately show ?thesis
      using clean_path_not_temp(1) [OF orphan_wf(3)] by (simp add: orphan_store_def lfs_rel_def lfs_inv_def)
  qed
  have "lfs_view (w_drv (st_world orphan_store)) p \<noteq> None \<Longrightarrow> p = orphan_path" for p
    by (auto simp: lfs_view_def orphan_store_def abs_path_def split: if_splits)
  then have "tidy clean_path (lfs_view (w_drv (st_world orphan_store)))"
    using orphan_wf(3) by (fastforce simp: tidy_def orphan_path_def)
  moreover have "cf_path_topology (session_config orphan_store) = TopologyFlat"
    by (simp add: session_config_def merge_session_def orphan_store_def Let_def)
  then have "live (st_io orphan_store) (store_keys orphan_store) (session_config orphan_store) len_hash (lfs_view (w_drv (st_world orphan_store)))
      (sq_manifests (w_idx (st_world orphan_store))) (sq_blobs (w_idx (st_world orphan_store)))"
    using orphan_wf by (auto simp: live_def orphan_rows blob_view_def orphan_row_def split: if_splits)
  ultimately show "gc_inv len_hash orphan_store"
    using l i by (auto simp: gc_inv_def lfs_rel_def index_rel_def orphan_store_def)
qed

theorem gc_cycle_safe_witness:
  "\<exists>r g. run_cycle (st_io orphan_store) (\<lambda>k. if k < 4 then None else Some ErrContext) 1 True (st_world orphan_store) = (r, g)
    \<and> gc_inv len_hash (orphan_store \<lparr> st_world := gr_world g \<rparr>) \<and> abs_store (orphan_store \<lparr> st_world := gr_world g \<rparr>) = abs_store orphan_store"
proof -
  obtain r g where c: "run_cycle (st_io orphan_store) (\<lambda>k. if k < 4 then None else Some ErrContext) 1 True (st_world orphan_store) = (r, g)"
    by fastforce
  then show ?thesis using gc_cycle_safe [OF orphan_store_inv(1) c] by blast
qed

theorem gc_reaps_old_witness:
  "\<exists>e g. run_cycle (st_io orphan_store) background 1 True (st_world orphan_store) = (e, g)
    \<and> hex_encode orphan_key \<in> set (gr_deleted g) \<and> lfs_view (w_drv (gr_world g)) orphan_path = None \<and> gs_freed (gr_stats g) = 0"
proof -
  obtain e g where c: "run_cycle (st_io orphan_store) background 1 True (st_world orphan_store) = (e, g)" by fastforce
  have b: "ib_path (blob_view orphan_row) = orphan_path" "ib_refs (blob_view orphan_row) = 0" by (simp_all add: blob_view_def orphan_row_def)
  have k: "int (f_mtime \<lparr> f_content = ''old'', f_mtime = 0 \<rparr>) + 1 \<le> int (lf_clock (w_drv (st_world orphan_store)) k)" for k
    by (simp add: orphan_store_def sample_fs_def)
  show ?thesis
    using gc_reaps_old [OF orphan_store_inv _ b(2) _ _ k c, of "hex_encode orphan_key"] orphan_rows(1) orphan_nodes b c by auto
qed

theorem dedup_onto_tombstone_witness:
  "\<exists>e g x w. mark (st_io orphan_store) background (gc_start (st_world orphan_store)) = (e, g)
    \<and> commit_blob (st_io orphan_store) (session_config orphan_store) (make_staging_path ''ab'') (hex_encode orphan_key) 3 (hex_encode orphan_key) [] (gr_world g) = (x, w)
    \<and> x = Inr (hex_encode orphan_key, address_at orphan_path)
    \<and> open_target (st_io orphan_store) (w_drv w) zero_manifest orphan_path = Inl ErrCorruptedBlob"
proof -
  obtain e g where m: "mark (st_io orphan_store) background (gc_start (st_world orphan_store)) = (e, g)" by fastforce
  have b: "ib_path (blob_view orphan_row) = orphan_path" "ib_refs (blob_view orphan_row) = 0" "ib_crypto (blob_view orphan_row) = []"
      "ib_content (blob_view orphan_row) = hex_encode orphan_key" "ib_size (blob_view orphan_row) = 3"
    by (simp_all add: blob_view_def orphan_row_def)
  obtain x w where c: "commit_blob (st_io orphan_store) (session_config orphan_store) (make_staging_path ''ab'')
      (ib_content (blob_view orphan_row)) (ib_size (blob_view orphan_row)) (hex_encode orphan_key) [] (gr_world g) = (x, w)"
    by fastforce
  have u: "is_uuid ''ab''" by (simp add: is_uuid_def is_lower_hex_def)
  have "x = Inr (hex_encode orphan_key, address_at (ib_path (blob_view orphan_row)))
      \<and> open_target (st_io orphan_store) (w_drv w) zero_manifest (ib_path (blob_view orphan_row)) = Inl ErrCorruptedBlob"
    by (rule dedup_onto_tombstone [OF orphan_store_inv _ b(2,3) _ _ _ u m c])
       (use orphan_rows(1) orphan_nodes b(1) in \<open>auto split: if_splits\<close>)
  then show ?thesis using m c b by auto
qed

end
