(* ===== verification/Reopen.thy ===== *)
theory Reopen
  imports Gc
begin

text \<open>
  Opening a store over whatever a crash or a lost index left behind: the decision whether the index may be trusted
  (\<^verbatim>\<open>engine/store/index_readiness.go\<close>, \<^verbatim>\<open>guardIndexAtRest\<close>) and the reconciliation pass over the files
  (\<^verbatim>\<open>engine/store/internal/orphanscan\<close>), which removes staging leftovers and fragments and reads every manifest
  the index does not know back into it.

  \<open>on_disk\<close> is the truth the files tell by themselves: the artifacts whose manifest file verifies against its
  name and whose payload can be read back.  The pass never loses any of it, whatever fails, and without failures the
  store holds exactly that afterwards, so an index that was lost is recovered by opening.

  A pass that cannot read some manifest reports no error all the same, and the session counts the index as complete:
  the collector then takes the blobs of the skipped manifest for garbage (\<open>skipped_manifest_collected\<close>).
\<close>

subsection \<open>Index readiness\<close>








text \<open>What an index declares about its data at rest; an index that does not report has no profile.\<close>

datatype at_rest = AtRestPlaintext | AtRestEncrypted | AtRestEphemeral


definition guard_index_at_rest :: "manifest_crypto \<Rightarrow> at_rest option \<Rightarrow> err option" where
  "guard_index_at_rest crypto profile =
     (if crypto \<noteq> CryptoParanoid then None
      else if (case profile of None \<Rightarrow> AtRestPlaintext | Some r \<Rightarrow> r) = AtRestPlaintext
      then Some (ErrMsg ''unsupported combination'') else None)"


subsection \<open>The reconciliation pass\<close>

record orphan_report =
  or_staging_removed :: nat
  or_manifests_removed :: nat
  or_manifests_indexed :: nat
  or_errors :: "err list"

definition empty_report :: orphan_report where
  "empty_report = \<lparr> or_staging_removed = 0, or_manifests_removed = 0, or_manifests_indexed = 0, or_errors = [] \<rparr>"

record ('d, 'i) pass =
  ps_store :: "('d, 'i) store"
  ps_report :: orphan_report
  ps_tick :: nat

definition note_error :: "err \<Rightarrow> ('d, 'i) pass \<Rightarrow> ('d, 'i) pass" where
  "note_error e s = s \<lparr> ps_report := ps_report s \<lparr> or_errors := or_errors (ps_report s) @ [e] \<rparr> \<rparr>"

definition pass_drv :: "'d \<Rightarrow> ('d, 'i) pass \<Rightarrow> ('d, 'i) pass" where
  "pass_drv d s = s \<lparr> ps_store := ps_store s \<lparr> st_world := st_world (ps_store s) \<lparr> w_drv := d \<rparr> \<rparr> \<rparr>"

abbreviation pass_world :: "('d, 'i) pass \<Rightarrow> ('d, 'i) world" where
  "pass_world s \<equiv> st_world (ps_store s)"

definition staging_step :: "contexts \<Rightarrow> path \<Rightarrow> ('d, 'i) pass \<Rightarrow> err option \<times> ('d, 'i) pass" where
  "staging_step ctx p s =
     (case ctx (ps_tick s) of
        Some e \<Rightarrow> (Some e, s)
      | None \<Rightarrow>
     let s1 = s \<lparr> ps_tick := Suc (ps_tick s) \<rparr> in
     case d_remove (io_drv (st_io (ps_store s1))) (w_drv (pass_world s1)) p of
        (Inl e, d) \<Rightarrow> (None, note_error e (pass_drv d s1))
      | (Inr _, d) \<Rightarrow> (None, pass_drv d s1
          \<lparr> ps_report := ps_report s1 \<lparr> or_staging_removed := or_staging_removed (ps_report s1) + 1 \<rparr> \<rparr>))"

definition remove_fragment :: "path \<Rightarrow> ('d, 'i) pass \<Rightarrow> ('d, 'i) pass" where
  "remove_fragment p s =
     (case d_remove (io_drv (st_io (ps_store s))) (w_drv (pass_world s)) p of
        (Inl e, d) \<Rightarrow> note_error e (pass_drv d s)
      | (Inr _, d) \<Rightarrow> pass_drv d s \<lparr> ps_report := ps_report s \<lparr> or_manifests_removed := or_manifests_removed (ps_report s) + 1 \<rparr> \<rparr>)"

definition manifest_step :: "contexts \<Rightarrow> (nat \<Rightarrow> time) \<Rightarrow> path \<Rightarrow> ('d, 'i) pass \<Rightarrow> err option \<times> ('d, 'i) pass" where
  "manifest_step ctx clock p s =
     (case ctx (ps_tick s) of
        Some e \<Rightarrow> (Some e, s)
      | None \<Rightarrow>
     let s1 = s \<lparr> ps_tick := Suc (ps_tick s) \<rparr> in
     case digest_from_manifest_path p of
        Inl e \<Rightarrow> (None, note_error e s1)
      | Inr dg \<Rightarrow>
     (case si_manifest_exists_by_digest (io_index (st_io (ps_store s1))) dg (w_idx (pass_world s1)) of
        Inl e \<Rightarrow> (None, note_error e s1)
      | Inr True \<Rightarrow> (None, s1)
      | Inr False \<Rightarrow>
     (case ingest_manifest (clock (ps_tick s1)) dg (ps_store s1) of
        (Inr _, st) \<Rightarrow> (None, s1 \<lparr> ps_store := st,
            ps_report := ps_report s1 \<lparr> or_manifests_indexed := or_manifests_indexed (ps_report s1) + 1 \<rparr> \<rparr>)
      | (Inl e, st) \<Rightarrow>
          (None, if e = ErrCorruptedManifest then remove_fragment p (s1 \<lparr> ps_store := st \<rparr>)
                 else note_error e (s1 \<lparr> ps_store := st \<rparr>)))))"

text \<open>Both sweeps act on every file their walk hands over; a walk that fails ends the pass after the files it has handed
  over so far.  Every caller passes an ingester.\<close>

definition scan_reconcile :: "contexts \<Rightarrow> (nat \<Rightarrow> time) \<Rightarrow> ('d, 'i) store \<Rightarrow> err option \<times> ('d, 'i) pass" where
  "scan_reconcile ctx clock st =
     (let s = \<lparr> ps_store = st, ps_report = empty_report, ps_tick = 0 \<rparr>; D = io_drv (st_io st) in
      case d_walk D (w_drv (st_world st)) staging_prefix 0 of
        (ms, we) \<Rightarrow>
     (case gc_loop (staging_step ctx) (map om_path ms) s of
        (Some e, s1) \<Rightarrow> (Some e, s1)
      | (None, s1) \<Rightarrow>
     (case we of
        Some e \<Rightarrow> (Some e, s1)
      | None \<Rightarrow>
     (case d_walk D (w_drv (pass_world s1)) ''manifests'' 0 of
        (ms', we') \<Rightarrow>
     (case gc_loop (manifest_step ctx clock) (map om_path ms') s1 of
        (Some e, s2) \<Rightarrow> (Some e, s2)
      | (None, s2) \<Rightarrow> (we', s2))))))"

subsection \<open>The truth on disk\<close>

definition file_reads :: "('d, 'i) cas_io \<Rightarrow> path_topology \<Rightarrow> (path \<Rightarrow> bytes option) \<Rightarrow> manifest \<Rightarrow> bytes \<Rightarrow> bool" where
  "file_reads io topo v m p = (if blob_storage m = layout_inline then p = inline_blob m
     else blob_storage m = layout_target \<and> (\<exists>q c. blob_path topo BlobTypeRegular (primary_blob_ref m) = Inr q \<and> v q = Some c
       \<and> build_get (io_transformers io) (pipeline m) (c, None) = Inr (p, None)))"

definition on_disk ::
    "('d, 'i) cas_io \<Rightarrow> key_provider option \<Rightarrow> string \<Rightarrow> path_topology \<Rightarrow> (path \<Rightarrow> bytes option) \<Rightarrow> (string \<times> bytes) set" where
  "on_disk io keys algo topo v = {(a, p). a \<noteq> [] \<and> (\<exists>dg m. wf_ref dg \<and> stored_as io keys algo v dg m \<and> artifact_id m = a
     \<and> claims (io_hashes io) algo m p \<and> file_reads io topo v m p)}"

text \<open>What the engine writes: manifests that can be indexed, with at most one blob.\<close>

definition engine_files :: "('d, 'i) cas_io \<Rightarrow> key_provider option \<Rightarrow> string \<Rightarrow> (path \<Rightarrow> bytes option) \<Rightarrow> bool" where
  "engine_files io keys algo v = (\<forall>dg m. wf_ref dg \<and> stored_as io keys algo v dg m \<longrightarrow>
     indexable (m \<lparr> digest := dg \<rparr>)
     \<and> (if blob_storage m = layout_inline then blob_refs m = [] else \<exists>x. blob_refs m = [x] \<and> wf_ref x))"

text \<open>The rows of the index agree with the files they describe.\<close>

definition row_agrees :: "manifest \<Rightarrow> (string \<Rightarrow> ix_blob option) \<Rightarrow> ix_manifest \<Rightarrow> bool" where
  "row_agrees m bl r = (im_aid r = (if artifact_id m = [] then None else Some (artifact_id m)) \<and> im_refs r = indexed_refs m
     \<and> (\<forall>x \<in> set (indexed_refs m). bl x \<noteq> None))"

definition index_agrees ::
    "('d, 'i) cas_io \<Rightarrow> key_provider option \<Rightarrow> string \<Rightarrow> path_topology \<Rightarrow> (path \<Rightarrow> bytes option) \<Rightarrow> (string \<Rightarrow> ix_manifest option)
      \<Rightarrow> (string \<Rightarrow> ix_blob option) \<Rightarrow> bool" where
  "index_agrees io keys algo topo v mf bl = (blob_rows topo bl
     \<and> (\<forall>dg r. mf dg = Some r \<longrightarrow> wf_ref dg \<and> (\<forall>m. stored_as io keys algo v dg m \<longrightarrow> row_agrees m bl r)))"

definition tidy_under :: "(path \<Rightarrow> bool) \<Rightarrow> path \<Rightarrow> (path \<Rightarrow> bytes option) \<Rightarrow> bool" where
  "tidy_under ok dir v = (v dir = None \<and> (\<forall>p. listed_under dir p \<and> v p \<noteq> None \<longrightarrow> ok p))"

lemma held_on_disk:
  assumes "index_agrees io keys algo topo v mf bl" "holds io keys algo v mf bl a p"
  shows "(a, p) \<in> on_disk io keys algo topo v"
proof -
  obtain dg r m where r: "mf dg = Some r" "im_aid r = Some a" "stored_as io keys algo v dg m" "im_aid r = Some (artifact_id m)"
      "claims (io_hashes io) algo m p" "reads_as io v bl m p"
    using assms(2) by (auto simp: holds_def artifact_row_def)
  have w: "wf_ref dg" "row_agrees m bl r" using assms(1) r(1,3) unfolding index_agrees_def by blast+
  have "file_reads io topo v m p"
    using r(6) assms(1) unfolding reads_as_def file_reads_def index_agrees_def blob_rows_def by (auto split: if_splits)
  moreover have "artifact_id m = a" "a \<noteq> []" using r(2,4) w(2) by (auto simp: row_agrees_def split: if_splits)
  ultimately show ?thesis using r(3,5) w(1) unfolding on_disk_def by blast
qed

lemma disk_held:
  assumes "index_agrees io keys algo topo v mf bl" "engine_files io keys algo v" "wf_ref dg" "stored_as io keys algo v dg m"
    and "claims (io_hashes io) algo m p" "file_reads io topo v m p" "artifact_id m \<noteq> []" "mf dg = Some r"
  shows "holds io keys algo v mf bl (artifact_id m) p"
proof -
  have ra: "row_agrees m bl r" using assms(1,4,8) unfolding index_agrees_def by blast
  have "reads_as io v bl m p"
  proof (cases "blob_storage m = layout_inline")
    case False
    then obtain q c where q: "blob_storage m = layout_target" "blob_path topo BlobTypeRegular (primary_blob_ref m) = Inr q"
        "v q = Some c" "build_get (io_transformers io) (pipeline m) (c, None) = Inr (p, None)"
      using assms(6) by (auto simp: file_reads_def)
    obtain x where x: "blob_refs m = [x]" using assms(2,3,4) False unfolding engine_files_def by meson
    then have px: "primary_blob_ref m = x" "x \<in> set (indexed_refs m)" using False by (simp_all add: primary_blob_ref_def indexed_refs_def)
    then obtain b where b: "bl x = Some b" using ra by (auto simp: row_agrees_def)
    then have "blob_path topo BlobTypeRegular x = Inr (ib_path b)" using assms(1) unfolding index_agrees_def blob_rows_def by blast
    then show ?thesis using q px b False by (simp add: reads_as_def)
  qed (use assms(6) in \<open>simp add: file_reads_def reads_as_def\<close>)
  then have "artifact_row io keys algo v bl dg r p"
    using ra assms(4,5,7) unfolding artifact_row_def row_agrees_def by auto
  then show ?thesis using assms(7,8) ra unfolding holds_def row_agrees_def by auto
qed

subsection \<open>What the pass keeps\<close>

text \<open>Every file that is a manifest of its own name stays, and so do the blobs.\<close>

definition disk_same ::
    "('d, 'i) cas_io \<Rightarrow> key_provider option \<Rightarrow> string \<Rightarrow> (path \<Rightarrow> bytes option) \<Rightarrow> (path \<Rightarrow> bytes option) \<Rightarrow> bool" where
  "disk_same io keys algo v v' = ((\<forall>dg m. wf_ref dg \<longrightarrow> stored_as io keys algo v' dg m = stored_as io keys algo v dg m)
     \<and> (\<forall>q. \<not> has_prefix q ''.staging/'' \<and> \<not> has_prefix q ''manifests/'' \<longrightarrow> v' q = v q))"

lemma disk_same_refl [simp]: "disk_same io keys algo v v"
  by (simp add: disk_same_def)

lemma disk_same_trans: "disk_same io keys algo v v' \<Longrightarrow> disk_same io keys algo v' v'' \<Longrightarrow> disk_same io keys algo v v''"
  unfolding disk_same_def by metis

lemma blob_path_elsewhere:
  "blob_path topo BlobTypeRegular r = Inr q \<Longrightarrow> \<not> has_prefix q ''.staging/'' \<and> \<not> has_prefix q ''manifests/''"
  by (drule blob_path_root) (auto simp: blob_roots_eq has_prefix_def)

lemma on_disk_same: "disk_same io keys algo v v' \<Longrightarrow> on_disk io keys algo topo v' = on_disk io keys algo topo v"
proof -
  assume d: "disk_same io keys algo v v'"
  have fr: "file_reads io topo v' m p = file_reads io topo v m p" for m p
  proof -
    have "v' q = v q" if "blob_path topo BlobTypeRegular (primary_blob_ref m) = Inr q" for q
      using d blob_path_elsewhere [OF that] unfolding disk_same_def by blast
    then show ?thesis by (cases "blob_path topo BlobTypeRegular (primary_blob_ref m)") (simp_all add: file_reads_def)
  qed
  have st: "(wf_ref dg \<and> stored_as io keys algo v' dg m \<and> X) = (wf_ref dg \<and> stored_as io keys algo v dg m \<and> X)" for dg m X
    using d unfolding disk_same_def by blast
  show ?thesis by (simp only: on_disk_def st fr)
qed

lemma removed_staging:
  assumes "has_prefix p ''.staging/''"
  shows "disk_same io keys algo v (v(p := None))"
proof -
  have "q \<noteq> p" if "manifest_path dg = Inr q" for dg q
    using assms that by (auto simp: manifest_path_def has_prefix_def split: if_splits sum.splits)
  then have "stored_as io keys algo (v(p := None)) dg m = stored_as io keys algo v dg m" for dg m
    by (intro stored_as_frame) auto
  then show ?thesis using assms unfolding disk_same_def by auto
qed

lemma removed_fragment:
  assumes "has_prefix p ''manifests/''" "digest_from_manifest_path p = Inr dg" "\<And>m. \<not> stored_as io keys algo v dg m"
  shows "disk_same io keys algo v (v(p := None))"
proof -
  have "stored_as io keys algo (v(p := None)) d m = stored_as io keys algo v d m" if w: "wf_ref d" for d m
  proof (cases "manifest_path d = Inr p")
    case True
    then have "d = dg" using digest_from_manifest_path_wf [OF w True] assms(2) by simp
    then show ?thesis using assms(3) True by (auto simp: stored_as_def)
  qed (auto intro!: stored_as_frame)
  then show ?thesis using assms(1) unfolding disk_same_def by auto
qed

definition rows_grow :: "(string \<Rightarrow> ix_manifest option) \<Rightarrow> (string \<Rightarrow> ix_blob option) \<Rightarrow> (string \<Rightarrow> ix_manifest option) \<Rightarrow> (string \<Rightarrow> ix_blob option) \<Rightarrow> bool" where
  "rows_grow mf bl mf' bl' = ((\<forall>dg r. mf dg = Some r \<longrightarrow> mf' dg = Some r)
     \<and> (\<forall>r b. bl r = Some b \<longrightarrow> (\<exists>b'. bl' r = Some b' \<and> ib_path b' = ib_path b)))"

lemma rows_grow_refl [simp]: "rows_grow mf bl mf bl"
  by (simp add: rows_grow_def)

lemma rows_grow_trans: "rows_grow mf bl mf' bl' \<Longrightarrow> rows_grow mf' bl' mf'' bl'' \<Longrightarrow> rows_grow mf bl mf'' bl''"
  unfolding rows_grow_def by metis

lemma registered_rows:
  assumes a: "index_agrees io keys algo topo v mf bl" and st: "stored_as io keys algo v dg m" and dg: "wf_ref dg" "mf dg = None"
    and one: "blob_storage m = layout_inline \<and> blob_refs m = [] \<or> (\<exists>x. blob_refs m = [x] \<and> wf_ref x \<and> blob_path topo BlobTypeRegular x = Inr p)"
    and mf': "mf' = spec_index_rows (m \<lparr> digest := dg \<rparr>) n mf" and bl': "bl' = spec_index_blobs (m \<lparr> digest := dg \<rparr>) p bl"
  shows "index_agrees io keys algo topo v mf' bl' \<and> rows_grow mf bl mf' bl'"
proof -
  let ?m = "m \<lparr> digest := dg \<rparr>"
  have f: "digest ?m = dg" "indexed_refs ?m = indexed_refs m" "artifact_id ?m = artifact_id m" by (simp_all add: indexed_refs_def)
  have g: "rows_grow mf bl mf' bl'"
    using dg(2) unfolding rows_grow_def mf' bl' by (auto simp: spec_index_rows_def spec_index_blobs_def f)
  have new: "bl' x \<noteq> None" if "bl x \<noteq> None \<or> x \<in> set (indexed_refs m)" for x
    using that by (auto simp: bl' spec_index_blobs_def f split: option.splits)
  have "wf_ref r \<and> blob_path topo BlobTypeRegular r = Inr (ib_path b')" if b': "bl' r = Some b'" for r b'
  proof (cases "bl r")
    case (Some b)
    then have "ib_path b' = ib_path b" using b' by (auto simp: bl' spec_index_blobs_def)
    then show ?thesis using a Some unfolding index_agrees_def blob_rows_def by metis
  next
    case None
    then have "r \<in> set (indexed_refs m)" "ib_path b' = p" using b' by (auto simp: bl' spec_index_blobs_def f split: if_splits)
    then show ?thesis using one by (auto simp: indexed_refs_def split: if_splits)
  qed
  then have rows: "blob_rows topo bl'" by (simp add: blob_rows_def)
  have "wf_ref d \<and> (\<forall>m0. stored_as io keys algo v d m0 \<longrightarrow> row_agrees m0 bl' r)" if r: "mf' d = Some r" for d r
  proof (cases "d = dg")
    case True
    then have "r = \<lparr> im_aid = (if artifact_id m = [] then None else Some (artifact_id m)), im_session = session_id m,
        im_refs = indexed_refs m, im_order = n \<rparr>"
      using r dg(2) by (cases "artifact_id m = []") (auto simp: mf' spec_index_rows_def f)
    then have "row_agrees m bl' r" using new by (simp add: row_agrees_def)
    then show ?thesis using True dg(1) st stored_as_fun by metis
  next
    case False
    then have o: "mf d = Some r" using r by (simp add: mf' spec_index_rows_def f)
    have "row_agrees m0 bl' r" if "row_agrees m0 bl r" for m0 using that new unfolding row_agrees_def by blast
    then show ?thesis using a o unfolding index_agrees_def by blast
  qed
  then show ?thesis using rows g unfolding index_agrees_def by blast
qed

lemma index_agrees_same:
  assumes "index_agrees io keys algo topo v mf bl" "disk_same io keys algo v v'"
  shows "index_agrees io keys algo topo v' mf bl"
  using assms unfolding index_agrees_def disk_same_def by blast

lemma holds_grow:
  assumes "holds io keys algo v mf bl a p" "rows_grow mf bl mf' bl'"
    and "\<And>dg. mf dg \<noteq> None \<Longrightarrow> wf_ref dg" "disk_same io keys algo v v'" "blob_rows topo bl"
  shows "holds io keys algo v' mf' bl' a p"
proof -
  obtain dg r m where r: "mf dg = Some r" "im_aid r = Some a" "stored_as io keys algo v dg m" "im_aid r = Some (artifact_id m)"
      "im_refs r = indexed_refs m" "claims (io_hashes io) algo m p" "reads_as io v bl m p"
    using assms(1) by (auto simp: holds_def artifact_row_def)
  have m: "mf' dg = Some r" using assms(2) r(1) unfolding rows_grow_def by blast
  have s: "stored_as io keys algo v' dg m" using assms(3) [of dg] assms(4) r(1,3) unfolding disk_same_def by auto
  have "v' (ib_path b) = v (ib_path b)" if "bl (primary_blob_ref m) = Some b" for b
    using that assms(4,5) blob_path_elsewhere unfolding disk_same_def blob_rows_def by blast
  then have "reads_as io v' bl m p" using r(7) reads_as_frame [of bl m v' v] by auto
  then have "reads_as io v' bl' m p"
    by (rule reads_as_more) (use assms(2) in \<open>unfold rows_grow_def, blast\<close>)
  then show ?thesis using m s r(2,4,5,6) unfolding holds_def artifact_row_def by blast
qed

text \<open>The pass deletes on one error alone; a database or a custom index must not report that error for its own reasons.\<close>

definition quiet :: "index_state \<Rightarrow> bool" where
  "quiet i = ((\<forall>op. ix_down i op \<noteq> Some ErrCorruptedManifest) \<and> (\<forall>m. ix_veto_index i m \<noteq> Some ErrCorruptedManifest))"

lemma key_errors: "hex_key r \<noteq> Inl ErrCorruptedManifest" "not_null (hex_key r) \<noteq> Inl ErrCorruptedManifest"
  by (auto simp: hex_key_def not_null_def split: option.splits)

lemma register_errors: "register_refs ch m p now rs t \<noteq> Inl ErrCorruptedManifest"
  by (induction rs arbitrary: t) (use key_errors(2) in \<open>auto split: sum.splits\<close>)

lemma link_errors: "link_blobs dg n rs t \<noteq> Inl ErrCorruptedManifest"
  by (induction rs arbitrary: n t) (use key_errors(2) in \<open>auto split: sum.splits\<close>)

lemma row_errors: "insert_manifest_row m now t \<noteq> Inl ErrCorruptedManifest"
  using key_errors by (auto simp: insert_manifest_row_def split: sum.splits)

lemma blob_manifest_quiet:
  "index_blob_manifest m addr now i \<noteq> Inl ErrCorruptedManifest"
  "index_blob_manifest m addr now i = Inr i' \<Longrightarrow> ix_down i' = ix_down i \<and> ix_veto_index i' = ix_veto_index i"
proof -
  show "index_blob_manifest m addr now i \<noteq> Inl ErrCorruptedManifest"
    unfolding index_blob_manifest_def
    using key_errors(2) [of "content_hash m"] key_errors(2) [of "digest m"] register_errors [of _ m "pa_path addr" now "blob_refs m" "ix_blobs i"]
      row_errors [of m now "ix_manifests i"] link_errors [of _ 0 "blob_refs m" "ix_manifest_blobs i"]
    by (auto split: sum.splits if_splits)
  show "index_blob_manifest m addr now i = Inr i' \<Longrightarrow> ix_down i' = ix_down i \<and> ix_veto_index i' = ix_veto_index i"
    by (auto simp: index_blob_manifest_def split: sum.splits if_splits)
qed

lemma index_quiet:
  assumes "index_manifest m addr now i = (x, i')" "quiet i"
  shows "x \<noteq> Inl ErrCorruptedManifest \<and> quiet i'"
proof -
  have "index_manifest_tx m addr now i \<noteq> Inl ErrCorruptedManifest"
    using assms(2) blob_manifest_quiet [of m addr now i] key_errors(2) [of "digest m"]
    by (auto simp: index_manifest_tx_def Let_def quiet_def split: sum.splits option.splits if_splits)
  moreover have "ix_down j = ix_down i \<and> ix_veto_index j = ix_veto_index i" if "index_manifest_tx m addr now i = Inr j" for j
    using that blob_manifest_quiet(2) [of m addr now i]
    by (auto simp: index_manifest_tx_def Let_def next_csn_def split: sum.splits option.splits if_splits)
  ultimately show ?thesis
    using assms by (auto simp: index_manifest_def in_tx_def quiet_def split: option.splits sum.splits)
qed

subsection \<open>Reading one manifest back\<close>

lemma load_digest:
  assumes "lfs_inv d" "wf_ref dg"
  shows "load_manifest_by_digest (local_io H T J C) d dg keys algo = Inr m' \<Longrightarrow>
      \<exists>m. stored_as (local_io H T J C) keys algo (lfs_view d) dg m \<and> m' = m \<lparr> digest := dg \<rparr>"
    and "load_manifest_by_digest (local_io H T J C) d dg keys algo = Inl ErrCorruptedManifest \<Longrightarrow>
      \<not> stored_as (local_io H T J C) keys algo (lfs_view d) dg m"
proof -
  obtain p where p: "manifest_path dg = Inr p" using manifest_path_wf [OF assms(2)] by blast
  have c: "clean_path p" using clean_manifest_path [OF assms(2) p] .
  have g: "lfs_view d p = Some b" if "lfs_get d p = Inr b" for b using lfs.get_ok [OF assms(1) c] that by simp
  have f: "fault_err x \<noteq> ErrCorruptedManifest" for x by (cases x) (simp_all add: fault_err_def)
  have e: "lfs_get d p \<noteq> Inl ErrCorruptedManifest"
    using lfs_get_cases [OF _ c, of d] f assms(1) by (auto simp: lfs_inv_def split: option.splits)
  show "load_manifest_by_digest (local_io H T J C) d dg keys algo = Inr m' \<Longrightarrow>
      \<exists>m. stored_as (local_io H T J C) keys algo (lfs_view d) dg m \<and> m' = m \<lparr> digest := dg \<rparr>"
    using p g by (auto simp: load_manifest_by_digest_def Let_def stored_as_def split: sum.splits if_splits)
  show "load_manifest_by_digest (local_io H T J C) d dg keys algo = Inl ErrCorruptedManifest \<Longrightarrow>
      \<not> stored_as (local_io H T J C) keys algo (lfs_view d) dg m"
    using p g e by (auto simp: load_manifest_by_digest_def Let_def stored_as_def split: sum.splits if_splits)
qed

definition scan_inv :: "(localfs, index_state) store \<Rightarrow> bool" where
  "scan_inv s = ((\<exists>H T J C. st_io s = local_io H T J C) \<and> lfs_inv (w_drv (st_world s)) \<and> index_wf (w_idx (st_world s))
     \<and> quiet (w_idx (st_world s)) \<and> tidy_under clean_path staging_prefix (lfs_view (w_drv (st_world s)))
     \<and> tidy_under clean_path ''manifests'' (lfs_view (w_drv (st_world s)))
     \<and> engine_files (st_io s) (store_keys s) (store_algo s) (lfs_view (w_drv (st_world s)))
     \<and> index_agrees (st_io s) (store_keys s) (store_algo s) (cf_path_topology (st_active s)) (lfs_view (w_drv (st_world s)))
         (sq_manifests (w_idx (st_world s))) (sq_blobs (w_idx (st_world s))))"

definition scan_rel :: "(localfs, index_state) store \<Rightarrow> (localfs, index_state) store \<Rightarrow> bool" where
  "scan_rel s s' = ((\<exists>w. s' = s \<lparr> st_world := w \<rparr>)
     \<and> disk_same (st_io s) (store_keys s) (store_algo s) (lfs_view (w_drv (st_world s))) (lfs_view (w_drv (st_world s')))
     \<and> rows_grow (sq_manifests (w_idx (st_world s))) (sq_blobs (w_idx (st_world s)))
         (sq_manifests (w_idx (st_world s'))) (sq_blobs (w_idx (st_world s'))))"

lemma scan_rel_refl [simp]: "scan_rel s s"
proof -
  have "s = s \<lparr> st_world := st_world s \<rparr>" by simp
  then show ?thesis unfolding scan_rel_def by (intro conjI exI [of _ "st_world s"]) simp_all
qed

lemma scan_rel_fields:
  assumes "scan_rel s s'"
  shows "st_io s' = st_io s" "store_keys s' = store_keys s" "st_active s' = st_active s" "session_config s' = session_config s"
proof -
  obtain w where "s' = s \<lparr> st_world := w \<rparr>" using assms unfolding scan_rel_def by blast
  then show "st_io s' = st_io s" "store_keys s' = store_keys s" "st_active s' = st_active s" "session_config s' = session_config s"
    by simp_all
qed

lemma scan_rel_trans:
  assumes "scan_rel a b" "scan_rel b c"
  shows "scan_rel a c"
proof -
  note f = scan_rel_fields [OF assms(1)]
  obtain w w' where "b = a \<lparr> st_world := w \<rparr>" "c = b \<lparr> st_world := w' \<rparr>" using assms unfolding scan_rel_def by blast
  then have "c = a \<lparr> st_world := w' \<rparr>" by simp
  moreover note d = assms(1) [unfolded scan_rel_def, THEN conjunct2] assms(2) [unfolded scan_rel_def, THEN conjunct2, unfolded f]
  have "disk_same (st_io a) (store_keys a) (store_algo a) (lfs_view (w_drv (st_world a))) (lfs_view (w_drv (st_world c)))"
    by (rule disk_same_trans [OF d(1) [THEN conjunct1] d(2) [THEN conjunct1]])
  moreover have "rows_grow (sq_manifests (w_idx (st_world a))) (sq_blobs (w_idx (st_world a)))
      (sq_manifests (w_idx (st_world c))) (sq_blobs (w_idx (st_world c)))"
    by (rule rows_grow_trans [OF d(1) [THEN conjunct2] d(2) [THEN conjunct2]])
  ultimately show ?thesis unfolding scan_rel_def by blast
qed

lemma engine_files_same: "engine_files io keys algo v \<Longrightarrow> disk_same io keys algo v v' \<Longrightarrow> engine_files io keys algo v'"
  unfolding engine_files_def disk_same_def by blast

lemma scan_remove:
  assumes "scan_inv s" "clean_path p" "lfs_remove (w_drv (st_world s)) p = (x, d)"
    and "disk_same (st_io s) (store_keys s) (store_algo s) (lfs_view (w_drv (st_world s))) ((lfs_view (w_drv (st_world s)))(p := None))"
  shows "scan_inv (s \<lparr> st_world := st_world s \<lparr> w_drv := d \<rparr> \<rparr>) \<and> scan_rel s (s \<lparr> st_world := st_world s \<lparr> w_drv := d \<rparr> \<rparr>)"
proof -
  let ?v = "lfs_view (w_drv (st_world s))"
  note i = assms(1) [unfolded scan_inv_def]
  have l: "lfs_inv (w_drv (st_world s))" using i by blast
  have v: "lfs_view d = ?v \<or> lfs_view d = ?v(p := None)"
    using lfs.remove_ok [OF l assms(2), of _ d] lfs.remove_err [OF l assms(2), of _ d] assms(3) by (cases x) auto
  then have ds: "disk_same (st_io s) (store_keys s) (store_algo s) ?v (lfs_view d)" using assms(4) by auto
  have t: "tidy_under clean_path dir ?v \<Longrightarrow> tidy_under clean_path dir (lfs_view d)" for dir
    using v by (auto simp: tidy_under_def split: if_splits)
  have "lfs_inv d" using lfs.inv_keep(2) [OF l, of p] assms(3) by simp
  then show ?thesis
    using i ds t index_agrees_same [OF _ ds] engine_files_same [OF _ ds] by (auto simp: scan_inv_def scan_rel_def)
qed

lemma blob_path_errors: "blob_path topo t r \<noteq> Inl ErrCorruptedManifest"
  by (auto simp: blob_path_def root_for_def shard_of_def Let_def split: if_splits sum.splits path_topology.splits blob_type.splits)

lemma ingest_step:
  assumes iv: "scan_inv s" and dg: "wf_ref dg" "sq_manifests (w_idx (st_world s)) dg = None" and r: "ingest_manifest now dg s = (x, s')"
  shows "scan_inv s' \<and> scan_rel s s' \<and> (x = Inr () \<longrightarrow> sq_manifests (w_idx (st_world s')) dg \<noteq> None)
    \<and> (x = Inl ErrCorruptedManifest \<longrightarrow> s' = s
        \<and> (\<forall>m. \<not> stored_as (st_io s) (store_keys s) (store_algo s) (lfs_view (w_drv (st_world s))) dg m))
    \<and> (\<forall>y. sq_blobs (w_idx (st_world s')) y \<noteq> None \<longrightarrow> sq_blobs (w_idx (st_world s)) y \<noteq> None
        \<or> (\<exists>m. stored_as (st_io s) (store_keys s) (store_algo s) (lfs_view (w_drv (st_world s))) dg m \<and> y \<in> set (indexed_refs m)))"
proof -
  obtain H T J C where io: "st_io s = local_io H T J C" using iv by (auto simp: scan_inv_def)
  let ?io = "local_io H T J C" and ?keys = "store_keys s" and ?algo = "store_algo s" and ?topo = "cf_path_topology (st_active s)"
  let ?v = "lfs_view (w_drv (st_world s))" and ?i = "w_idx (st_world s)"
  note i = iv [unfolded scan_inv_def io]
  note ld = load_digest [where H = H and T = T and J = J and C = C and keys = ?keys and algo = ?algo, OF _ dg(1), of "w_drv (st_world s)"]
  show ?thesis
  proof (cases "load_manifest_by_digest ?io (w_drv (st_world s)) dg ?keys ?algo")
    case (Inl e)
    then have "x = Inl e" "s' = s" using r by (simp_all add: ingest_manifest_def Let_def io)
    then show ?thesis using iv ld(2) Inl i by (auto simp: io)
  next
    case (Inr m')
    then obtain m where m: "stored_as ?io ?keys ?algo ?v dg m" "m' = m \<lparr> digest := dg \<rparr>" using ld(1) i by blast
    have ef: "indexable m'" "blob_storage m = layout_inline \<and> blob_refs m = [] \<or> (\<exists>x. blob_refs m = [x] \<and> wf_ref x)"
      using i m dg(1) unfolding engine_files_def by (metis (full_types))+
    let ?addr = "if primary_blob_ref m' = [] then Inr no_address
      else case blob_path ?topo BlobTypeRegular (primary_blob_ref m') of Inl e \<Rightarrow> Inl e | Inr p \<Rightarrow> Inr (address_at p)"
    show ?thesis
    proof (cases ?addr)
      case (Inl e)
      then have "x = Inl e" "s' = s" "e \<noteq> ErrCorruptedManifest"
        using r \<open>load_manifest_by_digest ?io _ dg ?keys ?algo = Inr m'\<close> blob_path_errors [of ?topo BlobTypeRegular "primary_blob_ref m'"]
        by (auto simp: ingest_manifest_def Let_def io split: if_splits sum.splits)
      then show ?thesis using iv by auto
    next
      case (Inr addr)
      obtain i' where ix: "index_manifest m' addr now ?i = (x, i')" "s' = s \<lparr> st_world := st_world s \<lparr> w_idx := i' \<rparr> \<rparr>"
        using r \<open>load_manifest_by_digest ?io _ dg ?keys ?algo = Inr m'\<close> Inr
        by (auto simp: ingest_manifest_def Let_def io split: prod.splits)
      have w': "index_wf i'" using sqx.iinv_keep(1) [of ?i m' addr now] i ix(1) by simp
      have q: "x \<noteq> Inl ErrCorruptedManifest" "quiet i'" using index_quiet [OF ix(1)] i by blast+
      show ?thesis
      proof (cases x)
        case (Inl e)
        then have "sq_manifests i' = sq_manifests ?i" "sq_blobs i' = sq_blobs ?i" using sqx.index_err [of ?i m' addr now e i'] i ix(1) by auto
        then show ?thesis using iv q w' Inl ix(2) by (auto simp: scan_inv_def scan_rel_def)
      next
        case u: (Inr u)
        have d: "digest m' = dg" using m(2) by simp
        obtain n where n: "sq_manifests i' = spec_index_rows m' n (sq_manifests ?i)" "sq_blobs i' = spec_index_blobs m' (pa_path addr) (sq_blobs ?i)"
          using sqx.index_ok [OF _ ef(1), of ?i addr now u i'] i ix(1) u dg(2) d by auto
        have one: "blob_storage m = layout_inline \<and> blob_refs m = []
            \<or> (\<exists>x. blob_refs m = [x] \<and> wf_ref x \<and> blob_path ?topo BlobTypeRegular x = Inr (pa_path addr))"
          using ef(2) Inr m(2) wf_ref_facts(1) by (auto simp: primary_blob_ref_def address_at_def split: sum.splits if_splits)
        have "index_agrees ?io ?keys ?algo ?topo ?v (sq_manifests i') (sq_blobs i') \<and> rows_grow (sq_manifests ?i) (sq_blobs ?i) (sq_manifests i') (sq_blobs i')"
          using registered_rows [OF _ m(1) dg one n [unfolded m(2)]] i by blast
        moreover have "sq_blobs ?i y \<noteq> None \<or> y \<in> set (indexed_refs m)" if "sq_blobs i' y \<noteq> None" for y
          using that n(2) m(2) by (auto simp: spec_index_blobs_def indexed_refs_def split: option.splits if_splits)
        ultimately show ?thesis
          using iv q w' u ix(2) n(1) d m(1) by (auto simp: scan_inv_def scan_rel_def io spec_index_rows_def)
      qed
    qed
  qed
qed

subsection \<open>The steps of the pass\<close>

lemma pass_simps [simp]:
  "ps_store (note_error e s) = ps_store s" "ps_store (pass_drv d s) = ps_store s \<lparr> st_world := st_world (ps_store s) \<lparr> w_drv := d \<rparr> \<rparr>"
  by (simp_all add: note_error_def pass_drv_def)

lemma staging_step_safe:
  assumes "scan_inv (ps_store s)" "clean_path p" "has_prefix p ''.staging/''"
  shows "scan_inv (ps_store (snd (staging_step ctx p s))) \<and> scan_rel (ps_store s) (ps_store (snd (staging_step ctx p s)))"
proof -
  obtain H T J C where io: "st_io (ps_store s) = local_io H T J C" using assms(1) by (auto simp: scan_inv_def)
  obtain x d where r: "lfs_remove (w_drv (pass_world s)) p = (x, d)" by fastforce
  show ?thesis
    using scan_remove [OF assms(1,2) r removed_staging [OF assms(3)]] assms(1) r
    by (auto simp: staging_step_def Let_def io split: option.splits sum.splits)
qed

lemma fragment_safe:
  assumes "scan_inv (ps_store s)" "clean_path p" "has_prefix p ''manifests/''" "digest_from_manifest_path p = Inr dg"
    and "\<forall>m. \<not> stored_as (st_io (ps_store s)) (store_keys (ps_store s)) (store_algo (ps_store s)) (lfs_view (w_drv (pass_world s))) dg m"
  shows "scan_inv (ps_store (remove_fragment p s)) \<and> scan_rel (ps_store s) (ps_store (remove_fragment p s))"
proof -
  obtain H T J C where io: "st_io (ps_store s) = local_io H T J C" using assms(1) by (auto simp: scan_inv_def)
  obtain x d where r: "lfs_remove (w_drv (pass_world s)) p = (x, d)" by fastforce
  have "disk_same (st_io (ps_store s)) (store_keys (ps_store s)) (store_algo (ps_store s)) (lfs_view (w_drv (pass_world s)))
      ((lfs_view (w_drv (pass_world s)))(p := None))"
    using removed_fragment [OF assms(3,4)] assms(5) by blast
  from scan_remove [OF assms(1,2) r this] show ?thesis using r by (auto simp: remove_fragment_def io split: sum.splits)
qed

lemma digest_wf: "digest_from_manifest_path p = Inr dg \<Longrightarrow> wf_ref dg"
  by (auto simp: digest_from_manifest_path_def split: sum.splits) (metis validate_ref_shape_iff old.unit.exhaust)

lemma unknown_digest:
  assumes "index_wf i" "manifest_exists_by_digest dg i = Inr False"
  shows "sq_manifests i dg = None"
proof (cases "is_hex_ref dg")
  case True
  then show ?thesis using sqx.known_ok [OF assms(1) True, of False] assms(2) by simp
next
  case False
  then show ?thesis using sqx.imf_key [OF assms(1), of dg] by (cases "sq_manifests i dg") auto
qed

lemma manifest_step_safe:
  assumes "scan_inv (ps_store s)" "clean_path p" "has_prefix p ''manifests/''"
  shows "scan_inv (ps_store (snd (manifest_step ctx clock p s))) \<and> scan_rel (ps_store s) (ps_store (snd (manifest_step ctx clock p s)))"
proof -
  obtain H T J C where io: "st_io (ps_store s) = local_io H T J C" using assms(1) by (auto simp: scan_inv_def)
  let ?s = "s \<lparr> ps_tick := Suc (ps_tick s) \<rparr>" and ?i = "w_idx (pass_world s)"
  show ?thesis
  proof (cases "ctx (ps_tick s) = None \<and> (\<exists>dg. digest_from_manifest_path p = Inr dg \<and> manifest_exists_by_digest dg ?i = Inr False)")
    case False
    then show ?thesis using assms(1) by (auto simp: manifest_step_def Let_def io split: option.splits sum.splits bool.splits)
  next
    case True
    then obtain dg where dg: "ctx (ps_tick s) = None" "digest_from_manifest_path p = Inr dg" "manifest_exists_by_digest dg ?i = Inr False" by blast
    have u: "sq_manifests ?i dg = None" using unknown_digest [OF _ dg(3)] assms(1) by (simp add: scan_inv_def)
    obtain x st where x: "ingest_manifest (clock (ps_tick ?s)) dg (ps_store s) = (x, st)" by fastforce
    note g = ingest_step [OF assms(1) digest_wf [OF dg(2)] u x]
    have f: "scan_inv (ps_store (remove_fragment p (?s \<lparr> ps_store := st \<rparr>))) \<and> scan_rel (ps_store s) (ps_store (remove_fragment p (?s \<lparr> ps_store := st \<rparr>)))"
      if "x = Inl ErrCorruptedManifest"
      using fragment_safe [of "?s \<lparr> ps_store := st \<rparr>" p dg] g that assms dg(2) by auto
    show ?thesis using g f x dg by (cases x) (auto simp: manifest_step_def Let_def io)
  qed
qed

lemma clean_dirs: "clean_path ''manifests''" "clean_path staging_prefix"
proof -
  show "clean_path ''manifests''" using clean_join [of "[''manifests'']"] by simp
  show "clean_path staging_prefix"
    by (simp add: clean_path_def staging_prefix_def base_name_leaf tombstone_of_def tombstone_suffix_def is_temp_def has_prefix_def)
qed

lemma scan_pass:
  assumes "scan_inv s" "scan_reconcile ctx clock s = (e, ps)"
  shows "scan_inv (ps_store ps) \<and> scan_rel s (ps_store ps)"
proof -
  obtain H T J C where io: "st_io s = local_io H T J C" using assms(1) by (auto simp: scan_inv_def)
  let ?s = "\<lparr> ps_store = s, ps_report = empty_report, ps_tick = 0 \<rparr>"
  let ?Q = "\<lambda>x. scan_inv (ps_store x)" and ?R = "\<lambda>x y. scan_rel (ps_store x) (ps_store y)"
  have R: "\<And>a b c. ?R a b \<Longrightarrow> ?R b c \<Longrightarrow> ?R a c" using scan_rel_trans by blast
  have ls: "clean_path (om_path x) \<and> has_prefix (om_path x) (dir @ ''/'')"
    if "x \<in> set ms" "lfs_list_objects (w_drv (st_world t)) dir 0 = (ms, we)" "scan_inv t" "clean_path dir"
      "tidy_under clean_path dir (lfs_view (w_drv (st_world t)))" for x ms we t dir
  proof -
    have "om_path x \<in> {p. listed_under dir p \<and> lfs_view (w_drv (st_world t)) p \<noteq> None}"
      using lfs.walk_ok [OF _ that(4), of "w_drv (st_world t)" ms we] that by (auto simp: scan_inv_def tidy_under_def)
    then show ?thesis using that(5) by (auto simp: tidy_under_def listed_under_def)
  qed
  have st: "?Q (snd (gc_loop (staging_step ctx) (map om_path ms) ?s)) \<and> ?R ?s (snd (gc_loop (staging_step ctx) (map om_path ms) ?s))"
    if ms: "lfs_list_objects (w_drv (st_world s)) staging_prefix 0 = (ms, we)" for ms we
  proof (rule gc_loop_rel [where R = ?R, OF _ _ R])
    show "?Q (snd (staging_step ctx y x)) \<and> ?R x (snd (staging_step ctx y x))" if "y \<in> set (map om_path ms)" "?Q x" for y x
      using staging_step_safe [of x y ctx] that ls [OF _ ms assms(1) clean_dirs(2)] assms(1)
      by (auto simp: scan_inv_def staging_prefix_def)
  qed (use assms(1) in simp_all)
  have mn: "?Q (snd (gc_loop (manifest_step ctx clock) (map om_path ms) t)) \<and> ?R t (snd (gc_loop (manifest_step ctx clock) (map om_path ms) t))"
    if ms: "lfs_list_objects (w_drv (pass_world t)) ''manifests'' 0 = (ms, we)" and t: "?Q t" for ms we t
  proof (rule gc_loop_rel [where R = ?R, OF _ _ R])
    show "?Q (snd (manifest_step ctx clock y x)) \<and> ?R x (snd (manifest_step ctx clock y x))" if "y \<in> set (map om_path ms)" "?Q x" for y x
      using manifest_step_safe [of x y ctx clock] that ls [OF _ ms t clean_dirs(1)] t by (auto simp: scan_inv_def)
  qed (use t in simp_all)
  obtain ms we where ms: "lfs_list_objects (w_drv (st_world s)) staging_prefix 0 = (ms, we)" by fastforce
  obtain e1 s1 where l: "gc_loop (staging_step ctx) (map om_path ms) ?s = (e1, s1)" by fastforce
  have s1: "?Q s1" "scan_rel s (ps_store s1)" using st [OF ms] l by simp_all
  obtain ms' we' where ms': "lfs_list_objects (w_drv (pass_world s1)) ''manifests'' 0 = (ms', we')" by fastforce
  obtain e2 s2 where l': "gc_loop (manifest_step ctx clock) (map om_path ms') s1 = (e2, s2)" by fastforce
  have "ps = s1 \<or> ps = s2"
    using assms(2) ms l ms' l' by (cases e1; cases we; cases e2) (simp_all add: scan_reconcile_def Let_def io)
  moreover have "?Q s2" "scan_rel s (ps_store s2)" using mn [OF ms' s1(1)] l' s1(2) scan_rel_trans [of s "ps_store s1"] by simp_all
  ultimately show ?thesis using s1 by blast
qed

subsection \<open>When an index is trusted\<close>







subsection \<open>Nothing is lost\<close>

definition disk_store :: "(localfs, index_state) store \<Rightarrow> (string \<times> bytes) set" where
  "disk_store s = on_disk (st_io s) (store_keys s) (store_algo s) (cf_path_topology (st_active s)) (lfs_view (w_drv (st_world s)))"

lemma scan_rel_disk: "scan_rel s s' \<Longrightarrow> disk_store s' = disk_store s"
proof -
  assume r: "scan_rel s s'"
  then have "disk_same (st_io s) (store_keys s) (store_algo s) (lfs_view (w_drv (st_world s))) (lfs_view (w_drv (st_world s')))"
    by (simp add: scan_rel_def)
  then show ?thesis using on_disk_same unfolding disk_store_def scan_rel_fields [OF r] by blast
qed

lemma scan_rel_held:
  assumes "scan_inv s" "scan_rel s s'"
  shows "abs_store s \<subseteq> abs_store s'"
proof -
  note f = scan_rel_fields [OF assms(2)]
  have a: "index_agrees (st_io s) (store_keys s) (store_algo s) (cf_path_topology (st_active s)) (lfs_view (w_drv (st_world s)))
      (sq_manifests (w_idx (st_world s))) (sq_blobs (w_idx (st_world s)))"
    using assms(1) by (simp add: scan_inv_def)
  have w: "wf_ref dg" if "sq_manifests (w_idx (st_world s)) dg \<noteq> None" for dg using a that unfolding index_agrees_def by blast
  have b: "blob_rows (cf_path_topology (st_active s)) (sq_blobs (w_idx (st_world s)))" using a unfolding index_agrees_def by blast
  have "holds (st_io s) (store_keys s) (store_algo s) (lfs_view (w_drv (st_world s'))) (sq_manifests (w_idx (st_world s')))
      (sq_blobs (w_idx (st_world s'))) i p"
    if "holds (st_io s) (store_keys s) (store_algo s) (lfs_view (w_drv (st_world s))) (sq_manifests (w_idx (st_world s)))
      (sq_blobs (w_idx (st_world s))) i p" for i p
    by (rule holds_grow [OF that _ w _ b]) (use assms(2) in \<open>simp_all add: scan_rel_def\<close>)
  then show ?thesis unfolding abs_store_def f by blast
qed

text \<open>C8: opening never loses data.  Whatever fails and whenever the context is cancelled, the reconciliation pass
  leaves every artifact that the files on disk describe in place, keeps every artifact the store held, and
  touches nothing outside the staging and manifest directories.\<close>

theorem reopen_keeps:
  assumes "scan_inv s" "scan_reconcile ctx clock s = (e, ps)"
  shows "scan_inv (ps_store ps) \<and> disk_store (ps_store ps) = disk_store s \<and> abs_store s \<subseteq> abs_store (ps_store ps)
    \<and> (\<forall>q. \<not> has_prefix q ''.staging/'' \<and> \<not> has_prefix q ''manifests/'' \<longrightarrow>
        lfs_view (w_drv (pass_world ps)) q = lfs_view (w_drv (st_world s)) q)"
proof -
  have r: "scan_inv (ps_store ps)" "scan_rel s (ps_store ps)" using scan_pass [OF assms] by blast+
  then have "disk_same (st_io s) (store_keys s) (store_algo s) (lfs_view (w_drv (st_world s))) (lfs_view (w_drv (pass_world ps)))"
    by (simp add: scan_rel_def)
  then show ?thesis using r scan_rel_disk [OF r(2)] scan_rel_held [OF assms(1) r(2)] unfolding disk_same_def by blast
qed

subsection \<open>Everything is found\<close>

lemma split_on_chars: "n \<in> set (split_on c x) \<Longrightarrow> set n \<subseteq> set x"
proof (induction x arbitrary: n)
  case (Cons y ys)
  obtain a as where a: "split_on c ys = a # as" by (meson neq_Nil_conv split_on_neq_Nil)
  have "set a \<subseteq> set ys" "\<And>m. m \<in> set as \<Longrightarrow> set m \<subseteq> set ys" using Cons.IH a by simp_all
  moreover have "n = [] \<or> n = a \<or> n = y # a \<or> n \<in> set as" using Cons.prems a by (auto split: if_splits)
  ultimately show ?case by auto
qed simp

lemma plain_listed:
  assumes "CHR ''.'' \<notin> set x" "has_prefix p (dir @ ''/'')" "x = drop (length dir + 1) p"
  shows "listed_under dir p"
proof -
  have "\<not> is_hidden n" if "n \<in> set (split_on CHR ''/'' x)" for n
  proof -
    have d: "CHR ''.'' \<notin> set n" using split_on_chars [OF that] assms(1) by blast
    have "has_suffix n tombstone_suffix \<Longrightarrow> CHR ''.'' \<in> set n"
      using set_drop_subset [of "length n - length tombstone_suffix" n] by (auto simp: has_suffix_def tombstone_suffix_def)
    moreover have "has_prefix n ''.'' \<Longrightarrow> CHR ''.'' \<in> set n" by (auto simp: has_prefix_conv)
    ultimately show ?thesis using d by (auto simp: is_hidden_def is_temp_def)
  qed
  then show ?thesis using assms(2,3) by (simp add: listed_under_def)
qed

lemma manifest_listed:
  assumes "wf_ref dg" "manifest_path dg = Inr p"
  shows "listed_under ''manifests'' p"
proof -
  have e: "p = ''manifests/'' @ take 2 dg @ ''/'' @ take 2 (drop 2 dg) @ ''/'' @ dg" using assms manifest_path_wf by simp
  have "set (take 2 dg) \<subseteq> set dg" "set (take 2 (drop 2 dg)) \<subseteq> set dg" by (meson set_take_subset set_drop_subset subset_trans)+
  then show ?thesis using wf_ref_facts(3) [OF assms(1)] by (intro plain_listed) (auto simp: e has_prefix_def)
qed

lemma blob_listed:
  assumes "wf_ref r" "blob_path topo BlobTypeRegular r = Inr q"
  shows "listed_under ''blobs'' q"
proof -
  note f = blob_path_shape [OF assms]
  let ?x = "drop (length ''blobs'' + 1) q"
  have "set ?x \<subseteq> set q" by (rule set_drop_subset)
  then have "CHR ''.'' \<notin> set ?x" using f(3) by blast
  then show ?thesis by (rule plain_listed) (use f(1) in simp_all)
qed

lemma ingest_complete:
  assumes "scan_inv s" "lfs_rel (w_drv (st_world s))" "index_rel (w_idx (st_world s))" "wf_ref dg"
    and "stored_as (st_io s) (store_keys s) (store_algo s) (lfs_view (w_drv (st_world s))) dg m"
    and "file_reads (st_io s) (cf_path_topology (st_active s)) (lfs_view (w_drv (st_world s))) m p"
  shows "\<exists>s'. ingest_manifest now dg s = (Inr (), s')"
proof -
  obtain H T J C where io: "st_io s = local_io H T J C" using assms(1) by (auto simp: scan_inv_def)
  obtain mp fb where f: "manifest_path dg = Inr mp" "lfs_view (w_drv (st_world s)) mp = Some fb" "length fb \<le> max_manifest_size"
      "verify_manifest_digest H dg fb (store_algo s) = Inr ()" "decode_encrypted J C fb (store_keys s) = Inr m"
    using assms(5) by (auto simp: stored_as_def io)
  have "lfs_get (w_drv (st_world s)) mp = Inr fb"
    using rlfs.rel_get [OF assms(2) clean_manifest_path [OF assms(4) f(1)]] f(2) by simp
  then have l: "load_manifest_by_digest (local_io H T J C) (w_drv (st_world s)) dg (store_keys s) (store_algo s) = Inr (m \<lparr> digest := dg \<rparr>)"
    using f by (simp add: load_manifest_by_digest_def Let_def)
  have "indexable (m \<lparr> digest := dg \<rparr>) \<and> (if blob_storage m = layout_inline then blob_refs m = [] else \<exists>x. blob_refs m = [x] \<and> wf_ref x)"
    using assms(1,4,5) unfolding scan_inv_def engine_files_def by blast
  then have ef: "indexable (m \<lparr> digest := dg \<rparr>)" "if blob_storage m = layout_inline then blob_refs m = [] else \<exists>x. blob_refs m = [x] \<and> wf_ref x"
    by blast+
  have "\<exists>addr. (if primary_blob_ref (m \<lparr> digest := dg \<rparr>) = [] then Inr no_address
      else case blob_path (cf_path_topology (st_active s)) BlobTypeRegular (primary_blob_ref (m \<lparr> digest := dg \<rparr>)) of
        Inl e \<Rightarrow> Inl e | Inr p \<Rightarrow> Inr (address_at p)) = Inr addr"
    using ef(2) assms(6) by (auto simp: file_reads_def primary_blob_ref_def split: if_splits)
  then obtain addr where a: "(if primary_blob_ref (m \<lparr> digest := dg \<rparr>) = [] then Inr no_address
      else case blob_path (cf_path_topology (st_active s)) BlobTypeRegular (primary_blob_ref (m \<lparr> digest := dg \<rparr>)) of
        Inl e \<Rightarrow> Inl e | Inr p \<Rightarrow> Inr (address_at p)) = Inr addr" by blast
  obtain i' where "index_manifest (m \<lparr> digest := dg \<rparr>) addr now (w_idx (st_world s)) = (Inr (), i')"
    using rsqx.irel_index [OF assms(3) ef(1), of addr now] by (metis sqlite_index_simps(1) prod.collapse)
  then show ?thesis using l a by (simp add: ingest_manifest_def Let_def io)
qed

lemma ingest_world:
  assumes "st_io s = local_io H T J C" "ingest_manifest now dg s = (x, s')"
  shows "w_drv (st_world s') = w_drv (st_world s)"
    and "w_idx (st_world s') = w_idx (st_world s)
      \<or> (\<exists>m addr. w_idx (st_world s') = snd (index_manifest m addr now (w_idx (st_world s))))"
proof -
  have "s' = s \<or> (\<exists>m addr. s' = s \<lparr> st_world := st_world s \<lparr> w_idx := snd (index_manifest m addr now (w_idx (st_world s))) \<rparr> \<rparr>)"
    using assms(2) unfolding ingest_manifest_def Let_def assms(1)
    by (auto split: sum.splits prod.splits if_splits) (metis snd_conv)+
  then have "w_drv (st_world s') = w_drv (st_world s) \<and> (w_idx (st_world s') = w_idx (st_world s)
      \<or> (\<exists>m addr. w_idx (st_world s') = snd (index_manifest m addr now (w_idx (st_world s)))))"
  proof (elim disjE exE)
    fix m addr assume "s' = s \<lparr> st_world := st_world s \<lparr> w_idx := snd (index_manifest m addr now (w_idx (st_world s))) \<rparr> \<rparr>"
    then have "w_drv (st_world s') = w_drv (st_world s)" "w_idx (st_world s') = snd (index_manifest m addr now (w_idx (st_world s)))" by simp_all
    then show ?thesis by blast
  qed simp
  then show "w_drv (st_world s') = w_drv (st_world s)" "w_idx (st_world s') = w_idx (st_world s)
      \<or> (\<exists>m addr. w_idx (st_world s') = snd (index_manifest m addr now (w_idx (st_world s))))"
    by blast+
qed

definition fit :: "(localfs, index_state) pass \<Rightarrow> bool" where
  "fit x = (scan_inv (ps_store x) \<and> lfs_rel (w_drv (pass_world x)) \<and> index_rel (w_idx (pass_world x)))"

lemma fit_staging:
  assumes "fit x" "clean_path p" "has_prefix p ''.staging/''"
  shows "fst (staging_step background p x) = None \<and> fit (snd (staging_step background p x))"
proof -
  obtain H T J C where io: "st_io (ps_store x) = local_io H T J C" using assms(1) by (auto simp: fit_def scan_inv_def)
  have "scan_inv (ps_store (snd (staging_step background p x)))" using staging_step_safe assms fit_def by blast
  moreover have "lfs_rel (snd (lfs_remove (w_drv (pass_world x)) p))"
    using rlfs.rel_keep(2) [of "w_drv (pass_world x)" p] assms by (simp add: fit_def)
  ultimately show ?thesis
    using assms(1) by (auto simp: fit_def staging_step_def Let_def background_def io split: prod.splits sum.splits)
qed

lemma fit_manifest:
  assumes "fit x" "clean_path p" "has_prefix p ''manifests/''"
  shows "fst (manifest_step background clock p x) = None \<and> fit (snd (manifest_step background clock p x))"
proof -
  obtain H T J C where io: "st_io (ps_store x) = local_io H T J C" using assms(1) by (auto simp: fit_def scan_inv_def)
  let ?x = "x \<lparr> ps_tick := Suc (ps_tick x) \<rparr>"
  have r: "lfs_rel (snd (lfs_remove d p))" if "lfs_rel d" for d using rlfs.rel_keep(2) [OF that assms(2)] by simp
  have w: "lfs_rel (w_drv (st_world st)) \<and> index_rel (w_idx (st_world st)) \<and> st_io st = local_io H T J C"
    if "ingest_manifest n dg (ps_store x) = (y, st)" for n dg y st
  proof -
    have "st_io st = st_io (ps_store x)"
      using that unfolding ingest_manifest_def Let_def by (auto split: sum.splits prod.splits if_splits)
    then show ?thesis
      using ingest_world [OF io that] rsqx.irel_keep(1) [of "w_idx (pass_world x)"] assms(1) io by (auto simp: fit_def)
  qed
  have f: "lfs_rel (w_drv (pass_world (remove_fragment p y))) \<and> w_idx (pass_world (remove_fragment p y)) = w_idx (pass_world y)"
    if "lfs_rel (w_drv (pass_world y))" "st_io (ps_store y) = local_io H T J C" for y
    using r [OF that(1)] that(2) by (auto simp: remove_fragment_def split: prod.splits sum.splits)
  have "scan_inv (ps_store (snd (manifest_step background clock p x)))" using manifest_step_safe assms fit_def by blast
  moreover have "fst (manifest_step background clock p x) = None"
    by (auto simp: manifest_step_def Let_def background_def split: prod.splits sum.splits bool.splits)
  moreover have "lfs_rel (w_drv (pass_world (snd (manifest_step background clock p x))))
      \<and> index_rel (w_idx (pass_world (snd (manifest_step background clock p x))))"
    using assms(1) w f by (auto simp: fit_def manifest_step_def Let_def background_def io split: prod.splits sum.splits bool.splits)
  ultimately show ?thesis by (simp add: fit_def)
qed

definition started :: "(localfs, index_state) store \<Rightarrow> (localfs, index_state) pass" where
  "started s = \<lparr> ps_store = s, ps_report = empty_report, ps_tick = 0 \<rparr>"

lemma started_store [simp]: "ps_store (started s) = s"
  by (simp add: started_def)

lemma scan_listing:
  assumes "scan_inv t" "clean_path dir" "tidy_under clean_path dir (lfs_view (w_drv (st_world t)))"
    and "lfs_list_objects (w_drv (st_world t)) dir 0 = (ms, None)"
  shows "om_path ` set ms = {p. listed_under dir p \<and> lfs_view (w_drv (st_world t)) p \<noteq> None}"
    and "x \<in> set ms \<Longrightarrow> clean_path (om_path x) \<and> has_prefix (om_path x) (dir @ ''/'')"
proof -
  show e: "om_path ` set ms = {p. listed_under dir p \<and> lfs_view (w_drv (st_world t)) p \<noteq> None}"
    using lfs.walk_ok [OF _ assms(2), of "w_drv (st_world t)" ms None] assms by (simp add: scan_inv_def tidy_under_def)
  show "clean_path (om_path x) \<and> has_prefix (om_path x) (dir @ ''/'')" if "x \<in> set ms"
  proof -
    have "om_path x \<in> om_path ` set ms" using that by blast
    then show ?thesis using assms(3) unfolding e tidy_under_def listed_under_def by blast
  qed
qed

lemma fit_loop:
  assumes "fit t" "\<And>p. p \<in> set ps \<Longrightarrow> clean_path p \<and> has_prefix p ''manifests/''"
    and "\<And>p x. p \<in> set ps \<Longrightarrow> fit x \<Longrightarrow> P x \<Longrightarrow> P (snd (manifest_step background clock p x))"
    and "\<And>x. fit x \<Longrightarrow> S x \<Longrightarrow> P (snd (manifest_step background clock r x))"
    and "S t" "\<And>p x. p \<in> set ps \<Longrightarrow> fit x \<Longrightarrow> S x \<Longrightarrow> S (snd (manifest_step background clock p x))"
  shows "fst (gc_loop (manifest_step background clock) ps t) = None \<and> fit (snd (gc_loop (manifest_step background clock) ps t))
    \<and> S (snd (gc_loop (manifest_step background clock) ps t)) \<and> (r \<in> set ps \<or> P t \<longrightarrow> P (snd (gc_loop (manifest_step background clock) ps t)))"
proof -
  have "fst (gc_loop (manifest_step background clock) ps t) = None
    \<and> (fit (snd (gc_loop (manifest_step background clock) ps t)) \<and> S (snd (gc_loop (manifest_step background clock) ps t)))
    \<and> (r \<in> set ps \<or> P t \<longrightarrow> P (snd (gc_loop (manifest_step background clock) ps t)))"
  proof (rule gc_loop_reach [where Q = "\<lambda>x. fit x \<and> S x"])
    show "fst (manifest_step background clock p x) = None \<and> (fit (snd (manifest_step background clock p x)) \<and> S (snd (manifest_step background clock p x)))
        \<and> (P x \<longrightarrow> P (snd (manifest_step background clock p x)))" if "p \<in> set ps" "fit x \<and> S x" for p x
      using that assms(2) [OF that(1)] assms(3,6) [OF that(1)] fit_manifest by blast
  qed (use assms(1,4,5) in blast)+
  then show ?thesis by blast
qed

lemma staging_frame:
  assumes "fit x" "clean_path p" "has_prefix p ''.staging/''"
  shows "w_idx (pass_world (snd (staging_step background p x))) = w_idx (pass_world x) \<and> scan_rel (ps_store x) (ps_store (snd (staging_step background p x)))
    \<and> (\<forall>q. \<not> has_prefix q ''.staging/'' \<longrightarrow> lfs_view (w_drv (pass_world (snd (staging_step background p x)))) q = lfs_view (w_drv (pass_world x)) q)"
proof -
  have i: "scan_inv (ps_store x)" "\<exists>H T J C. st_io (ps_store x) = local_io H T J C" "lfs_inv (w_drv (pass_world x))"
    using assms(1) by (simp_all add: fit_def scan_inv_def)
  have "lfs_view (snd (lfs_remove (w_drv (pass_world x)) p)) q = lfs_view (w_drv (pass_world x)) q" if "\<not> has_prefix q ''.staging/''" for q
    using lfs.remove_frame [OF i(3) assms(2), of q] assms(3) that by auto
  then have "w_idx (pass_world (snd (staging_step background p x))) = w_idx (pass_world x)
      \<and> (\<forall>q. \<not> has_prefix q ''.staging/'' \<longrightarrow> lfs_view (w_drv (pass_world (snd (staging_step background p x)))) q = lfs_view (w_drv (pass_world x)) q)"
    using i(2) by (auto simp: staging_step_def Let_def background_def split: prod.splits sum.splits)
  then show ?thesis using staging_step_safe [OF i(1) assms(2,3)] by blast
qed

lemma fit_sweep:
  assumes "fit t" "\<And>p. p \<in> set ps \<Longrightarrow> clean_path p \<and> has_prefix p ''.staging/''"
    and "gc_loop (staging_step background) ps t = (e, u)"
  shows "e = None \<and> fit u \<and> w_idx (pass_world u) = w_idx (pass_world t) \<and> scan_rel (ps_store t) (ps_store u)
    \<and> (\<forall>q. \<not> has_prefix q ''.staging/'' \<longrightarrow> lfs_view (w_drv (pass_world u)) q = lfs_view (w_drv (pass_world t)) q)"
proof -
  let ?R = "\<lambda>a b. w_idx (pass_world b) = w_idx (pass_world a) \<and> scan_rel (ps_store a) (ps_store b)
    \<and> (\<forall>q. \<not> has_prefix q ''.staging/'' \<longrightarrow> lfs_view (w_drv (pass_world b)) q = lfs_view (w_drv (pass_world a)) q)"
  have R: "?R a c" if "?R a b" "?R b c" for a b c using that scan_rel_trans [of "ps_store a" "ps_store b" "ps_store c"] by simp
  have "fst (gc_loop (staging_step background) ps t) = None \<and> (fit (snd (gc_loop (staging_step background) ps t)) \<and> ?R t (snd (gc_loop (staging_step background) ps t)))
    \<and> (undefined \<in> set ps \<or> True \<longrightarrow> True)"
  proof (rule gc_loop_reach [where Q = "\<lambda>x. fit x \<and> ?R t x"])
    show "fst (staging_step background p x) = None \<and> (fit (snd (staging_step background p x)) \<and> ?R t (snd (staging_step background p x))) \<and> (True \<longrightarrow> True)"
      if "p \<in> set ps" "fit x \<and> ?R t x" for p x
    proof -
      have x: "fit x" "?R t x" using that(2) by blast+
      note a = assms(2) [OF that(1)]
      have "?R x (snd (staging_step background p x))" using staging_frame [OF x(1)] a by blast
      then show ?thesis using fit_staging [OF x(1)] a R [OF x(2)] by blast
    qed
  qed (use assms(1) in simp_all)
  then show ?thesis unfolding assms(3) by simp
qed

lemma fit_pass:
  assumes "fit (started s)" "scan_reconcile background clock s = (e, ps)"
  obtains t ms where "fit t" "scan_rel s (ps_store t)" "w_idx (pass_world t) = w_idx (st_world s)"
    "\<And>q. \<not> has_prefix q ''.staging/'' \<Longrightarrow> lfs_view (w_drv (pass_world t)) q = lfs_view (w_drv (st_world s)) q"
    "gc_loop (manifest_step background clock) ms t = (e, ps)"
    "set ms = {p. listed_under ''manifests'' p \<and> lfs_view (w_drv (pass_world t)) p \<noteq> None}"
    "\<And>p. p \<in> set ms \<Longrightarrow> clean_path p \<and> has_prefix p ''manifests/''"
proof -
  obtain H T J C where io: "st_io s = local_io H T J C" using assms(1) by (auto simp: fit_def scan_inv_def)
  have f: "scan_inv s" "lfs_rel (w_drv (st_world s))" using assms(1) by (simp_all add: fit_def)
  obtain ms where ms: "lfs_list_objects (w_drv (st_world s)) staging_prefix 0 = (ms, None)"
    using rlfs.rel_walk [OF f(2) clean_dirs(2), of 0] by (metis localfs_driver_simps(5) prod.collapse)
  have td: "tidy_under clean_path staging_prefix (lfs_view (w_drv (st_world s)))" using f(1) by (simp add: scan_inv_def)
  have sl: "clean_path p \<and> has_prefix p ''.staging/''" if "p \<in> set (map om_path ms)" for p
    using that scan_listing(2) [OF f(1) clean_dirs(2) td ms] by (auto simp: staging_prefix_def)
  obtain e1 t where t: "gc_loop (staging_step background) (map om_path ms) (started s) = (e1, t)" by fastforce
  note sw = fit_sweep [OF assms(1) sl t]
  then have ft: "fit t" "scan_rel s (ps_store t)" "w_idx (pass_world t) = w_idx (st_world s)" "e1 = None"
      "\<And>q. \<not> has_prefix q ''.staging/'' \<Longrightarrow> lfs_view (w_drv (pass_world t)) q = lfs_view (w_drv (st_world s)) q" by auto
  have g: "scan_inv (ps_store t)" "lfs_rel (w_drv (pass_world t))" "tidy_under clean_path ''manifests'' (lfs_view (w_drv (pass_world t)))"
    using ft(1) by (simp_all add: fit_def scan_inv_def)
  obtain ms' where ms': "lfs_list_objects (w_drv (pass_world t)) ''manifests'' 0 = (ms', None)"
    using rlfs.rel_walk [OF g(2) clean_dirs(1), of 0] by (metis localfs_driver_simps(5) prod.collapse)
  have c: "clean_path p \<and> has_prefix p ''manifests/''" if "p \<in> set (map om_path ms')" for p
    using that scan_listing(2) [OF g(1) clean_dirs(1) g(3) ms'] by auto
  have l: "gc_loop (manifest_step background clock) (map om_path ms') t = (e, ps)"
    using assms(2) ms t ft(4) ms' by (auto simp: scan_reconcile_def Let_def io started_def split: prod.splits option.splits)
  show thesis
    by (rule that [OF ft(1,2,3,5) l _ c]) (use scan_listing(1) [OF g(1) clean_dirs(1) g(3) ms'] in simp_all)
qed

lemma manifest_found:
  assumes "fit x" "wf_ref dg" "manifest_path dg = Inr p"
    and "stored_as (st_io (ps_store x)) (store_keys (ps_store x)) (store_algo (ps_store x)) (lfs_view (w_drv (pass_world x))) dg m"
    and "file_reads (st_io (ps_store x)) (cf_path_topology (st_active (ps_store x))) (lfs_view (w_drv (pass_world x))) m b"
  shows "sq_manifests (w_idx (pass_world (snd (manifest_step background clock p x)))) dg \<noteq> None"
proof -
  obtain H T J C where io: "st_io (ps_store x) = local_io H T J C" using assms(1) by (auto simp: fit_def scan_inv_def)
  have f: "scan_inv (ps_store x)" "lfs_rel (w_drv (pass_world x))" "index_rel (w_idx (pass_world x))" "index_wf (w_idx (pass_world x))"
    using assms(1) by (simp_all add: fit_def scan_inv_def)
  have d: "digest_from_manifest_path p = Inr dg" using digest_from_manifest_path_wf [OF assms(2,3)] .
  have "indexable (m \<lparr> digest := dg \<rparr>)" using f(1) assms(2,4) unfolding scan_inv_def engine_files_def by blast
  then have h: "is_hex_ref dg" by (simp add: indexable_def)
  then obtain k where k: "manifest_exists_by_digest dg (w_idx (pass_world x)) = Inr k" using rsqx.irel_known [OF f(3), of dg] by auto
  show ?thesis
  proof (cases k)
    case True
    then show ?thesis using k d sqx.known_ok [OF f(4) h, of k] by (simp add: manifest_step_def Let_def background_def io)
  next
    case False
    then have u: "sq_manifests (w_idx (pass_world x)) dg = None" using unknown_digest [OF f(4)] k by simp
    obtain st where st: "ingest_manifest (clock (Suc (ps_tick x))) dg (ps_store x) = (Inr (), st)"
      using ingest_complete [OF f(1,2,3) assms(2,4,5)] by blast
    then show ?thesis using ingest_step [OF f(1) assms(2) u st] k d False by (simp add: manifest_step_def Let_def background_def io)
  qed
qed

definition reads_at :: "(localfs, index_state) store \<Rightarrow> string \<Rightarrow> manifest \<Rightarrow> bytes \<Rightarrow> bool" where
  "reads_at s dg m p = (stored_as (st_io s) (store_keys s) (store_algo s) (lfs_view (w_drv (st_world s))) dg m
     \<and> file_reads (st_io s) (cf_path_topology (st_active s)) (lfs_view (w_drv (st_world s))) m p)"

lemma scan_rel_reads:
  assumes "scan_rel s s'" "wf_ref dg" "reads_at s dg m p"
  shows "reads_at s' dg m p"
proof -
  note f = scan_rel_fields [OF assms(1)]
  have d: "disk_same (st_io s) (store_keys s) (store_algo s) (lfs_view (w_drv (st_world s))) (lfs_view (w_drv (st_world s')))"
    using assms(1) by (simp add: scan_rel_def)
  have "lfs_view (w_drv (st_world s')) q = lfs_view (w_drv (st_world s)) q" if "blob_path topo BlobTypeRegular r = Inr q" for topo r q
    using d blob_path_elsewhere [OF that] unfolding disk_same_def by blast
  then show ?thesis using assms(2,3) d unfolding reads_at_def file_reads_def f disk_same_def by (auto split: if_splits)
qed

lemma pass_finds:
  assumes "fit (started s)" "scan_reconcile background clock s = (e, ps)" "wf_ref dg" "reads_at s dg m p"
  shows "sq_manifests (w_idx (pass_world ps)) dg \<noteq> None"
  using assms(1,2)
proof (rule fit_pass)
  fix t ms
  assume t: "fit t" "scan_rel s (ps_store t)" and l: "gc_loop (manifest_step background clock) ms t = (e, ps)"
    and ms: "set ms = {p. listed_under ''manifests'' p \<and> lfs_view (w_drv (pass_world t)) p \<noteq> None}"
    and c: "\<And>p. p \<in> set ms \<Longrightarrow> clean_path p \<and> has_prefix p ''manifests/''"
  obtain mp where mp: "manifest_path dg = Inr mp" using manifest_path_wf [OF assms(3)] by blast
  have st: "scan_rel (ps_store x) (ps_store (snd (manifest_step background clock q x)))" if "q \<in> set ms" "fit x" for q x
    using manifest_step_safe [of x q background clock] c [OF that(1)] that(2) unfolding fit_def by blast
  have "lfs_view (w_drv (pass_world t)) mp \<noteq> None"
    using scan_rel_reads [OF t(2) assms(3,4)] mp by (auto simp: reads_at_def stored_as_def)
  then have "mp \<in> set ms" using ms manifest_listed [OF assms(3) mp] by blast
  moreover have "fst (gc_loop (manifest_step background clock) ms t) = None \<and> fit (snd (gc_loop (manifest_step background clock) ms t))
    \<and> scan_rel s (ps_store (snd (gc_loop (manifest_step background clock) ms t)))
    \<and> (mp \<in> set ms \<or> sq_manifests (w_idx (pass_world t)) dg \<noteq> None
        \<longrightarrow> sq_manifests (w_idx (pass_world (snd (gc_loop (manifest_step background clock) ms t)))) dg \<noteq> None)"
  proof (rule fit_loop [where S = "\<lambda>x. scan_rel s (ps_store x)", OF t(1) c _ _ t(2)])
    show "sq_manifests (w_idx (pass_world (snd (manifest_step background clock q x)))) dg \<noteq> None"
      if "q \<in> set ms" "fit x" "sq_manifests (w_idx (pass_world x)) dg \<noteq> None" for q x
      using st [OF that(1,2)] that(3) unfolding scan_rel_def rows_grow_def by blast
    show "sq_manifests (w_idx (pass_world (snd (manifest_step background clock mp x)))) dg \<noteq> None"
      if "fit x" "scan_rel s (ps_store x)" for x
      using manifest_found [OF that(1) assms(3) mp] scan_rel_reads [OF that(2) assms(3,4)] unfolding reads_at_def by blast
    show "scan_rel s (ps_store (snd (manifest_step background clock q x)))" if "q \<in> set ms" "fit x" "scan_rel s (ps_store x)" for q x
      using scan_rel_trans [OF that(3) st [OF that(1,2)]] .
  qed
  ultimately show ?thesis by (simp add: l)
qed

text \<open>C7: opening recovers the index.  With a medium and an index that answer, the pass runs to its end, and the
  store holds exactly the artifacts the files on disk describe, whatever the index knew before: an index that was lost or
  is behind the files is completed by opening, and no artifact appears that the files do not describe.\<close>

theorem reopen_recovers:
  assumes "scan_inv s" "lfs_rel (w_drv (st_world s))" "index_rel (w_idx (st_world s))" "scan_reconcile background clock s = (e, ps)"
  shows "e = None \<and> abs_store (ps_store ps) = disk_store s"
proof -
  have f: "fit (started s)" using assms(1-3) by (simp add: fit_def)
  have e: "e = None"
    using f assms(4)
  proof (rule fit_pass)
    fix t ms
    assume "fit t" "gc_loop (manifest_step background clock) ms t = (e, ps)" "\<And>p. p \<in> set ms \<Longrightarrow> clean_path p \<and> has_prefix p ''manifests/''"
    then show ?thesis using fit_loop [of t ms "\<lambda>_. True" clock "\<lambda>_. True"] by simp
  qed
  have r: "scan_inv (ps_store ps)" "scan_rel s (ps_store ps)" using scan_pass [OF assms(1,4)] by blast+
  note g = r(1) [unfolded scan_inv_def]
  have "disk_store (ps_store ps) = abs_store (ps_store ps)"
  proof (intro equalityI subrelI)
    fix a p assume "(a, p) \<in> abs_store (ps_store ps)"
    then show "(a, p) \<in> disk_store (ps_store ps)" using held_on_disk g unfolding abs_store_def disk_store_def by blast
  next
    fix a p assume "(a, p) \<in> disk_store (ps_store ps)"
    then have "(a, p) \<in> disk_store s" using scan_rel_disk [OF r(2)] by simp
    then obtain dg m where d: "wf_ref dg" "reads_at s dg m p" "a \<noteq> []" "artifact_id m = a" "claims (io_hashes (st_io s)) (store_algo s) m p"
      unfolding disk_store_def on_disk_def reads_at_def by blast
    then obtain row where row: "sq_manifests (w_idx (pass_world ps)) dg = Some row" using pass_finds [OF f assms(4)] by blast
    show "(a, p) \<in> abs_store (ps_store ps)"
      using disk_held [OF _ _ d(1), of _ _ _ _ _ _ _ m p row] g scan_rel_reads [OF r(2) d(1,2)] d(3,4,5) row
      unfolding abs_store_def reads_at_def scan_rel_fields [OF r(2)] by blast
  qed
  then show ?thesis using e scan_rel_disk [OF r(2)] by simp
qed

subsection \<open>What a skipped manifest costs\<close>

text \<open>\<^verbatim>\<open>unlockBootstrap\<close> up to the completeness flag: only an error of the pass itself keeps it from being set.\<close>

definition bootstrap_pass :: "contexts \<Rightarrow> (nat \<Rightarrow> time) \<Rightarrow> bool \<Rightarrow> ('d, 'i) store \<Rightarrow> err option \<times> ('d, 'i) pass \<times> bool" where
  "bootstrap_pass ctx clock complete st =
     (case scan_reconcile ctx clock st of
        (Some e, ps) \<Rightarrow> (Some e, ps, complete)
      | (None, ps) \<Rightarrow> (None, ps, True))"

lemma manifest_step_cases:
  assumes "fit x" "clean_path p" "has_prefix p ''manifests/''" and e: "x' = snd (manifest_step background clock p x)"
  obtains "pass_world x' = pass_world x"
  | dg n y st where "digest_from_manifest_path p = Inr dg" "wf_ref dg" "sq_manifests (w_idx (pass_world x)) dg = None"
      "ingest_manifest n dg (ps_store x) = (y, st)" "y \<noteq> Inl ErrCorruptedManifest" "pass_world x' = st_world st"
  | dg n st where "digest_from_manifest_path p = Inr dg" "ingest_manifest n dg (ps_store x) = (Inl ErrCorruptedManifest, st)"
      "w_drv (pass_world x') = snd (lfs_remove (w_drv (pass_world x)) p)" "w_idx (pass_world x') = w_idx (pass_world x)"
proof -
  obtain H T J C where io: "st_io (ps_store x) = local_io H T J C" using assms(1) by (auto simp: fit_def scan_inv_def)
  have f: "scan_inv (ps_store x)" "index_wf (w_idx (pass_world x))" using assms(1) by (auto simp: fit_def scan_inv_def)
  show thesis
  proof (cases "\<exists>dg. digest_from_manifest_path p = Inr dg \<and> manifest_exists_by_digest dg (w_idx (pass_world x)) = Inr False")
    case False
    then have "pass_world x' = pass_world x"
      by (auto simp: e manifest_step_def Let_def io background_def split: sum.splits bool.splits)
    then show ?thesis by (rule that(1))
  next
    case True
    then obtain dg where dg: "digest_from_manifest_path p = Inr dg" "manifest_exists_by_digest dg (w_idx (pass_world x)) = Inr False" by blast
    have u: "sq_manifests (w_idx (pass_world x)) dg = None" using unknown_digest [OF f(2) dg(2)] .
    obtain y st where y: "ingest_manifest (clock (Suc (ps_tick x))) dg (ps_store x) = (y, st)" by fastforce
    note w = digest_wf [OF dg(1)]
    have s: "y = Inl ErrCorruptedManifest \<longrightarrow> st = ps_store x" using ingest_step [OF f(1) w u y] by blast
    show ?thesis
    proof (cases "y = Inl ErrCorruptedManifest")
      case True
      then show ?thesis using that(3) [OF dg(1)] y s dg
        by (auto simp: e manifest_step_def Let_def io background_def remove_fragment_def split: prod.splits sum.splits)
    next
      case False
      then show ?thesis using that(2) [OF dg(1) w u y] y dg
        by (cases y) (auto simp: e manifest_step_def Let_def io background_def)
    qed
  qed
qed

text \<open>A whole manifest the session has no key for.\<close>

definition locked_out :: "(localfs, index_state) store \<Rightarrow> string \<Rightarrow> path \<Rightarrow> bytes \<Rightarrow> bool" where
  "locked_out s dg mp fb = (wf_ref dg \<and> manifest_path dg = Inr mp \<and> length fb \<le> max_manifest_size
     \<and> verify_manifest_digest (io_hashes (st_io s)) dg fb (store_algo s) = Inr ()
     \<and> decode_encrypted (io_json (st_io s)) (io_cipher (st_io s)) fb (store_keys s) = Inl ErrKeyNotFound)"

definition unclaimed :: "(localfs, index_state) store \<Rightarrow> string \<Rightarrow> bool" where
  "unclaimed s r = (sq_blobs (w_idx (st_world s)) r = None \<and> (\<forall>dg m. wf_ref dg
     \<and> stored_as (st_io s) (store_keys s) (store_algo s) (lfs_view (w_drv (st_world s))) dg m \<longrightarrow> r \<notin> set (indexed_refs m)))"

lemma locked_out_ingest:
  assumes "locked_out s dg mp fb" "scan_inv s" "lfs_rel (w_drv (st_world s))" "lfs_view (w_drv (st_world s)) mp = Some fb"
  shows "ingest_manifest n dg s = (Inl ErrKeyNotFound, s)"
proof -
  obtain H T J C where io: "st_io s = local_io H T J C" using assms(2) by (auto simp: scan_inv_def)
  have "lfs_get (w_drv (st_world s)) mp = Inr fb"
    using rlfs.rel_get [OF assms(3) clean_manifest_path [of dg mp]] assms(1,4) by (simp add: locked_out_def)
  then show ?thesis using assms(1) by (simp add: locked_out_def ingest_manifest_def load_manifest_by_digest_def Let_def io)
qed

lemma locked_out_rel: "scan_rel s s' \<Longrightarrow> locked_out s' dg mp fb = locked_out s dg mp fb"
  by (simp add: locked_out_def scan_rel_fields)

lemma unclaimed_step:
  assumes "scan_rel s s'" "unclaimed s r" "sq_blobs (w_idx (st_world s')) r = None"
  shows "unclaimed s' r"
proof -
  have "disk_same (st_io s) (store_keys s) (store_algo s) (lfs_view (w_drv (st_world s))) (lfs_view (w_drv (st_world s')))"
    using assms(1) by (simp add: scan_rel_def)
  then show ?thesis using assms(2,3) unfolding unclaimed_def scan_rel_fields [OF assms(1)] disk_same_def by blast
qed

lemma locked_out_step:
  assumes "fit x" "clean_path p" "has_prefix p ''manifests/''" and lk: "locked_out (ps_store x) dg mp fb" "lfs_view (w_drv (pass_world x)) mp = Some fb"
    and un: "unclaimed (ps_store x) r" and e: "x' = snd (manifest_step background clock p x)"
  shows "lfs_view (w_drv (pass_world x')) mp = Some fb \<and> unclaimed (ps_store x') r"
proof -
  obtain H T J C where io: "st_io (ps_store x) = local_io H T J C" using assms(1) by (auto simp: fit_def scan_inv_def)
  have f: "scan_inv (ps_store x)" "lfs_rel (w_drv (pass_world x))" "lfs_inv (w_drv (pass_world x))" using assms(1) by (auto simp: fit_def scan_inv_def)
  have rel: "scan_rel (ps_store x) (ps_store x')" using manifest_step_safe [OF f(1) assms(2,3)] e by blast
  note un' = unclaimed_step [OF rel un]
  from assms(1-3) e show ?thesis
  proof (cases rule: manifest_step_cases)
    case 1
    then show ?thesis using lk(2) un un' by (simp add: unclaimed_def)
  next
    case (2 d n y st)
    have "sq_blobs (w_idx (pass_world x')) r = None"
      using ingest_step [OF f(1) 2(2,3,4)] un 2(2,6) unfolding unclaimed_def by metis
    then show ?thesis using ingest_world(1) [OF io 2(4)] lk(2) 2(6) un' by simp
  next
    case (3 d n st)
    have "p \<noteq> mp"
    proof
      assume "p = mp"
      then have "d = dg" using lk(1) 3(1) digest_from_manifest_path_wf [of dg mp] by (simp add: locked_out_def)
      then show False using 3(2) locked_out_ingest [OF lk(1) f(1,2) lk(2)] by simp
    qed
    then have "lfs_view (w_drv (pass_world x')) mp = Some fb" using lfs.remove_frame [OF f(3) assms(2), of mp] lk(2) 3(3) by simp
    then show ?thesis using un' un 3(4) by (simp add: unclaimed_def)
  qed
qed

lemma locked_out_pass:
  assumes "fit (started s)" "scan_reconcile background clock s = (e, ps)" "locked_out s dg mp fb" "lfs_view (w_drv (st_world s)) mp = Some fb" "unclaimed s r"
  shows "e = None \<and> fit ps \<and> scan_rel s (ps_store ps) \<and> lfs_view (w_drv (pass_world ps)) mp = Some fb \<and> unclaimed (ps_store ps) r"
  using assms(1,2)
proof (rule fit_pass)
  fix t ms
  assume t: "fit t" "scan_rel s (ps_store t)" "w_idx (pass_world t) = w_idx (st_world s)"
      "\<And>q. \<not> has_prefix q ''.staging/'' \<Longrightarrow> lfs_view (w_drv (pass_world t)) q = lfs_view (w_drv (st_world s)) q"
    and l: "gc_loop (manifest_step background clock) ms t = (e, ps)"
    and c: "\<And>p. p \<in> set ms \<Longrightarrow> clean_path p \<and> has_prefix p ''manifests/''"
  let ?S = "\<lambda>x. scan_rel s (ps_store x) \<and> lfs_view (w_drv (pass_world x)) mp = Some fb \<and> unclaimed (ps_store x) r"
  have "\<not> has_prefix mp ''.staging/''"
    using assms(3) by (auto simp: locked_out_def manifest_path_def has_prefix_def split: if_splits sum.splits)
  then have S: "?S t" using t assms(4) unclaimed_step [OF t(2) assms(5)] assms(5) by (simp add: unclaimed_def)
  have "fst (gc_loop (manifest_step background clock) ms t) = None \<and> fit (snd (gc_loop (manifest_step background clock) ms t))
    \<and> ?S (snd (gc_loop (manifest_step background clock) ms t)) \<and> (mp \<in> set ms \<or> True \<longrightarrow> True)"
  proof (rule fit_loop [where S = ?S, OF t(1) c _ _ S])
    show "?S (snd (manifest_step background clock p x))" if p: "p \<in> set ms" and x: "fit x" "?S x" for p x
    proof -
      have "scan_rel (ps_store x) (ps_store (snd (manifest_step background clock p x)))"
        using manifest_step_safe [of x p background clock] c [OF p] x(1) unfolding fit_def by blast
      moreover have "locked_out (ps_store x) dg mp fb" using locked_out_rel x(2) assms(3) by blast
      ultimately show ?thesis using locked_out_step [OF x(1) _ _ _ _ _ refl] c [OF p] x(2) scan_rel_trans by blast
    qed
  qed simp_all
  then show ?thesis by (simp add: l)
qed

lemma calm_media_step:
  assumes "calm topo clk x" "lst.stray topo x y" "wf_ref r" "blob_path topo BlobTypeRegular r = Inr q" "y \<noteq> tombstone_of q"
    and "filed q n x \<or> entombed q n x" and e: "x' = media_step (local_io H T J C) background y x"
  shows "fst x' = None \<and> calm topo clk (snd x') \<and> w_idx (gr_world (snd x')) = w_idx (gr_world x) \<and> (filed q n (snd x') \<or> entombed q n (snd x'))
    \<and> (entombed q n x \<or> y = q \<longrightarrow> entombed q n (snd x'))"
proof -
  let ?x = "x \<lparr> gr_tick := Suc (gr_tick x) \<rparr>" and ?m = "mark_path (local_io H T J C) y (x \<lparr> gr_tick := Suc (gr_tick x) \<rparr>)"
  have c: "calm topo clk ?x" "entombed q n ?x = entombed q n x" "filed q n ?x = filed q n x" using assms(1) calm_cong [of ?x x] by simp_all
  have y: "clean_path y" "has_prefix y ''blobs/''" "\<And>r b. sq_blobs (w_idx (gr_world x)) r = Some b \<Longrightarrow> ib_path b \<noteq> y"
    using assms(2) unfolding lst.stray_def by blast+
  have mp: "fst ?m = None \<and> calm topo clk (snd ?m) \<and> w_idx (gr_world (snd ?m)) = w_idx (gr_world ?x)
    \<and> (y = q \<and> (filed q n ?x \<or> entombed q n ?x) \<longrightarrow> entombed q n (snd ?m))
    \<and> (y \<noteq> q \<and> y \<noteq> tombstone_of q \<and> q \<noteq> tombstone_of y \<longrightarrow> filed q n (snd ?m) = filed q n ?x \<and> entombed q n (snd ?m) = entombed q n ?x)"
    by (rule calm_mark_path [OF c(1) y(1,2)]) (use y(3) in simp)
  have d: "lfs_rel (w_drv (gr_world x))" "clean_path q" using assms(1) clean_blob_path [OF assms(3,4)] by (simp_all add: calm_def)
  have t: "entombed q n x" if "lfs_is_tombstone (w_drv (gr_world x)) q = Inr True"
  proof -
    have "lf_root (w_drv (gr_world x)) \<noteq> ''/''" using lfs_rel_keys [OF d(1)] by simp
    then have "node (w_drv (gr_world x)) (tombstone_of q) \<noteq> None"
      using that lfs_rel_sys [OF d(1)] resolve_clean [OF d(2)]
      by (auto simp: lfs_is_tombstone_def file_exists_def tomb_abs node_def split: option.splits if_splits)
    then show ?thesis using assms(6) by (auto simp: filed_def)
  qed
  show ?thesis
  proof (cases "lfs_is_tombstone (w_drv (gr_world x)) y = Inr True")
    case True
    then show ?thesis using t c assms(6) by (auto simp: e media_step_def Let_def background_def)
  next
    case False
    then have "x' = ?m" by (simp add: e media_step_def Let_def background_def)
    then show ?thesis using mp c assms(5,6) blob_path_shape(4) [OF assms(3,4), of y] by (cases "y = q") auto
  qed
qed

lemma media_marks:
  assumes "calm topo clk s" "wf_ref r" "is_hex_ref r" "blob_path topo BlobTypeRegular r = Inr q" "sq_blobs (w_idx (gr_world s)) r = None" "filed q n s"
    and e: "reconcile_media (local_io H T J C) background True s = (x, s')"
  shows "entombed q n s'"
proof -
  let ?io = "local_io H T J C"
  have g: "lst.gc_ok topo s" "lfs_rel (w_drv (gr_world s))" "index_rel (w_idx (gr_world s))" using assms(1) by (simp_all add: calm_def)
  note g' = g(1) [unfolded lst.gc_ok_def tidy_def]
  obtain ms where ms: "d_list localfs_driver (w_drv (gr_world s)) ''blobs'' 0 = Inr ms" using rlfs.rel_list [OF g(2) clean_blobs, of 0] by auto
  obtain k where k: "collect_refs background (gr_tick s) (map om_path ms) = (map om_path ms, None, k)" using collect_refs_all by blast
  let ?ps = "filter (unknown_file ?io (w_idx (gr_world s))) (map om_path ms)" and ?s = "s \<lparr> gr_tick := k \<rparr>"
  have l: "om_path ` set ms = {p. listed_under ''blobs'' p \<and> lfs_view (w_drv (gr_world s)) p \<noteq> None}"
    using lfs.list_ok [OF _ clean_blobs, of "w_drv (gr_world s)" ms] g' ms by simp
  have st: "lst.stray topo s y" "y \<noteq> tombstone_of q" if "y \<in> set ?ps" for y
  proof -
    have y: "listed_under ''blobs'' y" "clean_path y" using that l g' by auto
    then have pr: "has_prefix y ''blobs/''" by (simp add: listed_under_def)
    show "lst.stray topo s y"
      using lst.unknown_stray [where H = H and T = T and J = J and C = C, OF g(1) _ y(2) pr] that by simp
    show "y \<noteq> tombstone_of q" using y tombstone_not_listed [OF blob_path_shape(1) [OF assms(2,4)]] by blast
  qed
  have "lfs_view (w_drv (gr_world s)) q \<noteq> None"
    using assms(6) clean_path_not_temp(1) [OF clean_blob_path [OF assms(2,4)]] by (simp add: filed_def node_def lfs_view_def)
  moreover have "unknown_file ?io (w_idx (gr_world s)) q"
    using ref_from_blob_path_wf [OF assms(2,4)] rsqx.irel_resolve [OF g(3) assms(3)] assms(5) by (simp add: unknown_file_def)
  ultimately have q: "q \<in> set ?ps" using l blob_listed [OF assms(2,4)] by force
  let ?f = "media_step ?io background" and ?Q = "\<lambda>x. calm topo clk x \<and> w_idx (gr_world x) = w_idx (gr_world s) \<and> (filed q n x \<or> entombed q n x)"
  have step: "fst (?f y x) = None \<and> ?Q (snd (?f y x)) \<and> (entombed q n x \<or> y = q \<longrightarrow> entombed q n (snd (?f y x)))"
    if y: "y \<in> set ?ps" and x: "?Q x" for y x
    using calm_media_step [of topo clk x y r q n, OF _ _ assms(2,4) st(2) [OF y] _ refl] x st(1) [OF y] by (simp add: lst.stray_def)
  have "fst (gc_loop ?f ?ps ?s) = None \<and> ?Q (snd (gc_loop ?f ?ps ?s)) \<and> (q \<in> set ?ps \<or> entombed q n ?s \<longrightarrow> entombed q n (snd (gc_loop ?f ?ps ?s)))"
  proof (rule gc_loop_reach [where Q = ?Q])
    show "?Q ?s" using assms(1,6) calm_cong [of ?s s] by simp
  qed (use step q in blast)+
  then show ?thesis using q e ms k by (simp add: reconcile_media_def)
qed

text \<open>C39: a manifest the session cannot read is not safe from the collector.  Take a whole manifest that
  verifies against its name, whose blob is on disk, and which a session without its key cannot decode.  The
  open-time pass skips it and ends without an error, so the index counts as complete; the collector's reconciliation
  of the media then moves the blob away.  The manifest is still there, but no payload can be read for it any more, whoever holds
  the key.\<close>

theorem skipped_manifest_collected:
  assumes "scan_inv s" "lfs_rel (w_drv (st_world s))" "index_rel (w_idx (st_world s))" "tidy clean_path (lfs_view (w_drv (st_world s)))"
    and "locked_out s dg mp fb" "stored_as (st_io s) keys (store_algo s) (lfs_view (w_drv (st_world s))) dg m" "lfs_view (w_drv (st_world s)) mp = Some fb"
    and "blob_storage m = layout_target" "primary_blob_ref m = r" "wf_ref r" "is_hex_ref r" "unclaimed s r"
    and "blob_path (cf_path_topology (st_active s)) BlobTypeRegular r = Inr q" "lfs_view (w_drv (st_world s)) q \<noteq> None"
    and "lfs_view (w_drv (st_world s)) (tombstone_of q) = None"
    and "bootstrap_pass background clock False s = (e, ps, complete)"
    and "reconcile_media (st_io s) background complete (gc_start (pass_world ps)) = (e', g)"
  shows "e = None \<and> complete \<and> stored_as (st_io s) keys (store_algo s) (lfs_view (w_drv (gr_world g))) dg m
    \<and> \<not> file_reads (st_io s) (cf_path_topology (st_active s)) (lfs_view (w_drv (gr_world g))) m p"
proof -
  let ?topo = "cf_path_topology (st_active s)"
  obtain H T J C where io: "st_io s = local_io H T J C" using assms(1) by (auto simp: scan_inv_def)
  have "fit (started s)" using assms(1-3) by (simp add: fit_def)
  moreover obtain e0 ps0 where p0: "scan_reconcile background clock s = (e0, ps0)" by fastforce
  ultimately have lp: "e0 = None" "fit ps0" "scan_rel s (ps_store ps0)" "lfs_view (w_drv (pass_world ps0)) mp = Some fb" "unclaimed (ps_store ps0) r"
    using locked_out_pass [OF _ _ assms(5,7,12)] by blast+
  then have c: "e = None" "ps = ps0" "complete" using assms(16) p0 by (simp_all add: bootstrap_pass_def)
  let ?d = "w_drv (pass_world ps)" and ?v = "lfs_view (w_drv (st_world s))"
  have same: "lfs_view ?d x = ?v x" if "has_prefix x ''blobs/'' \<or> x = ''blobs''" for x
  proof -
    have "\<not> has_prefix x ''.staging/'' \<and> \<not> has_prefix x ''manifests/''" using that by (auto simp: has_prefix_conv)
    then show ?thesis using lp(3) c(2) unfolding scan_rel_def disk_same_def by blast
  qed
  have f: "scan_inv (ps_store ps)" "lfs_rel ?d" "index_rel (w_idx (pass_world ps))" using lp(2) c(2) by (simp_all add: fit_def)
  have "tidy clean_path (lfs_view ?d)" using assms(4) same unfolding tidy_def listed_under_def by auto
  moreover have "blob_rows ?topo (sq_blobs (w_idx (pass_world ps)))"
    using f(1) scan_rel_fields [OF lp(3)] c(2) unfolding scan_inv_def index_agrees_def by simp
  ultimately have cm: "calm ?topo (lf_clock ?d) (gc_start (pass_world ps))" and ok: "lst.gc_ok ?topo (gc_start (pass_world ps))"
    using f unfolding calm_def lst.gc_ok_def scan_inv_def by (simp_all add: gc_start_def no_stats_def)
  note sh = blob_path_shape [OF assms(10,13)] and cq = clean_path_not_temp [OF clean_blob_path [OF assms(10,13)]]
  have "has_prefix (tombstone_of q) ''blobs/''" using sh(1) by (auto simp: tombstone_of_def has_prefix_conv)
  then have v: "lfs_view ?d q \<noteq> None" "lfs_view ?d (tombstone_of q) = None" using same sh(1) assms(14,15) by auto
  then obtain n where "filed q n (gc_start (pass_world ps))"
    using cq by (auto simp: filed_def node_def lfs_view_def gc_start_def)
  moreover have "sq_blobs (w_idx (gr_world (gc_start (pass_world ps)))) r = None" using lp(5) c(2) by (simp add: unclaimed_def gc_start_def)
  ultimately have en: "entombed q n g" using media_marks [OF cm assms(10,11,13)] assms(17) c(3) io by simp
  then have qv: "lfs_view (w_drv (gr_world g)) q = None" by (simp add: entombed_def node_def lfs_view_def)
  have "lst.gc_rel (gc_start (pass_world ps)) g"
    using lst.media_safe [where H = H and T = T and J = J and C = C and ctx = background and complete = True, OF ok clean_blobs] assms(17) c(3) io by (metis snd_conv)
  moreover have "\<not> has_prefix mp ''blobs/''"
    using assms(5) by (auto simp: locked_out_def manifest_path_def has_prefix_def split: if_splits sum.splits)
  ultimately have "lfs_view (w_drv (gr_world g)) mp = Some fb"
    using lp(4) c(2) unfolding lst.gc_rel_def gc_frame_def by (simp add: gc_start_def)
  then have "stored_as (st_io s) keys (store_algo s) (lfs_view (w_drv (gr_world g))) dg m = stored_as (st_io s) keys (store_algo s) ?v dg m"
    using assms(5,7) by (intro stored_as_frame) (simp add: locked_out_def)
  then show ?thesis using c assms(6,8,9,13) qv by (simp add: file_reads_def layout_target_def layout_inline_def)
qed

subsection \<open>Stores over given files\<close>

definition files_fs :: "(path \<times> bytes) list \<Rightarrow> localfs" where
  "files_fs fs = sample_fs \<lparr> lf_files := map (\<lambda>(p, c). (abs_path sample_fs p, \<lparr> f_content = c, f_mtime = 0 \<rparr>)) fs \<rparr>"

definition files_store :: "json_body \<Rightarrow> (path \<times> bytes) list \<Rightarrow> (localfs, index_state) store" where
  "files_store b fs = sample_store \<lparr> st_io := local_io sample_registry (\<lambda>_. None) (table_codec [b]) const_tag_cipher,
     st_active := sample_config \<lparr> cf_path_topology := TopologyFlat \<rparr>, st_world := \<lparr> w_drv = files_fs fs, w_idx = fresh_index \<rparr> \<rparr>"

lemma files_store_fields [simp]:
  "st_io (files_store b fs) = local_io sample_registry (\<lambda>_. None) (table_codec [b]) const_tag_cipher"
  "w_drv (st_world (files_store b fs)) = files_fs fs" "w_idx (st_world (files_store b fs)) = fresh_index"
  "store_keys (files_store b fs) = None" "store_algo (files_store b fs) = ''sha256''"
  "cf_path_topology (st_active (files_store b fs)) = TopologyFlat"
  by (simp_all add: files_store_def sample_config_def hasher_name_def)

lemma files_fs_facts:
  assumes "list_all clean_path (map fst fs)" "distinct (map fst fs)"
  shows "lfs_rel (files_fs fs)" "lfs_view (files_fs fs) = map_of fs"
proof -
  have a: "abs_path (files_fs fs) p = ''/data/'' @ p" "abs_path sample_fs p = ''/data/'' @ p" for p
    by (simp_all add: abs_path_def files_fs_def sample_fs_def)
  have t: "\<not> is_temp (base_name p)" "\<not> is_temp (base_name (''/data/'' @ p))" if "(p, c) \<in> set fs" for p c
  proof -
    have c: "clean_path p" using assms(1) that by (auto simp: list_all_iff)
    show "\<not> is_temp (base_name p)" by (rule clean_path_not_temp(1) [OF c])
    then show "\<not> is_temp (base_name (''/data/'' @ p))" using c by (metis a(2) base_name_abs)
  qed
  have d: "distinct (map ((\<lambda>p. ''/data/'' @ p) \<circ> fst) fs)"
    using assms(2) by (simp add: distinct_map comp_inj_on_iff inj_on_def)
  show "lfs_rel (files_fs fs)"
    using t d by (auto simp: lfs_rel_def lfs_inv_def files_fs_def sample_fs_def abs_path_def has_prefix_def comp_def case_prod_beta)
  have m: "map_option f_content (map_of (map (\<lambda>(p, c). (''/data/'' @ p, \<lparr> f_content = c, f_mtime = 0 \<rparr>)) fs) (''/data/'' @ p)) = map_of fs p" for p
    by (induction fs) auto
  show "lfs_view (files_fs fs) = map_of fs"
  proof
    fix p
    have "is_temp (base_name p) \<Longrightarrow> map_of fs p = None" using t(1) by (metis map_of_SomeD not_None_eq)
    then show "lfs_view (files_fs fs) p = map_of fs p" using m [of p] by (simp add: lfs_view_def a) (simp add: files_fs_def a)
  qed
qed

lemma files_store_inv:
  assumes "list_all clean_path (map fst fs)" "distinct (map fst fs)" "map_of fs staging_prefix = None" "map_of fs ''manifests'' = None"
    and "engine_files (local_io sample_registry (\<lambda>_. None) (table_codec [b]) const_tag_cipher) None ''sha256'' (map_of fs)"
  shows "scan_inv (files_store b fs)" "lfs_rel (w_drv (st_world (files_store b fs)))" "index_rel (w_idx (st_world (files_store b fs)))"
proof -
  note f = files_fs_facts [OF assms(1,2)]
  show "lfs_rel (w_drv (st_world (files_store b fs)))" "index_rel (w_idx (st_world (files_store b fs)))" using f(1) fresh_index_rel by simp_all
  have "clean_path p" if "map_of fs p \<noteq> None" for p using that assms(1) by (fastforce simp: list_all_iff dest: map_of_SomeD)
  then have "tidy_under clean_path dir (map_of fs)" if "map_of fs dir = None" for dir using that by (simp add: tidy_under_def)
  moreover have "quiet fresh_index" by (simp add: quiet_def fresh_index_def)
  moreover have "lfs_inv (files_fs fs)" "index_wf fresh_index" using f(1) rsqx.irel_inv [OF fresh_index_rel] by (simp_all add: lfs_rel_def)
  ultimately show "scan_inv (files_store b fs)"
    using assms(3,4,5) f(2) by (auto simp: scan_inv_def index_agrees_def blob_rows_def)
qed

lemma manifest_file:
  assumes "dg = hex_encode (len_hash fb)"
  obtains mp where "wf_ref dg" "is_hex_ref dg" "manifest_path dg = Inr mp" "clean_path mp" "has_prefix mp ''manifests/''"
    "\<And>d. manifest_path d = Inr mp \<Longrightarrow> wf_ref d \<Longrightarrow> d = dg" "mp \<noteq> staging_prefix" "mp \<noteq> ''manifests''"
proof -
  have w: "wf_ref dg" "is_hex_ref dg" using len_hash_wide assms by auto
  obtain mp where mp: "manifest_path dg = Inr mp" using manifest_path_wf [OF w(1)] by blast
  have h: "has_prefix mp ''manifests/''" using mp by (auto simp: manifest_path_def has_prefix_def split: if_splits sum.splits)
  then have "mp \<noteq> staging_prefix" "mp \<noteq> ''manifests''" by (auto simp: has_prefix_def staging_prefix_def)
  moreover note h
  moreover have "d = dg" if "manifest_path d = Inr mp" "wf_ref d" for d
    using digest_from_manifest_path_wf [OF that(2,1)] digest_from_manifest_path_wf [OF w(1) mp] by simp
  ultimately show thesis using that w mp clean_manifest_path [OF w(1) mp] by blast
qed

text \<open>The artifact of \<open>sample_stored\<close>, with its index lost.\<close>

definition lost_path :: path where
  "lost_path = (case manifest_path (hex_encode (len_hash sample_file)) of Inr p \<Rightarrow> p | Inl _ \<Rightarrow> [])"

definition lost_store :: "(localfs, index_state) store" where
  "lost_store = files_store (body_of sample_manifest) [(lost_path, sample_file)]"

lemma lost_store_facts:
  "scan_inv lost_store" "lfs_rel (w_drv (st_world lost_store))" "index_rel (w_idx (st_world lost_store))"
  "disk_store lost_store = {(sample_handle, ''hi'')}"
proof -
  let ?dg = "hex_encode (len_hash sample_file)" and ?m = "persisted sample_manifest" and ?fs = "[(lost_path, sample_file)]"
  let ?io = "local_io sample_registry (\<lambda>_. None) (table_codec [body_of sample_manifest]) const_tag_cipher :: (localfs, index_state) cas_io"
  obtain mp where mp: "wf_ref ?dg" "is_hex_ref ?dg" "manifest_path ?dg = Inr mp" "clean_path mp" "has_prefix mp ''manifests/''"
      "\<And>d. manifest_path d = Inr mp \<Longrightarrow> wf_ref d \<Longrightarrow> d = ?dg" "mp \<noteq> staging_prefix" "mp \<noteq> ''manifests''"
    by (rule manifest_file [of ?dg sample_file, OF refl]) blast
  have p: "lost_path = mp" using mp(3) by (simp add: lost_path_def)
  have st: "stored_as ?io None ''sha256'' (map_of ?fs) d m \<longleftrightarrow> d = ?dg \<and> m = ?m" if "wf_ref d" for d m
  proof -
    have l: "length sample_file \<le> max_manifest_size" by (simp add: sample_file_def magic_json_def max_manifest_size_def)
    have "d = ?dg" if "stored_as ?io None ''sha256'' (map_of ?fs) d m"
      using mp(6) [of d] \<open>wf_ref d\<close> that p by (auto simp: stored_as_def split: if_splits)
    moreover have "stored_as ?io None ''sha256'' (map_of ?fs) ?dg m \<longleftrightarrow> m = ?m"
      using mp(3) sample_decoded p l by (auto simp: stored_as_def)
    ultimately show ?thesis by blast
  qed
  have f: "blob_storage ?m = layout_inline" "blob_refs ?m = []" "inline_blob ?m = ''hi''" "artifact_id ?m = sample_handle"
    by (simp_all add: sample_manifest_def put_manifest_def sample_result_def persisted_def)
  have ef: "engine_files ?io None ''sha256'' (map_of ?fs)"
    using st mp(2) f by (auto simp: engine_files_def indexable_def indexed_refs_def)
  have n: "map_of ?fs staging_prefix = None" "map_of ?fs ''manifests'' = None" using mp(7,8) p by simp_all
  show "scan_inv lost_store" "lfs_rel (w_drv (st_world lost_store))" "index_rel (w_idx (st_world lost_store))"
    using files_store_inv [OF _ _ n ef] mp(4) p by (simp_all add: lost_store_def)
  have cl: "claims sample_registry ''sha256'' ?m ''hi''"
    by (simp add: claims_def sample_manifest_def put_manifest_def sample_result_def sample_registry_def)
  have ex: "(\<exists>dg m. wf_ref dg \<and> stored_as ?io None ''sha256'' (map_of ?fs) dg m \<and> X m) \<longleftrightarrow> X ?m" for X
  proof
    show "X ?m" if "\<exists>dg m. wf_ref dg \<and> stored_as ?io None ''sha256'' (map_of ?fs) dg m \<and> X m" using that st by (elim exE conjE) simp
    show "\<exists>dg m. wf_ref dg \<and> stored_as ?io None ''sha256'' (map_of ?fs) dg m \<and> X m" if "X ?m"
      using that st [OF mp(1), of ?m] mp(1) by (intro exI [of _ ?dg] exI [of _ ?m]) blast
  qed
  have v: "lfs_view (files_fs ?fs) = map_of ?fs" using files_fs_facts(2) [of ?fs] mp(4) p by simp
  have "disk_store lost_store = {(a, b). a \<noteq> [] \<and> artifact_id ?m = a \<and> claims (io_hashes ?io) ''sha256'' ?m b \<and> file_reads ?io TopologyFlat (map_of ?fs) ?m b}"
    unfolding disk_store_def on_disk_def lost_store_def files_store_fields v ex ..
  then show "disk_store lost_store = {(sample_handle, ''hi'')}" using f cl sample_stored_facts(6) by (auto simp: file_reads_def)
qed

theorem reopen_recovers_witness:
  "\<exists>ps. scan_reconcile background (\<lambda>_. 7) lost_store = (None, ps) \<and> abs_store lost_store = {} \<and> abs_store (ps_store ps) = {(sample_handle, ''hi'')}"
proof -
  obtain e ps where p: "scan_reconcile background (\<lambda>_. 7) lost_store = (e, ps)" by fastforce
  have "abs_store lost_store = {}" by (simp add: abs_store_def holds_def lost_store_def)
  then show ?thesis using reopen_recovers [OF lost_store_facts(1-3) p] p lost_store_facts(4) by simp
qed

theorem reopen_keeps_witness:
  "\<exists>e ps. scan_reconcile (\<lambda>k. if k < 1 then None else Some ErrContext) (\<lambda>_. 7) lost_store = (e, ps)
    \<and> disk_store (ps_store ps) = {(sample_handle, ''hi'')}"
proof -
  obtain e ps where p: "scan_reconcile (\<lambda>k. if k < 1 then None else Some ErrContext) (\<lambda>_. 7) lost_store = (e, ps)" by fastforce
  then show ?thesis using reopen_keeps [OF lost_store_facts(1) p] lost_store_facts(4) by simp
qed

text \<open>A sealed-away artifact: the manifest is encrypted under a key the session does not have, its blob is in place.\<close>

definition locked_manifest :: manifest where
  "locked_manifest = sample_manifest \<lparr> blob_storage := layout_target, blob_refs := [hex_encode orphan_key], inline_blob := [] \<rparr>"

definition locked_file :: bytes where
  "locked_file = magic_json @ [CHR 0x02, CHR 0x02] @ ''k1'' @ replicate 12 CHR ''n'' @ replicate 16 CHR ''t''"

definition locked_path :: path where
  "locked_path = (case manifest_path (hex_encode (len_hash locked_file)) of Inr p \<Rightarrow> p | Inl _ \<Rightarrow> [])"

definition locked_store :: "(localfs, index_state) store" where
  "locked_store = files_store (body_of locked_manifest) [(locked_path, locked_file), (orphan_path, ''old'')]"

lemma locked_header:
  "write_header \<lparr> fh_encoding = EncodingJSON, fh_crypto = CryptoParanoid, fh_key_id = ''k1'' \<rparr> = Inr (magic_json @ [CHR 0x02, CHR 0x02] @ ''k1'')"
  by code_simp

lemma locked_decoded:
  "decode_encrypted (table_codec [body_of locked_manifest]) const_tag_cipher locked_file (Some (\<lambda>_. Inr [sample_dek])) = Inr (persisted locked_manifest)"
  "decode_encrypted J C locked_file None = Inl ErrKeyNotFound"
  "verify_manifest_digest sample_registry (hex_encode (len_hash locked_file)) locked_file ''sha256'' = Inr ()"
  "length locked_file \<le> max_manifest_size"
proof -
  let ?jc = "table_codec [body_of locked_manifest]"
  show l: "length locked_file \<le> max_manifest_size" by (simp add: locked_file_def magic_json_def max_manifest_size_def)
  show "verify_manifest_digest sample_registry (hex_encode (len_hash locked_file)) locked_file ''sha256'' = Inr ()"
    by (simp add: verify_manifest_digest_def new_hasher_def sample_registry_def)
  have r: "read_header locked_file = Inr (normal_header \<lparr> fh_encoding = EncodingJSON, fh_crypto = CryptoParanoid, fh_key_id = ''k1'' \<rparr>,
      length (magic_json @ [CHR 0x02, CHR 0x02] @ ''k1''))"
    using read_header_write [OF locked_header, of "replicate 12 CHR ''n'' @ replicate 16 CHR ''t''"] by (simp add: locked_file_def)
  then show "decode_encrypted J C locked_file None = Inl ErrKeyNotFound"
    using l by (simp add: decode_encrypted_def normal_header_def)
  have c: "check_ref_limits locked_manifest = Inr ()" "validate_slot locked_manifest = Inr ()"
    by (simp_all add: locked_manifest_def sample_manifest_def put_manifest_def sample_opts_def sample_artifact_def sample_result_def validate_slot_def
        check_ref_limits_def check_handle_refs_def is_system_def limit_defs sample_handle_def hash_format_def layout_target_def layout_inline_def)
  have p: "encode_paranoid ?jc const_tag_cipher sample_nonces locked_manifest sample_dek h = Inr (replicate 12 CHR ''n'' @ replicate 16 CHR ''t'')" for h
    by (simp add: encode_paranoid_def marshal_body_json_def seal_body_def new_gcm_def sample_dek_def
        dek_len_def const_tag_cipher_def sample_nonces_def Let_def)
  have e: "encode_encrypted ?jc const_tag_cipher sample_nonces locked_manifest EncodingJSON CryptoParanoid sample_dek ''k1'' = Inr locked_file"
  proof -
    have "sample_dek \<noteq> []" by (simp add: sample_dek_def)
    then show ?thesis by (simp add: encode_encrypted_def is_plain_def c p locked_header locked_file_def)
  qed
  have u: "manifest_utf8 locked_manifest"
    by (simp add: manifest_utf8_def locked_manifest_def sample_manifest_def put_manifest_def sample_opts_def sample_artifact_def sample_result_def
        sample_handle_def sample_meta_hash_def ascii_hash_format layout_target_def in_range_def)
  have n: "nonces_ok sample_nonces" "key_committing const_tag_cipher sample_dek [sample_dek]"
    by (simp_all add: nonces_ok_def sample_nonces_def nonce_len_def Let_def key_committing_def)
  show "decode_encrypted ?jc const_tag_cipher locked_file (Some (\<lambda>_. Inr [sample_dek])) = Inr (persisted locked_manifest)"
    using decode_encode_encrypted [OF table_codec_faithful u _ _ const_tag_correct n(2) _ n(1) e _ l, of "\<lambda>_. Inr [sample_dek]"] by simp
qed

lemma locked_store_facts:
  "scan_inv locked_store" "lfs_rel (w_drv (st_world locked_store))" "index_rel (w_idx (st_world locked_store))"
  "lfs_view (w_drv (st_world locked_store)) = map_of [(locked_path, locked_file), (orphan_path, ''old'')]"
  "locked_out locked_store (hex_encode (len_hash locked_file)) locked_path locked_file" "unclaimed locked_store (hex_encode orphan_key)"
  "stored_as (st_io locked_store) (Some (\<lambda>_. Inr [sample_dek])) (store_algo locked_store) (lfs_view (w_drv (st_world locked_store)))
     (hex_encode (len_hash locked_file)) (persisted locked_manifest)"
  "tidy clean_path (lfs_view (w_drv (st_world locked_store)))" "locked_path \<noteq> orphan_path" "locked_path \<noteq> tombstone_of orphan_path"
proof -
  let ?dg = "hex_encode (len_hash locked_file)" and ?fs = "[(locked_path, locked_file), (orphan_path, ''old'')]"
  let ?io = "local_io sample_registry (\<lambda>_. None) (table_codec [body_of locked_manifest]) const_tag_cipher :: (localfs, index_state) cas_io"
  obtain mp where mp: "wf_ref ?dg" "manifest_path ?dg = Inr mp" "clean_path mp" "has_prefix mp ''manifests/''" "mp \<noteq> staging_prefix" "mp \<noteq> ''manifests''"
    by (rule manifest_file [of ?dg locked_file, OF refl]) blast
  have p: "locked_path = mp" using mp(2) by (simp add: locked_path_def)
  have o: "orphan_path \<noteq> mp" "orphan_path \<noteq> ''manifests''" "orphan_path \<noteq> staging_prefix" "orphan_path \<noteq> ''blobs''"
    "\<And>d. manifest_path d \<noteq> Inr orphan_path"
    using mp(4) by (auto simp: orphan_path_def has_prefix_def staging_prefix_def manifest_path_def split: if_splits sum.splits)
  then show "locked_path \<noteq> orphan_path" using p by simp
  show "locked_path \<noteq> tombstone_of orphan_path" unfolding p using mp(4) by (auto simp: orphan_path_def has_prefix_def tombstone_of_def)
  have c: "list_all clean_path (map fst ?fs)" "distinct (map fst ?fs)" using mp(3) orphan_wf(3) o(1) p by auto
  have un: "\<not> stored_as ?io None ''sha256'' (map_of ?fs) d m" for d m
    using o(5) [of d] locked_decoded(2) by (auto simp: stored_as_def split: if_splits)
  then have ef: "engine_files ?io None ''sha256'' (map_of ?fs)" by (simp add: engine_files_def)
  have n: "map_of ?fs staging_prefix = None" "map_of ?fs ''manifests'' = None" using o mp(5,6) p by auto
  show "scan_inv locked_store" "lfs_rel (w_drv (st_world locked_store))" "index_rel (w_idx (st_world locked_store))"
    using files_store_inv [OF c n ef] unfolding locked_store_def by blast+
  show v: "lfs_view (w_drv (st_world locked_store)) = map_of ?fs" using files_fs_facts(2) [OF c] by (simp add: locked_store_def)
  show "locked_out locked_store ?dg locked_path locked_file"
    using mp(1,2) p locked_decoded by (simp add: locked_out_def locked_store_def)
  show "unclaimed locked_store (hex_encode orphan_key)"
    using un unfolding unclaimed_def v by (simp add: locked_store_def)
  show "stored_as (st_io locked_store) (Some (\<lambda>_. Inr [sample_dek])) (store_algo locked_store) (lfs_view (w_drv (st_world locked_store))) ?dg (persisted locked_manifest)"
    unfolding v using mp(2) p locked_decoded by (simp add: stored_as_def locked_store_def)
  have "mp \<noteq> ''blobs''" using mp(4) by (auto simp: has_prefix_def)
  then show "tidy clean_path (lfs_view (w_drv (st_world locked_store)))"
    unfolding v using o c p by (auto simp: tidy_def split: if_splits)
qed

theorem skipped_manifest_collected_witness:
  "\<exists>ps e' g. bootstrap_pass background (\<lambda>_. 7) False locked_store = (None, ps, True)
    \<and> reconcile_media (st_io locked_store) background True (gc_start (pass_world ps)) = (e', g)
    \<and> file_reads (st_io locked_store) TopologyFlat (lfs_view (w_drv (st_world locked_store))) (persisted locked_manifest) ''old''
    \<and> \<not> file_reads (st_io locked_store) TopologyFlat (lfs_view (w_drv (gr_world g))) (persisted locked_manifest) ''old''"
proof -
  obtain e ps c where b: "bootstrap_pass background (\<lambda>_. 7) False locked_store = (e, ps, c)" by (metis prod_cases3)
  obtain e' g where m: "reconcile_media (st_io locked_store) background c (gc_start (pass_world ps)) = (e', g)" by fastforce
  have t: "cf_path_topology (st_active locked_store) = TopologyFlat" by (simp add: locked_store_def)
  have pm: "blob_storage (persisted locked_manifest) = layout_target" "primary_blob_ref (persisted locked_manifest) = hex_encode orphan_key"
      "pipeline (persisted locked_manifest) = []"
    by (simp_all add: locked_manifest_def primary_blob_ref_def sample_manifest_def put_manifest_def sample_result_def)
  have v: "lfs_view (w_drv (st_world locked_store)) locked_path = Some locked_file" "lfs_view (w_drv (st_world locked_store)) orphan_path = Some ''old''"
      "lfs_view (w_drv (st_world locked_store)) (tombstone_of orphan_path) = None"
    using locked_store_facts(9,10) unfolding locked_store_facts(4) by (auto simp: tombstone_of_def tombstone_suffix_def)
  have "e = None \<and> c \<and> stored_as (st_io locked_store) (Some (\<lambda>_. Inr [sample_dek])) (store_algo locked_store) (lfs_view (w_drv (gr_world g)))
      (hex_encode (len_hash locked_file)) (persisted locked_manifest)
    \<and> \<not> file_reads (st_io locked_store) (cf_path_topology (st_active locked_store)) (lfs_view (w_drv (gr_world g))) (persisted locked_manifest) ''old''"
    by (rule skipped_manifest_collected [OF locked_store_facts(1-3,8,5,7) v(1) pm(1,2) orphan_wf(1) _ locked_store_facts(6) _ _ v(3) b m])
       (use orphan_wf t v in auto)
  moreover have "file_reads (st_io locked_store) TopologyFlat (lfs_view (w_drv (st_world locked_store))) (persisted locked_manifest) ''old''"
    using pm orphan_wf(4) v(2) by (simp add: file_reads_def layout_target_def layout_inline_def build_get_def)
  ultimately show ?thesis using b m t by auto
qed


end
