(* ===== verification/Spec2Isabelle.thy ===== *)
theory Spec2Isabelle
  imports Lease Segaead Index_Runs Reopen
begin

text \<open>
  Scrinium (\<^verbatim>\<open>src/\<close>) is a content-addressed storage engine.  A store keeps artifacts: a payload, placed inline
  in its manifest or as a blob file, and a manifest file that describes it.  Files live on a driver, a
  SQLite index answers where things are, and agents maintain the whole.  This development models the engine from the
  driver and the index up to the data plane of the store and its maintenance, as executable HOL definitions,
  and proves what each layer promises to the next.

  \<^bold>\<open>How the parts interact.\<close>  \<^verbatim>\<open>store.Put\<close> passes the gates, guards the payload size and hands the payload to
  the content layer (\<^verbatim>\<open>engine/internal/cas\<close>), which runs it through the pipeline (\<^verbatim>\<open>engine/pipeline\<close>) into a staging
  file, renames that file to the path of its hash (\<^verbatim>\<open>engine/layout\<close>) unless the index knows the content, encodes
  the manifest (\<^verbatim>\<open>engine/artifact\<close>), writes it and registers it in the index (\<^verbatim>\<open>engine/index/sqlite\<close>).
  \<^verbatim>\<open>Get\<close> goes the other way.  \<^verbatim>\<open>Delete\<close> removes the manifest file and its row; the collector
  (\<^verbatim>\<open>engine/agent/gc\<close>) reaps the blobs no manifest references.  Leases and other system artifacts are small
  manifests in named cells on the same driver (\<^verbatim>\<open>engine/internal/named\<close>, \<^verbatim>\<open>engine/lease\<close>).

  \<^bold>\<open>Conventions.\<close>  A Go string or byte slice is a list of characters, each one byte.  A function that may fail
  returns \<open>err + 'a\<close>; one that changes state returns the result and the new state, also on failure.  An
  error is the sentinel it wraps.  A reader is the bytes it yields and the error it ends with; the readers whose chunking
  matters are state machines with a read function.  Instants are nanoseconds.  Integers whose width
  matters are words or are wrapped explicitly.  A context is the error it reports when consulted, per consultation where
  an operation consults it repeatedly.

  \<^bold>\<open>The theories.\<close>
  \<^item> \<^verbatim>\<open>Prelude\<close>: errors, hexadecimal, path and string helpers, association lists, shared lemmas.
  \<^item> \<^verbatim>\<open>Domain\<close>: the values of \<^verbatim>\<open>domain/\<close>, in particular the manifest.  \<^verbatim>\<open>Hashing\<close>: \<^verbatim>\<open>engine/hashing\<close>.
  \<^item> \<^verbatim>\<open>Layout\<close>: \<^verbatim>\<open>engine/layout\<close>; paths are injective and disjoint, and references are recovered from them.
  \<^item> \<^verbatim>\<open>Manifest_Header\<close>, \<^verbatim>\<open>Manifest_Codec\<close>: \<^verbatim>\<open>engine/artifact\<close>, the manifest file in the plain, sealed and paranoid
    modes; what is written verifies and decodes to what was encoded, and a system name does not survive.
  \<^item> \<^verbatim>\<open>Driver_Spec\<close>: the driver interface as a record, with its contract as the locales \<open>driver_laws\<close> and
    \<open>reliable_driver\<close>.  \<^verbatim>\<open>Localfs\<close>: \<^verbatim>\<open>engine/driver/localfs\<close> over a file table with a fault schedule for
    every system call; both locales are interpreted on it, puts are atomic and paths confined to the root.
  \<^item> \<^verbatim>\<open>Named\<close>, \<^verbatim>\<open>System_Artifact\<close>: \<^verbatim>\<open>engine/internal/named\<close>, versioned names and cells; claims are exclusive under
    every interleaving, pruning spares the active version, cells round-trip.
  \<^item> \<^verbatim>\<open>Lease\<close>: \<^verbatim>\<open>engine/lease\<close>, with acquisition as a step relation at the granularity of driver calls; a free slot
    has one winner, and the race and the dead end of takeover are theorems.
  \<^item> \<^verbatim>\<open>Segaead\<close>: \<^verbatim>\<open>engine/pipeline/internal/segaead\<close>, the streaming encryption readers; round trip, memory bound and the
    frames they fail to bind.  \<^verbatim>\<open>Pipeline\<close>: \<^verbatim>\<open>engine/pipeline\<close> with its AES-GCM and zstd stages.
  \<^item> \<^verbatim>\<open>Config\<close>: \<^verbatim>\<open>config/\<close>, the field registry, defaults, validation and connection planning.
  \<^item> \<^verbatim>\<open>Index_Spec\<close>: the index interface as a record, with its contract as the locales \<open>index_laws\<close> and
    \<open>reliable_index\<close>.  \<^verbatim>\<open>Sqlite_Index\<close>: \<^verbatim>\<open>engine/index/sqlite\<close> over keyed tables; both locales are interpreted on
    it.  \<^verbatim>\<open>Index_Runs\<close>: histories of the index; exact reference counts, refinement of the
    abstract index and completeness of the change feed.
  \<^item> \<^verbatim>\<open>Cas\<close>: \<^verbatim>\<open>engine/internal/cas\<close> over any driver and index.  \<^verbatim>\<open>Cas_Sound\<close>: the invariant that every row is backed by its
    files, kept by the write path in the locale \<open>cas_world\<close>.  \<^verbatim>\<open>Cas_Local\<close>: its interpretation on the local
    filesystem and SQLite.
  \<^item> \<^verbatim>\<open>Store\<close>: \<^verbatim>\<open>engine/store\<close>, gates, size guard, data plane, verification and liveness.  \<^verbatim>\<open>Store_Spec\<close>: the store as a set
    of pairs of identifier and payload (\<open>abs_store\<close>), which \<^verbatim>\<open>Put\<close>, \<^verbatim>\<open>Get\<close>, \<^verbatim>\<open>Delete\<close> and
    \<^verbatim>\<open>RollbackSession\<close> implement with any I/O failures.
  \<^item> \<^verbatim>\<open>Gc\<close>: \<^verbatim>\<open>engine/agent/gc\<close>; a cycle loses nothing the store holds, reaps old orphans at once, and leaves a
    later deduplicating write without a file.
  \<^item> \<^verbatim>\<open>Reopen\<close>: \<^verbatim>\<open>engine/store/index_readiness.go\<close> and \<^verbatim>\<open>engine/store/internal/orphanscan\<close>, opening over what a crash or a lost
    index left; the pass keeps what the files describe (\<open>on_disk\<close>) whatever fails, recovers the store from the files,
    and leaves the blobs of a manifest it had to skip to the collector.
  \<^bold>\<open>Code outside the sources.\<close>  Hash functions, the AEAD, the JSON encoder, the compressor, random draws, clocks, the
  operating system's faults and the availability of the database are arguments.  What the proofs rely on is
  stated as hypotheses with names: a faithful JSON codec (\<open>json_faithful\<close>), a correct and key-committing AEAD
  (\<open>aead_correct\<close>, \<open>key_committing\<close>), lossless stages (\<open>stages_good\<close>), no collision among the bytes in play
  (\<open>clash_free\<close>).  Every theorem with hypotheses has a witness on concrete instances.

  \<^bold>\<open>Bounds.\<close>  The claim loop is bounded by the code's own 64 attempts.  The fill loops of the segmented readers carry
  as fuel the length of the source plus two, which suffices because every fill consumes a byte or ends the source;
  the round trip shows that the fuel error does not occur.  Streams drained inside a stage carry a read budget of the same kind.
  All other loops are structural recursions over the list the code iterates.

  \<^bold>\<open>Not modelled.\<close>  Front ends and projections (\<^verbatim>\<open>cmd\<close>, \<^verbatim>\<open>projection\<close>) present what the index lists.  Schema migration,
  snapshot files and pragmas of SQLite administer the database.  Argon2id and key wrapping are calls into crypto
  libraries.  YAML decoding, plug-in assembly and the registries wire components together.  Random-access
  reads, capacity reports and platform shims are left out of the interfaces.  Test suites, conformance helpers
  and stubs have no behaviour of their own.
\<close>

end
